(* ===== verification/Prelude.thy ===== *)
theory Prelude
  imports Main "HOL-Library.Word" "HOL-Library.Char_ord" "HOL-Library.List_Lexorder"
    "HOL-Library.Product_Lexorder"
begin

text \<open>
  Shared vocabulary of the development.  It fixes the model's types for the C++ integers and
  strings, the decimal printing of \<^verbatim>\<open>std::to_string\<close>, the decimal reading of
  \<^verbatim>\<open>strtoull\<close>, \<^verbatim>\<open>strtol\<close> and \<^verbatim>\<open>atoi\<close>, and the lemmas on them that every component uses.

  A \<^verbatim>\<open>std::string\<close> is a HOL \<^typ>\<open>string\<close>: a HOL character is one byte.  The C functions read a
  string up to its first NUL byte, which \<open>c_str\<close> makes explicit.
\<close>

type_synonym u64 = "64 word"
type_synonym u32 = "32 word"

named_theorems num_simps \<open>decimal printing and reading of machine integers\<close>

section \<open>Machine integers\<close>

lemma unat_u32_bound: "unat (w :: u32) < 2 ^ 32"
  using unsigned_less [of w, where ?'a = nat] by simp

lemma unat_u64_bound: "unat (w :: u64) < 2 ^ 64"
  using unsigned_less [of w, where ?'a = nat] by simp

lemma unat_of_nat_u32 [num_simps]: "n < 2 ^ 32 \<Longrightarrow> unat (word_of_nat n :: u32) = n"
  by (simp add: unat_of_nat)

lemma unat_of_nat_u64 [num_simps]: "n < 2 ^ 64 \<Longrightarrow> unat (word_of_nat n :: u64) = n"
  by (simp add: unat_of_nat)

lemma word_of_nat_eq_0_iff_u32: "n < 2 ^ 32 \<Longrightarrow> (word_of_nat n :: u32) = 0 \<longleftrightarrow> n = 0"
  using unat_of_nat_u32 [of n] by (auto simp: unat_eq_0 [symmetric])

section \<open>Decimal printing\<close>

definition digit_char :: "nat \<Rightarrow> char" where
  "digit_char d = char_of (48 + d)"

fun dec :: "nat \<Rightarrow> string" where
  "dec n = (if n < 10 then [digit_char n] else dec (n div 10) @ [digit_char (n mod 10)])"

declare dec.simps [simp del]

lemma dec_small [num_simps]: "n < 10 \<Longrightarrow> dec n = [digit_char n]"
  by (simp add: dec.simps)

lemma dec_large [num_simps]: "10 \<le> n \<Longrightarrow> dec n = dec (n div 10) @ [digit_char (n mod 10)]"
  by (subst dec.simps) simp

definition to_string :: "u64 \<Rightarrow> string" where
  "to_string w = dec (unat w)"

text \<open>\<^verbatim>\<open>std::to_string\<close> of a signed integer.\<close>

definition int_text :: "int \<Rightarrow> string" where
  "int_text i = (if i < 0 then ''-'' @ dec (nat (- i)) else dec (nat i))"

definition newline :: string where "newline = [CHR 0x0A]"

definition is_digit :: "char \<Rightarrow> bool" where
  "is_digit c \<longleftrightarrow> 48 \<le> (of_char c :: nat) \<and> (of_char c :: nat) \<le> 57"

definition digit_val :: "char \<Rightarrow> nat" where
  "digit_val c = of_char c - 48"

lemma of_char_digit [simp]: "d < 10 \<Longrightarrow> (of_char (digit_char d) :: nat) = 48 + d"
  by (simp add: digit_char_def)

lemma is_digit_digit_char [simp]: "d < 10 \<Longrightarrow> is_digit (digit_char d)"
  by (simp add: is_digit_def)

lemma digit_val_digit_char [simp]: "d < 10 \<Longrightarrow> digit_val (digit_char d) = d"
  by (simp add: digit_val_def)

lemma dec_nonempty [simp]: "dec n \<noteq> []"
  by (subst dec.simps) simp

lemma dec_digits: "c \<in> set (dec n) \<Longrightarrow> is_digit c"
proof (induction n rule: dec.induct)
  case (1 n)
  then show ?case
    by (cases "n < 10") (auto simp: dec_small dec_large not_less)
qed

section \<open>Decimal reading\<close>

definition c_str :: "string \<Rightarrow> string" where
  "c_str s = takeWhile (\<lambda>c. c \<noteq> CHR 0x00) s"

definition isspace :: "char \<Rightarrow> bool" where
  "isspace c \<longleftrightarrow> c = CHR '' '' \<or> (9 \<le> (of_char c :: nat) \<and> (of_char c :: nat) \<le> 13)"

fun digits_val :: "nat \<Rightarrow> string \<Rightarrow> nat" where
  "digits_val acc [] = acc"
| "digits_val acc (c # cs) = digits_val (acc * 10 + digit_val c) cs"

record numeral_scan =
  scan_neg :: bool
  scan_digits :: string
  scan_end :: string

text \<open>
  The subject sequence of \<^verbatim>\<open>strtol\<close> in base ten: white space, an optional sign, digits.  With no
  digit the end pointer stays at the start of the text.
\<close>

definition scan_sign :: "string \<Rightarrow> bool \<times> string" where
  "scan_sign s = (case s of
      [] \<Rightarrow> (False, [])
    | c # cs \<Rightarrow> if c = CHR ''-'' then (True, cs) else if c = CHR ''+'' then (False, cs)
               else (False, s))"

definition scan_numeral :: "string \<Rightarrow> numeral_scan" where
  "scan_numeral s = (let (neg, t) = scan_sign (dropWhile isspace s);
       ds = takeWhile is_digit t
     in if ds = [] then \<lparr>scan_neg = False, scan_digits = [], scan_end = s\<rparr>
        else \<lparr>scan_neg = neg, scan_digits = ds, scan_end = dropWhile is_digit t\<rparr>)"

definition strtoull :: "string \<Rightarrow> u64 \<times> string" where
  "strtoull s = (let r = scan_numeral s; v = digits_val 0 (scan_digits r) in
     (if 2 ^ 64 \<le> v then - 1
      else if scan_neg r then - word_of_nat v else word_of_nat v, scan_end r))"

definition strtol :: "string \<Rightarrow> int \<times> string" where
  "strtol s = (let r = scan_numeral s; v = int (digits_val 0 (scan_digits r)) in
     (if scan_neg r then max (- (2 ^ 63)) (- v) else min (2 ^ 63 - 1) v, scan_end r))"

text \<open>A cast to a 32-bit \<^verbatim>\<open>int\<close> keeps the low 32 bits, read in two's complement.\<close>

definition cast_int :: "int \<Rightarrow> int" where
  "cast_int v = sint (word_of_int v :: 32 word)"

definition atoi :: "string \<Rightarrow> int" where
  "atoi s = cast_int (fst (strtol (c_str s)))"

section \<open>Reading what was printed\<close>

lemma digits_val_append: "digits_val acc (xs @ ys) = digits_val (digits_val acc xs) ys"
  by (induction xs arbitrary: acc) auto

lemma digits_val_dec [simp]: "digits_val 0 (dec n) = n"
proof (induction n rule: dec.induct)
  case (1 n)
  then show ?case
    by (cases "n < 10") (auto simp: dec_small dec_large digits_val_append not_less)
qed

lemma dec_inject [simp]: "dec m = dec n \<longleftrightarrow> m = n"
  by (metis digits_val_dec)

lemma to_string_inject [simp]: "to_string v = to_string w \<longleftrightarrow> v = w"
  by (simp add: to_string_def word_unat_eq_iff)

lemma to_string_digits: "c \<in> set (to_string w) \<Longrightarrow> is_digit c"
  by (auto simp: to_string_def dest: dec_digits)

lemma to_string_nonempty [simp]: "to_string w \<noteq> []"
  by (simp add: to_string_def)

lemma digit_not_special:
  assumes "is_digit c"
  shows "c \<noteq> CHR 0x00" "c \<noteq> CHR ''-''" "c \<noteq> CHR ''+''" "c \<noteq> CHR '':''" "\<not> isspace c"
  using assms by (auto simp: is_digit_def isspace_def)

lemma takeWhile_digits_dec [simp]: "takeWhile is_digit (dec n) = dec n"
  by (simp add: takeWhile_eq_all_conv dec_digits)

lemma dropWhile_digits_dec [simp]: "dropWhile is_digit (dec n) = []"
  by (simp add: dropWhile_eq_Nil_conv dec_digits)

lemma c_str_dec [simp]: "c_str (dec n) = dec n"
  unfolding c_str_def takeWhile_eq_all_conv
  using dec_digits digit_not_special(1) by blast

lemma dec_head: obtains c cs where "dec n = c # cs" "is_digit c"
  by (metis dec_digits dec_nonempty list.exhaust list.set_intros(1))

lemma scan_numeral_dec [simp]:
  "scan_numeral (dec n) = \<lparr>scan_neg = False, scan_digits = dec n, scan_end = []\<rparr>"
proof -
  obtain c cs where d: "dec n = c # cs" and c: "is_digit c" by (rule dec_head)
  have "dropWhile isspace (dec n) = dec n" using d digit_not_special(5) [OF c] by simp
  moreover have "scan_sign (dec n) = (False, dec n)"
    using d digit_not_special(2,3) [OF c] by (simp add: scan_sign_def)
  ultimately show ?thesis by (simp add: scan_numeral_def)
qed

lemma strtoull_dec: "n < 2 ^ 64 \<Longrightarrow> strtoull (dec n) = (word_of_nat n, [])"
  by (simp add: strtoull_def)

lemma strtoull_to_string [simp]: "strtoull (c_str (to_string w)) = (w, [])"
  using unat_u64_bound [of w] by (simp add: to_string_def strtoull_dec)

lemma strtol_dec: "n < 2 ^ 63 \<Longrightarrow> strtol (dec n) = (int n, [])"
  by (simp add: strtol_def)

lemma cast_int_small: "- (2 ^ 31) \<le> v \<Longrightarrow> v < 2 ^ 31 \<Longrightarrow> cast_int v = v"
  by (simp add: cast_int_def sint_sbintrunc' signed_take_bit_int_eq_self)

section \<open>Lists\<close>

lemma list_of_singleton: "distinct xs \<Longrightarrow> set xs = {x} \<Longrightarrow> xs = [x]"
  by (cases xs; cases "tl xs") auto

lemma list_all2_memD: "list_all2 P xs ys \<Longrightarrow> x \<in> set xs \<Longrightarrow> \<exists>y. P x y"
  by (induction rule: list_all2_induct) auto

lemma list_all2_mono_set:
  "list_all2 P xs ys \<Longrightarrow> (\<And>x y. x \<in> set xs \<Longrightarrow> P x y \<Longrightarrow> Q x y) \<Longrightarrow> list_all2 Q xs ys"
  by (induction rule: list_all2_induct) auto


text \<open>An unsigned difference that should be negative is enormous.\<close>

lemma wrapped_difference:
  assumes "(a :: u64) < b" "unat (b - a) \<le> 2 ^ 63"
  shows "2 ^ 63 \<le> unat (a - b)"
proof -
  have "unat a < unat b" using assms(1) by (simp add: word_less_nat_alt)
  then show ?thesis using assms(2) unat_u64_bound [of b] by (simp add: unat_sub_if')
qed

end
