(* ===== verification/Redis.thy ===== *)
theory Redis
  imports Prelude
begin

text \<open>
  The Redis server as the program's store uses it.  The server itself is not part of the program: the
  development is parametric in its command table \<open>call\<close>, a function from a command line and a
  keyspace to a reply and a keyspace.  The locale \<open>redis_server\<close> states what the documentation of
  Redis says of the commands that \<^verbatim>\<open>MessageStore.cpp\<close> sends, on keys of the right type; the command
  table \<open>redis_call\<close> at the end shows that the laws can be met.

  The Lua scripts of \<^verbatim>\<open>MessageStore.cpp\<close> run inside the server and are part of the program.  A script is a
  tree of \<open>redis.call\<close>s; \<open>run_lua\<close> executes it on a command table.  Values cross between Redis and Lua
  by the conversions \<open>lua_of_reply\<close> and \<open>reply_of_lua\<close>; Lua 5.1 numbers are doubles, printed by
  \<^verbatim>\<open>%.14g\<close> in a concatenation and by \<^verbatim>\<open>%.17g\<close> as an argument of \<open>redis.call\<close>.

  The score of a sorted-set member is a double as well.  The laws speak only of whole scores up to
  \<open>2 ^ 53\<close>, which a double holds exactly.
\<close>

section \<open>Keyspace and replies\<close>

datatype redisReply =
    ReplyNil
  | ReplyStatus string
  | ReplyString string
  | ReplyInteger int
  | ReplyArray "redisReply list"
  | ReplyError string

text \<open>A sorted set is the list of its (score, member) pairs in the order in which Redis ranges over it.\<close>

type_synonym zset = "(nat \<times> string) list"

datatype rvalue =
    RString string
  | RHash "string \<Rightarrow> string option"
  | RZSet zset

type_synonym keyspace = "string \<Rightarrow> rvalue option"
type_synonym command_table = "string list \<Rightarrow> keyspace \<Rightarrow> redisReply \<times> keyspace"

text \<open>What a key holds when it is used as a string, a hash or a sorted set; \<open>None\<close> for a wrong type.\<close>

definition string_at :: "keyspace \<Rightarrow> string \<Rightarrow> string option option" where
  "string_at ks k = (case ks k of None \<Rightarrow> Some None | Some (RString v) \<Rightarrow> Some (Some v) | _ \<Rightarrow> None)"

definition hash_at :: "keyspace \<Rightarrow> string \<Rightarrow> (string \<Rightarrow> string option) option" where
  "hash_at ks k = (case ks k of None \<Rightarrow> Some Map.empty | Some (RHash h) \<Rightarrow> Some h | _ \<Rightarrow> None)"

definition zset_at :: "keyspace \<Rightarrow> string \<Rightarrow> zset option" where
  "zset_at ks k = (case ks k of None \<Rightarrow> Some [] | Some (RZSet z) \<Rightarrow> Some z | _ \<Rightarrow> None)"

text \<open>A key whose sorted set becomes empty is removed.\<close>

definition put_zset :: "string \<Rightarrow> zset \<Rightarrow> keyspace \<Rightarrow> keyspace" where
  "put_zset k z ks = ks(k := if z = [] then None else Some (RZSet z))"

definition zrem :: "string \<Rightarrow> zset \<Rightarrow> zset" where
  "zrem m z = filter (\<lambda>e. snd e \<noteq> m) z"

definition zadd :: "nat \<Rightarrow> string \<Rightarrow> zset \<Rightarrow> zset" where
  "zadd s m z = insort (s, m) (zrem m z)"

definition bulk :: "string option \<Rightarrow> redisReply" where
  "bulk v = (case v of None \<Rightarrow> ReplyNil | Some s \<Rightarrow> ReplyString s)"

definition members :: "zset \<Rightarrow> redisReply" where
  "members z = ReplyArray (map (\<lambda>e. ReplyString (snd e)) z)"

fun field_pairs :: "string list \<Rightarrow> (string \<times> string) list option" where
  "field_pairs [] = Some []"
| "field_pairs (f # v # rest) = map_option ((#) (f, v)) (field_pairs rest)"
| "field_pairs [f] = None"

section \<open>The commands of the store\<close>

locale redis_server =
  fixes call :: command_table
  assumes GET: "string_at ks k = Some ov \<Longrightarrow> call [''GET'', k] ks = (bulk ov, ks)"
    and SET: "call [''SET'', k, v] ks = (ReplyStatus ''OK'', ks(k \<mapsto> RString v))"
    and EXISTS: "call [''EXISTS'', k] ks = (ReplyInteger (if ks k = None then 0 else 1), ks)"
    and INCR_new: "ks k = None \<Longrightarrow> call [''INCR'', k] ks = (ReplyInteger 1, ks(k \<mapsto> RString (dec 1)))"
    and INCR: "ks k = Some (RString (dec n)) \<Longrightarrow> n < 2 ^ 63 - 1 \<Longrightarrow>
      call [''INCR'', k] ks = (ReplyInteger (int n + 1), ks(k \<mapsto> RString (dec (n + 1))))"
    and HSET: "hash_at ks k = Some h \<Longrightarrow> field_pairs args = Some fvs \<Longrightarrow> fvs \<noteq> [] \<Longrightarrow>
      call (''HSET'' # k # args) ks =
        (ReplyInteger (int (card (fst ` set fvs - dom h))), ks(k \<mapsto> RHash (h ++ map_of (rev fvs))))"
    and HGET: "hash_at ks k = Some h \<Longrightarrow> call [''HGET'', k, f] ks = (bulk (h f), ks)"
    and HMGET: "hash_at ks k = Some h \<Longrightarrow> fs \<noteq> [] \<Longrightarrow>
      call (''HMGET'' # k # fs) ks = (ReplyArray (map (\<lambda>f. bulk (h f)) fs), ks)"
    and HINCRBY: "hash_at ks k = Some h \<Longrightarrow> h f = Some (dec n) \<Longrightarrow> n < 2 ^ 63 - 1 \<Longrightarrow>
      call [''HINCRBY'', k, f, ''1''] ks =
        (ReplyInteger (int n + 1), ks(k \<mapsto> RHash (h(f \<mapsto> dec (n + 1)))))"
    and ZADD: "zset_at ks k = Some z \<Longrightarrow> s \<le> 2 ^ 53 \<Longrightarrow>
      call [''ZADD'', k, dec s, m] ks =
        (ReplyInteger (if m \<in> snd ` set z then 0 else 1), put_zset k (zadd s m z) ks)"
    and ZREM: "zset_at ks k = Some z \<Longrightarrow>
      call [''ZREM'', k, m] ks =
        (ReplyInteger (if m \<in> snd ` set z then 1 else 0), put_zset k (zrem m z) ks)"
    and ZRANGE_all: "zset_at ks k = Some z \<Longrightarrow> call [''ZRANGE'', k, ''0'', ''-1''] ks = (members z, ks)"
    and ZREVRANGE: "zset_at ks k = Some z \<Longrightarrow> n < 2 ^ 63 \<Longrightarrow>
      call [''ZREVRANGE'', k, ''0'', dec n] ks = (members (take (n + 1) (rev z)), ks)"
    and ZRANGEBYSCORE: "zset_at ks k = Some z \<Longrightarrow> s \<le> 2 ^ 53 \<Longrightarrow>
      call [''ZRANGEBYSCORE'', k, ''0'', dec s] ks = (members (filter (\<lambda>e. fst e \<le> s) z), ks)"

section \<open>Lua values\<close>

datatype lua_value =
    LNil
  | LFalse
  | LString string
  | LNumber int
  | LTable "lua_value list"
  | LStatus string
  | LError string

definition lua_true :: "lua_value \<Rightarrow> bool" where
  "lua_true v \<longleftrightarrow> v \<noteq> LNil \<and> v \<noteq> LFalse"

definition lua_or :: "lua_value \<Rightarrow> lua_value \<Rightarrow> lua_value" where
  "lua_or a b = (if lua_true a then a else b)"

text \<open>\<open>KEYS[i + 1]\<close> and \<open>ARGV[i + 1]\<close>.\<close>

definition arg_at :: "string list \<Rightarrow> nat \<Rightarrow> lua_value" where
  "arg_at xs i = (if i < length xs then LString (xs ! i) else LNil)"

text \<open>Rounding to the nearest multiple of a step, ties to the even multiple.\<close>

definition round_even :: "nat \<Rightarrow> nat \<Rightarrow> nat" where
  "round_even d n = (let q = n div d; r = 2 * (n mod d) in
     if r < d \<or> r = d \<and> even q then q else q + 1)"

fun bit_size :: "nat \<Rightarrow> nat" where
  "bit_size n = (if n = 0 then 0 else Suc (bit_size (n div 2)))"

declare bit_size.simps [simp del]

text \<open>A 64-bit reply becomes a double.\<close>

definition to_double :: "int \<Rightarrow> int" where
  "to_double i = (let m = nat \<bar>i\<bar> in if m \<le> 2 ^ 53 then i
     else let d = 2 ^ (bit_size m - 53) in sgn i * int (round_even d m * d))"

definition exponent_text :: "nat \<Rightarrow> string" where
  "exponent_text e = ''e+'' @ (if e < 10 then ''0'' else []) @ dec e"

definition scientific :: "nat \<Rightarrow> nat \<Rightarrow> string" where
  "scientific p m =
    (let e = length (dec m) - 1;
         q = round_even (10 ^ (e + 1 - p)) m;
         (q', e') = (if q = 10 ^ p then (10 ^ (p - 1), e + 1) else (q, e));
         ds = rev (dropWhile (\<lambda>c. c = CHR ''0'') (rev (dec q')))
     in take 1 ds @ (if length ds \<le> 1 then [] else CHR ''.'' # drop 1 ds) @ exponent_text e')"

text \<open>\<^verbatim>\<open>printf("%.<p>g")\<close> of a whole number.\<close>

definition format_g :: "nat \<Rightarrow> int \<Rightarrow> string" where
  "format_g p i = (let m = nat \<bar>i\<bar> in
     (if i < 0 then ''-'' else []) @ (if m < 10 ^ p then dec m else scientific p m))"

text \<open>The text of a value in a concatenation or under \<^verbatim>\<open>tostring\<close>, and as an argument of \<^verbatim>\<open>redis.call\<close>.\<close>

definition lua_text :: "lua_value \<Rightarrow> string option" where
  "lua_text v = (case v of LString s \<Rightarrow> Some s | LNumber n \<Rightarrow> Some (format_g 14 n) | _ \<Rightarrow> None)"

definition lua_arg :: "lua_value \<Rightarrow> string option" where
  "lua_arg v = (case v of LString s \<Rightarrow> Some s | LNumber n \<Rightarrow> Some (format_g 17 n) | _ \<Rightarrow> None)"

fun lua_of_reply :: "redisReply \<Rightarrow> lua_value" where
  "lua_of_reply ReplyNil = LFalse"
| "lua_of_reply (ReplyStatus s) = LStatus s"
| "lua_of_reply (ReplyString s) = LString s"
| "lua_of_reply (ReplyInteger n) = LNumber (to_double n)"
| "lua_of_reply (ReplyArray rs) = LTable (map lua_of_reply rs)"
| "lua_of_reply (ReplyError e) = LError e"

text \<open>A table is returned up to its first nil.\<close>

fun reply_of_lua :: "lua_value \<Rightarrow> redisReply" where
  "reply_of_lua LNil = ReplyNil"
| "reply_of_lua LFalse = ReplyNil"
| "reply_of_lua (LString s) = ReplyString s"
| "reply_of_lua (LNumber n) = ReplyInteger n"
| "reply_of_lua (LTable vs) =
    ReplyArray (take (length (takeWhile (\<lambda>v. v \<noteq> LNil) vs)) (map reply_of_lua vs))"
| "reply_of_lua (LStatus s) = ReplyStatus s"
| "reply_of_lua (LError e) = ReplyError e"

section \<open>Running a script\<close>

datatype lua =
    LuaReturn lua_value
  | LuaError string
  | RedisCall "lua_value list" "lua_value \<Rightarrow> lua"

type_synonym lua_script = "string list \<Rightarrow> string list \<Rightarrow> lua"

text \<open>An error of a command ends the script; what it wrote before stays.\<close>

primrec run_lua :: "command_table \<Rightarrow> lua \<Rightarrow> keyspace \<Rightarrow> redisReply \<times> keyspace" where
  "run_lua call (LuaReturn v) ks = (reply_of_lua v, ks)"
| "run_lua call (LuaError e) ks = (ReplyError e, ks)"
| "run_lua call (RedisCall args k) ks =
    (case those (map lua_arg args) of
       None \<Rightarrow> (ReplyError ''command arguments must be strings or integers'', ks)
     | Some argv \<Rightarrow>
        (case call argv ks of
           (r, ks') \<Rightarrow> (case r of ReplyError e \<Rightarrow> (ReplyError e, ks')
                         | _ \<Rightarrow> run_lua call (k (lua_of_reply r)) ks')))"

text \<open>\<^verbatim>\<open>a .. b\<close> with a continuation: an operand that is neither string nor number is an error.\<close>

definition lua_concat :: "lua_value \<Rightarrow> lua_value \<Rightarrow> (lua_value \<Rightarrow> lua) \<Rightarrow> lua" where
  "lua_concat a b k = (case (lua_text a, lua_text b) of
     (Some s, Some t) \<Rightarrow> k (LString (s @ t))
   | _ \<Rightarrow> LuaError ''attempt to concatenate'')"

text \<open>
  An argument of a command line: bytes, or the source of a script, which stands for the script.  The
  server executes \<^verbatim>\<open>EVAL script numkeys key... arg...\<close> by running the script on its keys and arguments.
\<close>

datatype cmd_arg = Bytes string | Script lua_script

definition arg_bytes :: "cmd_arg \<Rightarrow> string option" where
  "arg_bytes a = (case a of Bytes s \<Rightarrow> Some s | Script _ \<Rightarrow> None)"

fun eval_parts :: "cmd_arg list \<Rightarrow> (lua_script \<times> string list \<times> string list) option" where
  "eval_parts (Bytes name # Script f # Bytes numkeys # rest) =
    (if name = ''EVAL'' then
       map_option (\<lambda>xs. let n = unat (fst (strtoull numkeys)) in (f, take n xs, drop n xs))
         (those (map arg_bytes rest))
     else None)"
| "eval_parts _ = None"

definition serve :: "command_table \<Rightarrow> cmd_arg list \<Rightarrow> keyspace \<Rightarrow> redisReply \<times> keyspace" where
  "serve call argv ks = (case eval_parts argv of
     Some (f, keys, args) \<Rightarrow> run_lua call (f keys args) ks
   | None \<Rightarrow> (case those (map arg_bytes argv) of
        Some cmd \<Rightarrow> call cmd ks
      | None \<Rightarrow> (ReplyError ''unknown command'', ks)))"

section \<open>Lemmas on values and scripts\<close>

lemma dec_one: "dec 1 = ''1''"
  by (subst dec.simps) (simp add: digit_char_def, code_simp)

lemma format_g_small: "n < 10 ^ p \<Longrightarrow> format_g p (int n) = dec n"
  by (simp add: format_g_def)

lemma to_double_small: "n \<le> 2 ^ 53 \<Longrightarrow> to_double (int n) = int n"
  by (simp add: to_double_def)

lemma lua_arg_simps [simp]:
  "lua_arg (LString s) = Some s" "lua_arg LNil = None" "lua_arg LFalse = None"
  by (simp_all add: lua_arg_def)

lemma lua_arg_number: "n < 10 ^ 17 \<Longrightarrow> lua_arg (LNumber (int n)) = Some (dec n)"
  by (simp add: lua_arg_def format_g_small)

lemma lua_text_string [simp]: "lua_text (LString s) = Some s"
  by (simp add: lua_text_def)

lemma lua_text_number: "n < 10 ^ 14 \<Longrightarrow> lua_text (LNumber (int n)) = Some (dec n)"
  by (simp add: lua_text_def format_g_small)

lemma lua_true_simps [simp]:
  "lua_true (LString s)" "\<not> lua_true LFalse" "\<not> lua_true LNil" "lua_true (LNumber n)"
  by (simp_all add: lua_true_def)

lemma lua_or_string [simp]: "lua_or (LString s) v = LString s"
  by (simp add: lua_or_def)

lemma lua_concat_string [simp]: "lua_concat (LString s) (LString t) k = k (LString (s @ t))"
  by (simp add: lua_concat_def)

lemma lua_of_bulk: "lua_of_reply (bulk v) = (case v of None \<Rightarrow> LFalse | Some s \<Rightarrow> LString s)"
  by (simp add: bulk_def split: option.split)

lemma reply_of_lua_of_bulk: "reply_of_lua (lua_of_reply (bulk v)) = bulk v"
  by (simp add: bulk_def split: option.split)

lemma lua_of_bulk_not_nil: "lua_of_reply (bulk v) \<noteq> LNil"
  by (simp add: bulk_def split: option.split)

lemma bulk_not_error [simp]: "bulk v \<noteq> ReplyError e"
  by (simp add: bulk_def split: option.split)

lemma bulk_simps [simp]: "bulk None = ReplyNil" "bulk (Some s) = ReplyString s"
  by (simp_all add: bulk_def)

text \<open>One \<open>redis.call\<close> whose outcome is known.\<close>

lemma run_call:
  assumes "those (map lua_arg args) = Some argv" "call argv ks = (r, ks')" "\<And>e. r \<noteq> ReplyError e"
  shows "run_lua call (RedisCall args k) ks = run_lua call (k (lua_of_reply r)) ks'"
  using assms(1,2) assms(3) [of "case r of ReplyError e \<Rightarrow> e"] by (cases r) simp_all

declare run_lua.simps(3) [simp del]

lemma those_map_Some [simp]: "those (map (\<lambda>x. Some (f x)) xs) = Some (map f xs)"
  by (induction xs) simp_all

lemma those_map_bytes [simp]: "those (map (arg_bytes \<circ> Bytes) xs) = Some xs"
  by (simp add: arg_bytes_def comp_def)

lemma those_bytes [simp]: "those (map arg_bytes (map Bytes xs)) = Some xs"
  by (induction xs) (simp_all add: arg_bytes_def)

lemma eval_parts_bytes [simp]: "eval_parts (map Bytes cmd) = None"
  by (cases "map Bytes cmd" rule: eval_parts.cases) auto

lemma serve_plain: "serve call (map Bytes cmd) ks = call cmd ks"
  by (simp add: serve_def del: map_map)

lemma eval_parts_eval:
  assumes "length keys < 2 ^ 64"
  shows "eval_parts (Bytes ''EVAL'' # Script f # Bytes (dec (length keys)) # map Bytes keys @ map Bytes args) =
    Some (f, keys, args)"
proof -
  have "those (map arg_bytes (map Bytes keys @ map Bytes args)) = Some (keys @ args)"
    unfolding map_append [symmetric] by (rule those_bytes)
  then show ?thesis
    using assms by (simp del: map_map map_append add: strtoull_dec unat_of_nat_u64)
qed

section \<open>Lemmas on sorted sets\<close>

definition zset_ok :: "zset \<Rightarrow> bool" where
  "zset_ok z \<longleftrightarrow> sorted z \<and> distinct (map snd z)"

lemma zset_ok_empty [simp]: "zset_ok []"
  by (simp add: zset_ok_def)

lemma set_zrem [simp]: "set (zrem m z) = {e \<in> set z. snd e \<noteq> m}"
  by (simp add: zrem_def)

lemma set_zadd [simp]: "set (zadd s m z) = insert (s, m) {e \<in> set z. snd e \<noteq> m}"
  by (simp add: zadd_def set_insort_key)

lemma zadd_not_empty [simp]: "zadd s m z \<noteq> []"
  using set_zadd [of s m z] by (metis insert_not_empty list.set(1))

lemma zset_ok_zrem: "zset_ok z \<Longrightarrow> zset_ok (zrem m z)"
  unfolding zset_ok_def zrem_def
  by (auto simp: sorted_wrt_filter distinct_map intro: inj_on_subset)

lemma distinct_insort_snd:
  "distinct (map snd (insort (s, m) z)) = (m \<notin> snd ` set z \<and> distinct (map snd z))"
  by (induction z) (auto simp: set_insort_key)

lemma zset_ok_zadd: "zset_ok z \<Longrightarrow> zset_ok (zadd s m z)"
  using zset_ok_zrem [of z m]
  by (auto simp: zset_ok_def zadd_def sorted_insort distinct_insort_snd)

lemma zset_ok_unique: "zset_ok z \<Longrightarrow> zset_ok z' \<Longrightarrow> set z = set z' \<Longrightarrow> z = z'"
  by (auto simp: zset_ok_def distinct_map intro: sorted_distinct_set_unique)

lemma put_zset_other [simp]: "k' \<noteq> k \<Longrightarrow> put_zset k z ks k' = ks k'"
  by (simp add: put_zset_def)

lemma zset_at_put [simp]: "zset_at (put_zset k z ks) k = Some z"
  by (simp add: zset_at_def put_zset_def)

lemma zset_at_put_other [simp]: "k' \<noteq> k \<Longrightarrow> zset_at (put_zset k z ks) k' = zset_at ks k'"
  by (simp add: zset_at_def)

lemma at_upd_other [simp]:
  "k' \<noteq> k \<Longrightarrow> zset_at (ks(k := v)) k' = zset_at ks k'"
  "k' \<noteq> k \<Longrightarrow> hash_at (ks(k := v)) k' = hash_at ks k'"
  "k' \<noteq> k \<Longrightarrow> string_at (ks(k := v)) k' = string_at ks k'"
  "k' \<noteq> k \<Longrightarrow> hash_at (put_zset k z ks) k' = hash_at ks k'"
  "k' \<noteq> k \<Longrightarrow> string_at (put_zset k z ks) k' = string_at ks k'"
  by (simp_all add: zset_at_def hash_at_def string_at_def)

lemma at_upd [simp]:
  "hash_at (ks(k \<mapsto> RHash h)) k = Some h" "string_at (ks(k \<mapsto> RString s)) k = Some (Some s)"
  by (simp_all add: hash_at_def string_at_def)

section \<open>A server that meets the laws\<close>

definition wrong_type :: redisReply where
  "wrong_type = ReplyError ''WRONGTYPE''"

definition redis_call :: command_table where
  "redis_call argv ks = (case argv of
     [c, k] \<Rightarrow>
       (if c = ''GET'' then (case string_at ks k of Some v \<Rightarrow> (bulk v, ks) | None \<Rightarrow> (wrong_type, ks))
        else if c = ''EXISTS'' then (ReplyInteger (if ks k = None then 0 else 1), ks)
        else if c = ''INCR'' then
          (case string_at ks k of
             Some v \<Rightarrow> let n = (case v of None \<Rightarrow> 0 | Some s \<Rightarrow> digits_val 0 s) + 1 in
               (ReplyInteger (int n), ks(k \<mapsto> RString (dec n)))
           | None \<Rightarrow> (wrong_type, ks))
        else (ReplyError ''ERR'', ks))
   | c # k # a # rest \<Rightarrow>
       (if c = ''SET'' \<and> rest = [] then (ReplyStatus ''OK'', ks(k \<mapsto> RString a))
        else if c \<in> {''HSET'', ''HGET'', ''HMGET'', ''HINCRBY''} then
          (case hash_at ks k of
             None \<Rightarrow> (wrong_type, ks)
           | Some h \<Rightarrow>
              if c = ''HSET'' then
                (case field_pairs (a # rest) of
                   None \<Rightarrow> (ReplyError ''ERR'', ks)
                 | Some fvs \<Rightarrow> (ReplyInteger (int (card (fst ` set fvs - dom h))),
                     ks(k \<mapsto> RHash (h ++ map_of (rev fvs)))))
              else if c = ''HGET'' then (bulk (h a), ks)
              else if c = ''HMGET'' then (ReplyArray (map (\<lambda>f. bulk (h f)) (a # rest)), ks)
              else let n = (case h a of None \<Rightarrow> 0 | Some s \<Rightarrow> digits_val 0 s) + 1 in
                (ReplyInteger (int n), ks(k \<mapsto> RHash (h(a \<mapsto> dec n)))))
        else
          (case zset_at ks k of
             None \<Rightarrow> (wrong_type, ks)
           | Some z \<Rightarrow>
              if c = ''ZADD'' then
                (ReplyInteger (if hd rest \<in> snd ` set z then 0 else 1),
                 put_zset k (zadd (digits_val 0 a) (hd rest) z) ks)
              else if c = ''ZREM'' then
                (ReplyInteger (if a \<in> snd ` set z then 1 else 0), put_zset k (zrem a z) ks)
              else if c = ''ZRANGE'' then (members z, ks)
              else if c = ''ZREVRANGE'' then (members (take (digits_val 0 (hd rest) + 1) (rev z)), ks)
              else if c = ''ZRANGEBYSCORE'' then
                (members (filter (\<lambda>e. fst e \<le> digits_val 0 (hd rest)) z), ks)
              else (ReplyError ''ERR'', ks)))
   | _ \<Rightarrow> (ReplyError ''ERR'', ks))"

interpretation reference: redis_server redis_call
proof
  fix ks k h args fvs
  assume "hash_at ks k = Some h" "field_pairs args = Some fvs" "fvs \<noteq> []"
  then show "redis_call (''HSET'' # k # args) ks =
      (ReplyInteger (int (card (fst ` set fvs - dom h))), ks(k \<mapsto> RHash (h ++ map_of (rev fvs))))"
    by (cases args rule: field_pairs.cases) (auto simp: redis_call_def)
next
  fix ks k h and fs :: "string list"
  assume "hash_at ks k = Some h" "fs \<noteq> []"
  then show "redis_call (''HMGET'' # k # fs) ks = (ReplyArray (map (\<lambda>f. bulk (h f)) fs), ks)"
    by (cases fs) (auto simp: redis_call_def)
qed (simp_all add: redis_call_def string_at_def add.commute)

end
