(* ===== verification/Redis_Client.thy ===== *)
theory Redis_Client
  imports Redis "HOL-Library.Multiset"
begin

text \<open>
  \<^verbatim>\<open>server/src/RedisClient.cpp\<close>: a pool of synchronous connections to Redis.  \<^verbatim>\<open>acquire\<close> leases a slot of
  the pool and connects it, \<^verbatim>\<open>command\<close> sends one command over the leased connection, and the lease's
  destructor gives the slot back.

  What hiredis and the network do is a parameter of every call: \<open>connect\<close> is what
  \<^verbatim>\<open>redisConnectWithTimeout\<close> returns (\<open>None\<close> the null pointer, \<open>Some err\<close> a context with that error
  code), and a \<open>fate\<close> tells whether the server executed a command, whether its reply came back, and
  the error code of the context afterwards.  A context is represented by its error code.
\<close>

section \<open>Configuration\<close>

definition kDefaultRedisHost :: string where
  "kDefaultRedisHost = ''127.0.0.1''"

definition kDefaultRedisPort :: int where
  "kDefaultRedisPort = 6379"

definition RedisHost :: "string option \<Rightarrow> string" where
  "RedisHost env = (case env of
     Some host \<Rightarrow> if c_str host \<noteq> [] then c_str host else kDefaultRedisHost
   | None \<Rightarrow> kDefaultRedisHost)"

definition RedisPort :: "string option \<Rightarrow> int" where
  "RedisPort env = (case env of
     None \<Rightarrow> kDefaultRedisPort
   | Some text \<Rightarrow>
      if c_str text = [] then kDefaultRedisPort
      else let (port, end') = strtol (c_str text) in
        if end' \<noteq> [] \<or> port \<le> 0 \<or> port > 65535 then kDefaultRedisPort
        else cast_int port)"

section \<open>The pool\<close>

type_synonym redisContext = int

record RedisClient =
  slots :: "redisContext option list"
  available :: "nat list"
  borrowed :: nat
  stopping :: bool

definition new_RedisClient :: "nat \<Rightarrow> RedisClient" where
  "new_RedisClient pool_size =
    (let n = (if pool_size = 0 then 1 else pool_size) in
     \<lparr>slots = replicate n None, available = map (\<lambda>i. n - i - 1) [0..<n], borrowed = 0,
      stopping = False\<rparr>)"

text \<open>
  The start of the destructor.  Its \<^verbatim>\<open>notify_all\<close> and its wait until \<^verbatim>\<open>borrowed_\<close> is zero are the steps
  \<open>destroy\<close> and \<open>destroy_again\<close> of \<open>client_step\<close> below.
\<close>

definition begin_destruction :: "RedisClient \<Rightarrow> RedisClient" where
  "begin_destruction c = c\<lparr>stopping := True\<rparr>"

definition closeSlot :: "nat \<Rightarrow> RedisClient \<Rightarrow> RedisClient" where
  "closeSlot i c = c\<lparr>slots := (slots c)[i := None]\<rparr>"

definition ConnectRedis :: "redisContext option \<Rightarrow> redisContext option" where
  "ConnectRedis connect = (case connect of
     None \<Rightarrow> None
   | Some err \<Rightarrow> if err \<noteq> 0 then None else Some err)"

definition ensureConnected ::
    "redisContext option \<Rightarrow> nat \<Rightarrow> RedisClient \<Rightarrow> redisContext option \<times> RedisClient" where
  "ensureConnected connect i c =
    (if slots c ! i \<noteq> None \<and> the (slots c ! i) = 0 then (slots c ! i, c)
     else let c' = closeSlot i c; c'' = c'\<lparr>slots := (slots c')[i := ConnectRedis connect]\<rparr>
       in (slots c'' ! i, c''))"

text \<open>The critical section of \<^verbatim>\<open>releaseSlot\<close>; its \<^verbatim>\<open>notify_one\<close>, outside the lock, is the step \<open>signal\<close> below.\<close>

definition releaseSlot :: "nat \<Rightarrow> RedisClient \<Rightarrow> RedisClient" where
  "releaseSlot i c = c\<lparr>borrowed := (if borrowed c > 0 then borrowed c - 1 else borrowed c),
     available := (if \<not> stopping c then available c @ [i] else available c)\<rparr>"

text \<open>A lease; \<open>leased = None\<close> is the null \<^verbatim>\<open>client_\<close> of a default-constructed or released lease.\<close>

record Lease =
  leased :: "nat option"
  context_of :: "redisContext option"

definition null_Lease :: Lease where
  "null_Lease = \<lparr>leased = None, context_of = None\<rparr>"

definition lease_close :: "Lease \<Rightarrow> RedisClient \<Rightarrow> Lease \<times> RedisClient" where
  "lease_close l c = (case leased l of
     None \<Rightarrow> (l, c)
   | Some i \<Rightarrow> (l\<lparr>context_of := None\<rparr>, closeSlot i c))"

definition lease_release :: "Lease \<Rightarrow> RedisClient \<Rightarrow> Lease \<times> RedisClient" where
  "lease_release l c = (case leased l of
     None \<Rightarrow> (l, c)
   | Some i \<Rightarrow> (null_Lease, releaseSlot i c))"

text \<open>
  Moving a lease: the new or assigned lease and the one that was moved from.  The destructor is \<^verbatim>\<open>release\<close>.
\<close>

definition make_Lease :: "nat \<Rightarrow> redisContext option \<Rightarrow> Lease" where
  "make_Lease i ctx = \<lparr>leased = Some i, context_of = ctx\<rparr>"

definition lease_get :: "Lease \<Rightarrow> redisContext option" where
  "lease_get l = context_of l"

definition lease_move :: "Lease \<Rightarrow> Lease \<times> Lease" where
  "lease_move other = (\<lparr>leased = leased other, context_of = context_of other\<rparr>, null_Lease)"

text \<open>\<open>self\<close> tells whether both are the same object.\<close>

definition lease_assign :: "bool \<Rightarrow> Lease \<Rightarrow> Lease \<Rightarrow> RedisClient \<Rightarrow> Lease \<times> Lease \<times> RedisClient" where
  "lease_assign self this_lease other c =
    (if self then (this_lease, other, c)
     else case lease_release this_lease c of (_, c') \<Rightarrow>
       (\<lparr>leased = leased other, context_of = context_of other\<rparr>, null_Lease, c'))"

text \<open>However leases are moved, destroying what is left gives each slot back exactly once.\<close>

lemma lease_moved_once:
  "lease_move l = (a, b) \<Longrightarrow> snd (lease_release a (snd (lease_release b c))) = snd (lease_release l c)"
  "lease_assign False l m c = (a, b, c') \<Longrightarrow>
    snd (lease_release a (snd (lease_release b c'))) = snd (lease_release m (snd (lease_release l c)))"
  by (auto simp: lease_move_def lease_assign_def lease_release_def null_Lease_def split: prod.splits option.splits)

text \<open>
  The critical section of \<^verbatim>\<open>acquire\<close> from a check of the predicate of \<^verbatim>\<open>available_cv_.wait\<close> on: \<open>None\<close> when the
  predicate is false, so that the thread blocks until it is notified (the steps \<open>wait\<close> and \<open>signal\<close> below), otherwise
  the slot taken, or none when the client is being destroyed.
\<close>

definition take_slot :: "RedisClient \<Rightarrow> (nat option \<times> RedisClient) option" where
  "take_slot c =
    (if available c = [] \<and> \<not> stopping c then None
     else if stopping c then Some (None, c)
     else Some (Some (last (available c)),
            c\<lparr>available := butlast (available c), borrowed := borrowed c + 1\<rparr>))"

definition acquire :: "redisContext option \<Rightarrow> RedisClient \<Rightarrow> (Lease \<times> RedisClient) option" where
  "acquire connect c = (case take_slot c of
     None \<Rightarrow> None
   | Some (None, c1) \<Rightarrow> Some (null_Lease, c1)
   | Some (Some i, c1) \<Rightarrow>
       (case ensureConnected connect i c1 of (ctx, c2) \<Rightarrow> Some (make_Lease i ctx, c2)))"

section \<open>Commands\<close>

record fate =
  executed :: bool
  answered :: bool
  err_after :: int

definition IsConnectionBroken :: "redisContext option \<Rightarrow> redisReply option \<Rightarrow> bool" where
  "IsConnectionBroken ctx reply \<longleftrightarrow> ctx = None \<or> the ctx \<noteq> 0 \<or> reply = None"

text \<open>\<^verbatim>\<open>redisCommandArgv\<close> on the context of a slot.\<close>

definition redisCommandArgv ::
    "command_table \<Rightarrow> fate \<Rightarrow> nat \<Rightarrow> cmd_arg list \<Rightarrow> RedisClient \<times> keyspace \<Rightarrow>
     redisReply option \<times> RedisClient \<times> keyspace" where
  "redisCommandArgv call f i argv s = (case s of (c, ks) \<Rightarrow>
     (let (r, ks') = serve call argv ks in
      (if executed f \<and> answered f then Some r else None,
       c\<lparr>slots := (slots c)[i := Some (err_after f)]\<rparr>,
       if executed f then ks' else ks)))"

text \<open>\<^verbatim>\<open>command\<close>, run without another thread in between; the outer \<open>None\<close> is a wait for a free slot.\<close>

definition command ::
    "command_table \<Rightarrow> redisContext option \<Rightarrow> fate \<Rightarrow> cmd_arg list \<Rightarrow> RedisClient \<times> keyspace \<Rightarrow>
     (redisReply option \<times> RedisClient \<times> keyspace) option" where
  "command call connect f argv s = (case s of (c, ks) \<Rightarrow>
    (if argv = [] then Some (None, c, ks)
     else (case acquire connect c of
       None \<Rightarrow> None
     | Some (connection, c1) \<Rightarrow>
        (if context_of connection = None then Some (None, snd (lease_release connection c1), ks)
         else let i = the (leased connection);
                  (reply, c2, ks') = redisCommandArgv call f i argv (c1, ks) in
           (if IsConnectionBroken (slots c2 ! i) reply then
              (let (connection', c3) = lease_close connection c2 in
               Some (None, snd (lease_release connection' c3), ks'))
            else Some (reply, snd (lease_release connection c2), ks'))))))"

text \<open>The command line \<^verbatim>\<open>eval\<close> builds; a null or empty script is \<open>None\<close>.\<close>

definition eval_argv :: "lua_script \<Rightarrow> string list \<Rightarrow> string list \<Rightarrow> cmd_arg list" where
  "eval_argv script keys args =
    [Bytes ''EVAL'', Script script, Bytes (dec (length keys))] @ map Bytes keys @ map Bytes args"

definition eval ::
    "command_table \<Rightarrow> redisContext option \<Rightarrow> fate \<Rightarrow> lua_script option \<Rightarrow> string list \<Rightarrow> string list \<Rightarrow>
     RedisClient \<times> keyspace \<Rightarrow> (redisReply option \<times> RedisClient \<times> keyspace) option" where
  "eval call connect f script keys args s = (case script of
     None \<Rightarrow> Some (None, s)
   | Some src \<Rightarrow> command call connect f (eval_argv src keys args) s)"

lemma serve_eval:
  "length keys < 2 ^ 64 \<Longrightarrow> serve call (eval_argv f keys args) ks = run_lua call (f keys args) ks"
  unfolding serve_def eval_argv_def append_Cons append_Nil by (subst eval_parts_eval) simp_all

section \<open>Threads in the pool\<close>

text \<open>
  Where a thread is in a call to \<^verbatim>\<open>command\<close>; between two of these points another thread may run.  \<open>Entering\<close> is at the lock of
  \<^verbatim>\<open>acquire\<close>, \<open>Blocked\<close> inside \<^verbatim>\<open>available_cv_.wait\<close>, and \<open>Signalling\<close> between the critical section of \<^verbatim>\<open>releaseSlot\<close> and its
  \<^verbatim>\<open>notify_one\<close>.  The destructor's thread waits on the same condition variable.
\<close>

datatype client_thread =
    Outside
  | Entering "cmd_arg list"
  | Blocked "cmd_arg list"
  | Connecting nat "cmd_arg list"
  | Executing nat "cmd_arg list"
  | Releasing nat "redisReply option"
  | Signalling "redisReply option"
  | Returned "redisReply option"

datatype destruction = Alive | DtorBlocked | DtorAtLock | Destroyed

record client_state =
  client :: RedisClient
  store :: keyspace
  callers :: "client_thread list"
  destructor :: destruction

text \<open>
  A wake-up of one waiter, whichever it is; when nobody waits it has no effect.  Condition variables may also wake
  a thread for no reason.
\<close>

inductive wake_one :: "client_state \<Rightarrow> client_state \<Rightarrow> bool" where
  wake_caller: "k < length (callers s) \<Longrightarrow> callers s ! k = Blocked argv \<Longrightarrow>
    wake_one s (s\<lparr>callers := (callers s)[k := Entering argv]\<rparr>)"
| wake_destructor: "destructor s = DtorBlocked \<Longrightarrow> wake_one s (s\<lparr>destructor := DtorAtLock\<rparr>)"
| wake_nobody: "\<forall>argv. Blocked argv \<notin> set (callers s) \<Longrightarrow> destructor s \<noteq> DtorBlocked \<Longrightarrow> wake_one s s"

fun woken :: "client_thread \<Rightarrow> client_thread" where
  "woken (Blocked argv) = Entering argv"
| "woken t = t"

text \<open>The loop condition of the destructor: it waits while slots are borrowed.\<close>

definition destructor_check :: "RedisClient \<Rightarrow> destruction" where
  "destructor_check c = (if borrowed c > 0 then DtorBlocked else Destroyed)"

inductive client_step :: "command_table \<Rightarrow> client_state \<Rightarrow> client_state \<Rightarrow> bool" for call where
  enter: "i < length (callers s) \<Longrightarrow> callers s ! i = Outside \<Longrightarrow>
    client_step call s (s\<lparr>callers := (callers s)[i := (if argv = [] then Returned None else Entering argv)]\<rparr>)"
| acquire: "i < length (callers s) \<Longrightarrow> callers s ! i = Entering argv \<Longrightarrow> take_slot (client s) = Some (Some j, c) \<Longrightarrow>
    client_step call s (s\<lparr>client := c, callers := (callers s)[i := Connecting j argv]\<rparr>)"
| refused: "i < length (callers s) \<Longrightarrow> callers s ! i = Entering argv \<Longrightarrow> take_slot (client s) = Some (None, c) \<Longrightarrow>
    client_step call s (s\<lparr>client := c, callers := (callers s)[i := Returned None]\<rparr>)"
| wait: "i < length (callers s) \<Longrightarrow> callers s ! i = Entering argv \<Longrightarrow> take_slot (client s) = None \<Longrightarrow>
    client_step call s (s\<lparr>callers := (callers s)[i := Blocked argv]\<rparr>)"
| connect: "i < length (callers s) \<Longrightarrow> callers s ! i = Connecting j argv \<Longrightarrow>
    ensureConnected net j (client s) = (ctx, c) \<Longrightarrow>
    client_step call s (s\<lparr>client := c,
      callers := (callers s)[i := (if ctx = None then Releasing j None else Executing j argv)]\<rparr>)"
| execute: "i < length (callers s) \<Longrightarrow> callers s ! i = Executing j argv \<Longrightarrow>
    redisCommandArgv call f j argv (client s, store s) = (reply, c, ks) \<Longrightarrow>
    broken = IsConnectionBroken (slots c ! j) reply \<Longrightarrow>
    client_step call s (s\<lparr>client := (if broken then closeSlot j c else c), store := ks,
      callers := (callers s)[i := Releasing j (if broken then None else reply)]\<rparr>)"
| release: "i < length (callers s) \<Longrightarrow> callers s ! i = Releasing j reply \<Longrightarrow>
    client_step call s (s\<lparr>client := releaseSlot j (client s), callers := (callers s)[i := Signalling reply]\<rparr>)"
| signal: "i < length (callers s) \<Longrightarrow> callers s ! i = Signalling reply \<Longrightarrow>
    wake_one (s\<lparr>callers := (callers s)[i := Returned reply]\<rparr>) s' \<Longrightarrow> client_step call s s'"
| spurious: "wake_one s s' \<Longrightarrow> client_step call s s'"
| return: "i < length (callers s) \<Longrightarrow> callers s ! i = Returned reply \<Longrightarrow>
    client_step call s (s\<lparr>callers := (callers s)[i := Outside]\<rparr>)"
| destroy: "destructor s = Alive \<Longrightarrow>
    client_step call s (s\<lparr>client := begin_destruction (client s), callers := map woken (callers s),
      destructor := destructor_check (client s)\<rparr>)"
| destroy_again: "destructor s = DtorAtLock \<Longrightarrow>
    client_step call s (s\<lparr>destructor := destructor_check (client s)\<rparr>)"

definition client_init :: "nat \<Rightarrow> nat \<Rightarrow> client_state" where
  "client_init pool_size n = \<lparr>client = new_RedisClient pool_size, store = Map.empty,
     callers = replicate n Outside, destructor = Alive\<rparr>"

fun holding :: "client_thread \<Rightarrow> nat list" where
  "holding (Connecting i argv) = [i]"
| "holding (Executing i argv) = [i]"
| "holding (Releasing i r) = [i]"
| "holding _ = []"

definition leases :: "client_thread list \<Rightarrow> nat list" where
  "leases ts = concat (map holding ts)"

text \<open>Every slot is either free or leased to exactly one thread; none is lost before the destruction.\<close>

definition client_inv :: "client_state \<Rightarrow> bool" where
  "client_inv s \<longleftrightarrow>
     mset (available (client s)) + mset (leases (callers s)) \<subseteq># mset [0..<length (slots (client s))] \<and>
     (\<not> stopping (client s) \<longrightarrow>
        mset (available (client s)) + mset (leases (callers s)) = mset [0..<length (slots (client s))]) \<and>
     borrowed (client s) = size (mset (leases (callers s)))"

section \<open>The invariant is kept\<close>

lemma leases_update:
  assumes "i < length ts"
  shows "mset (leases (ts[i := t])) + mset (holding (ts ! i)) = mset (leases ts) + mset (holding t)"
proof -
  have "ts = take i ts @ ts ! i # drop (Suc i) ts" using assms by (rule id_take_nth_drop)
  then have "mset (leases ts) =
      mset (leases (take i ts)) + mset (holding (ts ! i)) + mset (leases (drop (Suc i) ts))"
    unfolding leases_def
    by (metis (no_types, lifting) add.assoc concat.simps(2) concat_append list.simps(9) map_append mset_append)
  moreover have "ts[i := t] = take i ts @ t # drop (Suc i) ts" using assms by (rule upd_conv_take_nth_drop)
  ultimately show ?thesis by (simp add: leases_def)
qed

lemma leases_same:
  assumes "i < length ts" "holding t = holding (ts ! i)"
  shows "mset (leases (ts[i := t])) = mset (leases ts)"
  using leases_update [OF assms(1), of t] assms(2) by simp

lemma client_inv_cong:
  assumes "client_inv s" "mset (leases (callers s')) = mset (leases (callers s))"
    "available (client s') = available (client s)"
    "length (slots (client s')) = length (slots (client s))" "borrowed (client s') = borrowed (client s)"
    "stopping (client s) \<longrightarrow> stopping (client s')"
  shows "client_inv s'"
  using assms by (auto simp: client_inv_def simp del: size_mset)

lemma ensureConnected_frame:
  assumes "ensureConnected net j c = (ctx, c')"
  shows "available c' = available c \<and> length (slots c') = length (slots c) \<and> borrowed c' = borrowed c \<and>
    stopping c' = stopping c"
  using assms by (auto simp: ensureConnected_def closeSlot_def Let_def split: if_splits)

lemma client_inv_acquire:
  assumes "client_inv s" "i < length (callers s)" "callers s ! i = Entering argv'"
    "take_slot (client s) = Some (Some j, c)"
  shows "client_inv (s\<lparr>client := c, callers := (callers s)[i := Connecting j argv]\<rparr>)"
proof -
  have free: "available (client s) \<noteq> []" "\<not> stopping (client s)" and j: "j = last (available (client s))"
    and c: "c = (client s)\<lparr>available := butlast (available (client s)), borrowed := borrowed (client s) + 1\<rparr>"
    using assms(4) by (auto simp: take_slot_def split: if_splits)
  have "mset (leases ((callers s)[i := Connecting j argv])) = add_mset j (mset (leases (callers s)))"
    using leases_update [OF assms(2), of "Connecting j argv"] assms(3) by simp
  moreover have "mset (available (client s)) = add_mset j (mset (butlast (available (client s))))"
    using arg_cong [OF append_butlast_last_id [OF free(1)], of mset] j by simp
  ultimately show ?thesis using assms(1) free by (simp add: client_inv_def c del: size_mset)
qed

lemma client_inv_release:
  assumes "client_inv s" "i < length (callers s)" "callers s ! i = Releasing j reply"
  shows "client_inv (s\<lparr>client := releaseSlot j (client s), callers := (callers s)[i := Signalling reply]\<rparr>)"
proof -
  let ?ts = "(callers s)[i := Signalling reply]"
  have l: "mset (leases (callers s)) = add_mset j (mset (leases ?ts))"
    using leases_update [OF assms(2), of "Signalling reply"] assms(3) by simp
  have sub: "add_mset x a \<subseteq># b \<Longrightarrow> a \<subseteq># b" for x and a b :: "nat multiset"
    by (metis mset_subset_eq_add_right add_mset_add_single subset_mset.order_trans mset_subset_eq_add_left)
  show ?thesis using assms(1) l
    by (cases "stopping (client s)")
      (auto simp: client_inv_def releaseSlot_def simp del: size_mset intro: sub)
qed

lemma leases_woken: "leases (map woken ts) = leases ts"
proof -
  have "holding (woken t) = holding t" for t by (cases t) simp_all
  then show ?thesis by (simp add: leases_def comp_def)
qed

lemma client_inv_wake:
  assumes "wake_one s s'" "client_inv s"
  shows "client_inv s'"
  using assms
proof (induction rule: wake_one.induct)
  case (wake_caller k s argv)
  show ?case by (rule client_inv_cong [OF wake_caller.prems]) (use wake_caller in \<open>simp_all add: leases_same\<close>)
next
  case (wake_destructor s)
  then show ?case by (simp add: client_inv_def)
qed

lemma client_step_inv:
  assumes "client_step call s s'" "client_inv s"
  shows "client_inv s'"
  using assms
proof (induction rule: client_step.induct)
  case (enter i s argv)
  show ?case by (rule client_inv_cong [OF enter.prems]) (use enter in \<open>simp_all add: leases_same\<close>)
next
  case (refused i s argv c)
  have "c = client s" using refused(3) by (auto simp: take_slot_def split: if_splits)
  then show ?case by (intro client_inv_cong [OF refused.prems]) (use refused in \<open>simp_all add: leases_same\<close>)
next
  case (wait i s argv)
  show ?case by (rule client_inv_cong [OF wait.prems]) (use wait in \<open>simp_all add: leases_same\<close>)
next
  case (connect i s j argv net ctx c)
  show ?case
    by (rule client_inv_cong [OF connect.prems])
      (use connect ensureConnected_frame [OF connect(3)] in \<open>simp_all add: leases_same\<close>)
next
  case (execute i s j argv f reply c ks broken)
  show ?case
    by (rule client_inv_cong [OF execute.prems])
      (use execute in \<open>auto simp: leases_same redisCommandArgv_def closeSlot_def Let_def split: prod.splits\<close>)
next
  case (signal i s reply s')
  have "client_inv (s\<lparr>callers := (callers s)[i := Returned reply]\<rparr>)"
    by (rule client_inv_cong [OF signal.prems]) (use signal in \<open>simp_all add: leases_same\<close>)
  then show ?case by (rule client_inv_wake [OF signal(3)])
next
  case (return i s reply)
  show ?case by (rule client_inv_cong [OF return.prems]) (use return in \<open>simp_all add: leases_same\<close>)
next
  case (destroy s)
  show ?case
    by (rule client_inv_cong [OF destroy.prems]) (simp_all add: leases_woken begin_destruction_def)
next
  case (destroy_again s)
  then show ?case by (simp add: client_inv_def)
qed (auto intro: client_inv_acquire client_inv_release client_inv_wake)

lemma init_available: "map (\<lambda>i. n - i - 1) [0..<n] = rev [0..<n]"
  by (rule nth_equalityI) (simp_all add: rev_nth)

lemma client_inv_init: "client_inv (client_init pool_size n)"
proof -
  let ?n = "if pool_size = 0 then 1 else pool_size"
  have "available (client (client_init pool_size n)) = rev [0..<?n]"
    using init_available [of ?n] by (simp add: client_init_def new_RedisClient_def Let_def)
  then have "mset (available (client (client_init pool_size n))) = mset [0..<?n]" by (simp only: mset_rev)
  then show ?thesis by (simp add: client_inv_def client_init_def new_RedisClient_def Let_def leases_def)
qed

lemma client_inv_run: "(client_step call)\<^sup>*\<^sup>* (client_init pool_size n) s \<Longrightarrow> client_inv s"
  by (induction rule: rtranclp_induct) (auto intro: client_inv_init client_step_inv)

lemma wake_one_client: "wake_one s s' \<Longrightarrow> client s' = client s"
  by (induction rule: wake_one.induct) simp_all

lemma client_step_size:
  "client_step call s s' \<Longrightarrow> length (slots (client s')) = length (slots (client s))"
  by (induction rule: client_step.induct)
    (auto simp: take_slot_def redisCommandArgv_def closeSlot_def releaseSlot_def begin_destruction_def Let_def
      split: prod.splits if_splits dest: ensureConnected_frame wake_one_client)

lemma client_run_size:
  "(client_step call)\<^sup>*\<^sup>* s s' \<Longrightarrow> length (slots (client s')) = length (slots (client s))"
  by (induction rule: rtranclp_induct) (auto dest: client_step_size)

lemma distinct_of_mset: "mset xs \<subseteq># mset ys \<Longrightarrow> distinct ys \<Longrightarrow> distinct xs"
proof -
  assume sub: "mset xs \<subseteq># mset ys" and ys: "distinct ys"
  have "count (mset xs) a = (if a \<in> set xs then 1 else 0)" for a
    using mset_subset_eq_count [OF sub, of a] ys
    by (auto simp: distinct_count_atmost_1 not_in_iff [symmetric] Suc_le_eq le_Suc_eq split: if_splits)
  then show ?thesis by (simp add: distinct_count_atmost_1)
qed

section \<open>Properties of the pool\<close>

text \<open>
  No wake-up is lost.  A free slot that waiting threads could use has a thread on its way to it, or a notification that is
  still to come; a destructor that waits has borrowed slots to wait for, or a notification to come.
\<close>

definition coming :: "client_thread \<Rightarrow> nat" where
  "coming t = (case t of Entering _ \<Rightarrow> 1 | Signalling _ \<Rightarrow> 1 | _ \<Rightarrow> 0)"

definition on_the_way :: "client_thread list \<Rightarrow> nat" where
  "on_the_way ts = sum_list (map coming ts)"

definition some_blocked :: "client_thread list \<Rightarrow> bool" where
  "some_blocked ts \<longleftrightarrow> (\<exists>argv. Blocked argv \<in> set ts)"

definition some_signalling :: "client_thread list \<Rightarrow> bool" where
  "some_signalling ts \<longleftrightarrow> (\<exists>reply. Signalling reply \<in> set ts)"

definition cv_inv :: "client_state \<Rightarrow> bool" where
  "cv_inv s \<longleftrightarrow>
     (some_blocked (callers s) \<longrightarrow> \<not> stopping (client s) \<and> length (available (client s)) \<le> on_the_way (callers s)) \<and>
     (destructor s \<noteq> Alive \<longleftrightarrow> stopping (client s)) \<and>
     (destructor s = DtorBlocked \<longrightarrow> borrowed (client s) > 0 \<or> some_signalling (callers s))"

lemma on_the_way_update:
  assumes "i < length ts"
  shows "on_the_way (ts[i := t]) + coming (ts ! i) = on_the_way ts + coming t"
proof -
  have "on_the_way ts = on_the_way (take i ts @ ts ! i # drop (Suc i) ts)"
    by (rule arg_cong [OF id_take_nth_drop [OF assms]])
  then show ?thesis using assms by (simp add: on_the_way_def upd_conv_take_nth_drop)
qed

text \<open>A step of one thread that is not signalling.\<close>

lemma cv_inv_thread:
  assumes inv: "cv_inv s" and i: "i < length (callers s)" and old: "\<forall>reply. callers s ! i \<noteq> Signalling reply"
    and room: "some_blocked (callers s) \<Longrightarrow> available c = [] \<or> length (available c) + coming (callers s ! i) \<le> length (available (client s)) + coming t"
    and blocks: "\<forall>argv. t = Blocked argv \<longrightarrow> \<not> stopping c \<and> available c = []"
    and c: "stopping c = stopping (client s)" "borrowed (client s) > 0 \<Longrightarrow> borrowed c > 0 \<or> (\<exists>reply. t = Signalling reply)"
  shows "cv_inv (s\<lparr>client := c, callers := (callers s)[i := t]\<rparr>)"
proof -
  have otw: "on_the_way ((callers s)[i := t]) + coming (callers s ! i) = on_the_way (callers s) + coming t"
    by (rule on_the_way_update [OF i])
  have "Blocked argv \<in> set (callers s) \<or> t = Blocked argv" if "Blocked argv \<in> set ((callers s)[i := t])" for argv
    using that set_update_subset_insert [of "callers s" i t] by auto
  then have "some_blocked ((callers s)[i := t]) \<longrightarrow> \<not> stopping c \<and> length (available c) \<le> on_the_way ((callers s)[i := t])"
    using inv room blocks otw c(1) unfolding cv_inv_def some_blocked_def by fastforce
  moreover have "some_signalling ((callers s)[i := t])" if sig: "some_signalling (callers s)"
  proof -
    obtain reply k where k: "k < length (callers s)" "callers s ! k = Signalling reply"
      using sig by (auto simp: some_signalling_def in_set_conv_nth)
    then have "k \<noteq> i" using old by auto
    then have "(callers s)[i := t] ! k = Signalling reply" using k(2) by simp
    then show ?thesis unfolding some_signalling_def using k(1) by (metis length_list_update nth_mem)
  qed
  moreover have "some_signalling ((callers s)[i := t])" if "t = Signalling reply" for reply
    using that i by (auto simp: some_signalling_def intro!: set_update_memI)
  ultimately show ?thesis using inv c by (auto simp: cv_inv_def)
qed

lemma not_blocked_update:
  "\<not> some_blocked ts \<Longrightarrow> \<forall>argv. t \<noteq> Blocked argv \<Longrightarrow> \<not> some_blocked (ts[i := t])"
  using set_update_subset_insert [of ts i t] by (auto simp: some_blocked_def)

text \<open>A wake-up makes up for one thread that leaves the way.\<close>

lemma cv_inv_wake:
  assumes "wake_one s s'" "some_blocked (callers s) \<longrightarrow> \<not> stopping (client s) \<and> length (available (client s)) \<le> on_the_way (callers s) + 1"
    "destructor s \<noteq> Alive \<longleftrightarrow> stopping (client s)"
  shows "cv_inv s'"
  using assms
proof (induction rule: wake_one.induct)
  case (wake_caller k s argv)
  have "some_blocked (callers s)" using nth_mem [OF wake_caller(1)] wake_caller(2) unfolding some_blocked_def by metis
  then have "\<not> stopping (client s)" "length (available (client s)) \<le> on_the_way (callers s) + 1" using wake_caller(3) by auto
  moreover have "on_the_way ((callers s)[k := Entering argv]) = on_the_way (callers s) + 1"
    using on_the_way_update [OF wake_caller(1), of "Entering argv"] wake_caller(2) by (simp add: coming_def)
  ultimately show ?case using wake_caller(4) by (simp add: cv_inv_def)
next
  case (wake_destructor s)
  then show ?case by (auto simp: cv_inv_def)
next
  case (wake_nobody s)
  then show ?case by (auto simp: cv_inv_def some_blocked_def)
qed

lemma cv_inv_destroy:
  assumes "cv_inv s"
  shows "cv_inv (s\<lparr>client := begin_destruction (client s), callers := map woken (callers s), destructor := destructor_check (client s)\<rparr>)"
proof -
  have "Blocked argv \<noteq> woken t" for t argv by (cases t) simp_all
  then have "\<not> some_blocked (map woken (callers s))" by (auto simp: some_blocked_def)
  then show ?thesis by (simp add: cv_inv_def begin_destruction_def destructor_check_def)
qed

lemma cv_inv_signal:
  assumes inv: "cv_inv s" and i: "i < length (callers s)" "callers s ! i = Signalling reply"
    and w: "wake_one (s\<lparr>callers := (callers s)[i := Returned reply]\<rparr>) s'"
  shows "cv_inv s'"
proof (rule cv_inv_wake [OF w])
  have "on_the_way (callers s) = on_the_way ((callers s)[i := Returned reply]) + 1"
    using on_the_way_update [OF i(1), of "Returned reply"] i(2) by (simp add: coming_def)
  then show "some_blocked (callers (s\<lparr>callers := (callers s)[i := Returned reply]\<rparr>)) \<longrightarrow>
      \<not> stopping (client (s\<lparr>callers := (callers s)[i := Returned reply]\<rparr>)) \<and>
      length (available (client (s\<lparr>callers := (callers s)[i := Returned reply]\<rparr>)))
        \<le> on_the_way (callers (s\<lparr>callers := (callers s)[i := Returned reply]\<rparr>)) + 1"
    using inv not_blocked_update [of "callers s" "Returned reply" i] by (auto simp: cv_inv_def)
qed (use inv in \<open>simp add: cv_inv_def\<close>)

lemma cv_inv_spurious: "wake_one s s' \<Longrightarrow> cv_inv s \<Longrightarrow> cv_inv s'"
  by (rule cv_inv_wake) (auto simp: cv_inv_def)

lemma cv_inv_step:
  assumes "client_step call s s'" "cv_inv s"
  shows "cv_inv s'"
  using assms
proof (induction rule: client_step.induct)
  case (enter i s argv)
  show ?case
    using cv_inv_thread [OF enter.prems enter(1), of "client s"] enter(2) by (simp add: coming_def)
next
  case (acquire i s argv j c)
  then show ?case
    by (intro cv_inv_thread) (auto simp: take_slot_def coming_def split: if_splits)
next
  case (refused i s argv c)
  then have "stopping (client s)" "c = client s" by (auto simp: take_slot_def split: if_splits)
  then have "\<not> some_blocked (callers s)" using refused.prems by (auto simp: cv_inv_def)
  then show ?case using refused \<open>c = client s\<close> by (intro cv_inv_thread) simp_all
next
  case (wait i s argv)
  then show ?case
    using cv_inv_thread [OF wait.prems wait(1), of "client s"] by (auto simp: take_slot_def coming_def split: if_splits)
next
  case (connect i s j argv net ctx c)
  then show ?case
    using ensureConnected_frame [OF connect(3)] by (intro cv_inv_thread) (auto simp: coming_def)
next
  case (execute i s j argv f reply c ks broken)
  let ?c = "if broken then closeSlot j c else c"
  have "available ?c = available (client s)" "stopping ?c = stopping (client s)" "borrowed ?c = borrowed (client s)"
    using execute(3) by (auto simp: redisCommandArgv_def closeSlot_def Let_def split: prod.splits)
  then have "cv_inv (s\<lparr>client := ?c, callers := (callers s)[i := Releasing j (if broken then None else reply)]\<rparr>)"
    using execute by (intro cv_inv_thread) (simp_all add: coming_def)
  then show ?case by (simp add: cv_inv_def)
next
  case (release i s j reply)
  then show ?case by (intro cv_inv_thread) (auto simp: releaseSlot_def coming_def)
next
  case (return i s reply)
  then show ?case
    using cv_inv_thread [OF return.prems return(1), of "client s"] by (simp add: coming_def)
next
  case (destroy_again s)
  then show ?case by (auto simp: cv_inv_def destructor_check_def)
qed (auto intro: cv_inv_signal cv_inv_spurious cv_inv_destroy)

lemma cv_inv_run: "(client_step call)\<^sup>*\<^sup>* (client_init pool_size n) s \<Longrightarrow> cv_inv s"
proof (induction rule: rtranclp_induct)
  case base
  show ?case by (auto simp: cv_inv_def client_init_def new_RedisClient_def some_blocked_def)
qed (auto intro: cv_inv_step)

text \<open>
  C21: with any number of threads and any interleaving, no connection is leased to two threads at
  once and none is both free and leased; until the client is destroyed no slot is ever lost.  No wake-up is lost either: while a thread
  blocks on the condition variable, each free connection has a thread on its way to it, before the lock of \<^verbatim>\<open>acquire\<close> or
  before its \<^verbatim>\<open>notify_one\<close>, so that when no thread is on its way all connections are leased; nobody
  blocks once the client is being destroyed; and a destructor that blocks has borrowed connections to wait for or a notification to come.
\<close>

theorem redis_pool_safe:
  assumes "(client_step call)\<^sup>*\<^sup>* (client_init pool_size n) s"
  shows "distinct (available (client s) @ leases (callers s)) \<and>
    borrowed (client s) = length (leases (callers s)) \<and>
    (\<not> stopping (client s) \<longrightarrow>
       length (available (client s)) + length (leases (callers s)) = max 1 pool_size) \<and>
    (some_blocked (callers s) \<longrightarrow> \<not> stopping (client s) \<and> length (available (client s)) \<le> on_the_way (callers s) \<and>
       (on_the_way (callers s) = 0 \<longrightarrow> length (leases (callers s)) = max 1 pool_size)) \<and>
    (destructor s = DtorBlocked \<longrightarrow> leases (callers s) \<noteq> [] \<or> some_signalling (callers s))"
proof -
  have inv: "client_inv s" using assms by (rule client_inv_run)
  have cv: "cv_inv s" using assms by (rule cv_inv_run)
  have size: "length (slots (client s)) = max 1 pool_size"
    using client_run_size [OF assms] by (simp add: client_init_def new_RedisClient_def)
  let ?xs = "available (client s) @ leases (callers s)"
  have "mset ?xs \<subseteq># mset [0..<length (slots (client s))]"
    using inv by (simp add: client_inv_def)
  then have "distinct ?xs" by (rule distinct_of_mset) simp
  moreover have len: "length ?xs = max 1 pool_size" if "\<not> stopping (client s)"
  proof -
    have "mset ?xs = mset [0..<length (slots (client s))]" using inv that by (simp add: client_inv_def)
    then show ?thesis using size by (metis diff_zero length_upt mset_eq_length)
  qed
  moreover have "borrowed (client s) = length (leases (callers s))" using inv by (simp add: client_inv_def)
  ultimately show ?thesis using cv by (auto simp: cv_inv_def)
qed

text \<open>Two threads and one connection: the second blocks while the first is connecting.\<close>

theorem redis_pool_safe_witness:
  "\<exists>s :: client_state. (client_step redis_call)\<^sup>*\<^sup>* (client_init 0 2) s \<and>
     callers s = [Connecting 0 [Bytes ''GET''], Blocked [Bytes ''GET'']] \<and> length (leases (callers s)) = max 1 0"
proof -
  let ?g = "[Bytes ''GET'']" and ?step = "client_step redis_call"
  let ?s0 = "client_init 0 2" and ?c = "(new_RedisClient 0)\<lparr>available := [], borrowed := 1\<rparr>"
  let ?s1 = "?s0\<lparr>callers := [Entering ?g, Outside]\<rparr>" and ?s2 = "?s0\<lparr>callers := [Entering ?g, Entering ?g]\<rparr>"
  let ?s3 = "?s0\<lparr>client := ?c, callers := [Connecting 0 ?g, Entering ?g]\<rparr>"
  let ?s4 = "?s0\<lparr>client := ?c, callers := [Connecting 0 ?g, Blocked ?g]\<rparr>"
  have init: "callers ?s0 = [Outside, Outside]" "client ?s0 = new_RedisClient 0"
    by (simp_all add: client_init_def numeral_2_eq_2)
  have "?step ?s0 ?s1" using client_step.enter [of 0 ?s0 redis_call ?g] init by simp
  moreover have "?step ?s1 ?s2" using client_step.enter [of 1 ?s1 redis_call ?g] by simp
  moreover have "?step ?s2 ?s3"
    using client_step.acquire [of 0 ?s2 ?g 0 ?c redis_call] init by (simp add: new_RedisClient_def take_slot_def)
  moreover have "?step ?s3 ?s4" using client_step.wait [of 1 ?s3 ?g redis_call] by (simp add: new_RedisClient_def take_slot_def)
  ultimately have run: "?step\<^sup>*\<^sup>* ?s0 ?s4" by (meson rtranclp.rtrancl_into_rtrancl rtranclp.rtrancl_refl)
  have "some_blocked (callers ?s4)" "on_the_way (callers ?s4) = 0" by (simp_all add: some_blocked_def on_the_way_def coming_def)
  then have "length (leases (callers ?s4)) = max 1 0" using redis_pool_safe [OF run] by blast
  then show ?thesis using run by (intro exI [of _ ?s4]) simp
qed

text \<open>
  The destructor does not wait for the last \<^verbatim>\<open>notify_one\<close>: it can return while a thread that has given its slot back has still to use
  the condition variable.
\<close>

lemma notify_after_destruction:
  "\<exists>s. (client_step redis_call)\<^sup>*\<^sup>* (client_init 0 1) s \<and> destructor s = Destroyed \<and> some_signalling (callers s)"
proof -
  let ?g = "[Bytes ''GET'']" and ?step = "client_step redis_call" and ?s0 = "client_init 0 1"
  let ?c = "(new_RedisClient 0)\<lparr>available := [], borrowed := 1\<rparr>"
  let ?s1 = "?s0\<lparr>callers := [Entering ?g]\<rparr>" and ?s2 = "?s0\<lparr>client := ?c, callers := [Connecting 0 ?g]\<rparr>"
  let ?s3 = "?s0\<lparr>client := ?c, callers := [Releasing 0 None]\<rparr>"
  let ?s4 = "?s0\<lparr>client := releaseSlot 0 ?c, callers := [Signalling None]\<rparr>"
  let ?s5 = "?s4\<lparr>client := begin_destruction (client ?s4), callers := map woken (callers ?s4), destructor := destructor_check (client ?s4)\<rparr>"
  have init: "callers ?s0 = [Outside]" "client ?s0 = new_RedisClient 0" "destructor ?s0 = Alive" by (simp_all add: client_init_def)
  have "?step ?s0 ?s1" using client_step.enter [of 0 ?s0 redis_call ?g] init by simp
  moreover have "?step ?s1 ?s2"
    using client_step.acquire [of 0 ?s1 ?g 0 ?c redis_call] init by (simp add: new_RedisClient_def take_slot_def)
  moreover have "ensureConnected None 0 ?c = (None, ?c)"
    by (simp add: ensureConnected_def closeSlot_def ConnectRedis_def new_RedisClient_def)
  then have "?step ?s2 ?s3" using client_step.connect [of 0 ?s2 0 ?g None None ?c redis_call] by simp
  moreover have "?step ?s3 ?s4" using client_step.release [of 0 ?s3 0 None redis_call] by simp
  moreover have "?step ?s4 ?s5" by (rule client_step.destroy) (simp add: client_init_def)
  ultimately have run: "?step\<^sup>*\<^sup>* ?s0 ?s5" by (meson rtranclp.rtrancl_into_rtrancl rtranclp.rtrancl_refl)
  have "destructor ?s5 = Destroyed" by (simp add: destructor_check_def releaseSlot_def)
  then show ?thesis using run by (intro exI [of _ ?s5]) (simp add: some_signalling_def)
qed

lemma command_leased:
  assumes "take_slot c = Some (Some i, c1)" "ensureConnected connect i c1 = (ctx, c2)" "argv \<noteq> []"
  shows "command call connect f argv (c, ks) =
    (if ctx = None then Some (None, releaseSlot i c2, ks)
     else let (reply, c3, ks') = redisCommandArgv call f i argv (c2, ks) in
       if IsConnectionBroken (slots c3 ! i) reply then Some (None, releaseSlot i (closeSlot i c3), ks')
       else Some (reply, releaseSlot i c3, ks'))"
  using assms
  by (simp add: command_def acquire_def make_Lease_def lease_release_def lease_close_def Let_def split: prod.split)

lemma command_outcome:
  assumes "available c \<noteq> []" "\<not> stopping c" "last (available c) < length (slots c)" "argv \<noteq> []"
  shows "\<exists>reply c' ks'. command call connect f argv (c, ks) = Some (reply, c', ks') \<and>
    (reply = None \<and> (ks' = ks \<or> ks' = snd (serve call argv ks)) \<and>
       slots c' ! last (available c) = None \<or>
     reply = Some (fst (serve call argv ks)) \<and> ks' = snd (serve call argv ks) \<and>
       slots c' ! last (available c) = Some 0) \<and>
    available c' = available c \<and> borrowed c' = borrowed c \<and>
    (connect = Some 0 \<longrightarrow> executed f \<longrightarrow> answered f \<longrightarrow> err_after f = 0 \<longrightarrow> reply \<noteq> None)"
proof -
  let ?i = "last (available c)"
  let ?c1 = "c\<lparr>available := butlast (available c), borrowed := borrowed c + 1\<rparr>"
  have t: "take_slot c = Some (Some ?i, ?c1)" using assms(1,2) by (simp add: take_slot_def)
  obtain ctx c2 where e: "ensureConnected connect ?i ?c1 = (ctx, c2)" by force
  have ctx: "ctx = None \<or> ctx = Some 0" "slots c2 ! ?i = ctx" "connect = Some 0 \<longrightarrow> ctx \<noteq> None"
    using e assms(3)
    by (auto simp: ensureConnected_def ConnectRedis_def closeSlot_def Let_def simp del: not_None_eq
        split: if_splits option.splits)
  show ?thesis
    using command_leased [OF t e assms(4), of call f ks] ctx ensureConnected_frame [OF e] assms
    by (auto simp: redisCommandArgv_def IsConnectionBroken_def releaseSlot_def closeSlot_def Let_def
        split: prod.splits if_splits)
qed

text \<open>
  C22: a command that finds a free connection returns.  A reply means that the server executed
  the command exactly once and that this is its answer; no reply means that it executed it at most
  once.  The connection goes back to the pool, and one that failed is closed, so that the next
  command reconnects.  With a working network there is a reply.
\<close>

theorem redis_command_once:
  assumes "available c \<noteq> []" "\<not> stopping c" "last (available c) < length (slots c)" "argv \<noteq> []"
  shows "\<exists>reply c' ks'. command call connect f argv (c, ks) = Some (reply, c', ks') \<and>
    (reply = None \<and> (ks' = ks \<or> ks' = snd (serve call argv ks)) \<and>
       slots c' ! last (available c) = None \<or>
     reply = Some (fst (serve call argv ks)) \<and> ks' = snd (serve call argv ks) \<and>
       slots c' ! last (available c) = Some 0) \<and>
    available c' = available c \<and> borrowed c' = borrowed c \<and>
    (connect = Some 0 \<longrightarrow> executed f \<longrightarrow> answered f \<longrightarrow> err_after f = 0 \<longrightarrow> reply \<noteq> None)"
  using assms by (rule command_outcome)

theorem redis_command_once_witness:
  "\<exists>reply c' ks'. command redis_call (Some 0) \<lparr>executed = True, answered = True, err_after = 0\<rparr>
      (map Bytes [''SET'', ''k'', ''v'']) (new_RedisClient 2, Map.empty) = Some (reply, c', ks') \<and>
    reply = Some (ReplyStatus ''OK'') \<and> ks' = Map.empty(''k'' \<mapsto> RString ''v'') \<and> available c' = [1, 0]"
proof -
  have "serve redis_call (map Bytes [''SET'', ''k'', ''v'']) Map.empty =
      (ReplyStatus ''OK'', Map.empty(''k'' \<mapsto> RString ''v''))"
    unfolding serve_plain by (rule reference.SET)
  then show ?thesis
    using redis_command_once [of "new_RedisClient 2" "map Bytes [''SET'', ''k'', ''v'']" redis_call "Some 0"
        "\<lparr>executed = True, answered = True, err_after = 0\<rparr>" Map.empty]
    by (auto simp: new_RedisClient_def Let_def upt_rec)
qed

text \<open>
  The port the client connects to is a valid one whatever the environment holds, it is the
  number given there when that is a valid port, and otherwise the default.
\<close>

lemma redis_port_valid:
  "1 \<le> RedisPort env \<and> RedisPort env \<le> 65535 \<and>
   RedisPort (Some (dec n)) = (if 1 \<le> n \<and> n \<le> 65535 then int n else kDefaultRedisPort)"
proof -
  have "strtol (dec n) = (if n < 2 ^ 63 then int n else 2 ^ 63 - 1, [])"
    by (cases "n < 2 ^ 63") (simp_all add: strtol_dec, simp add: strtol_def min_def)
  then show ?thesis
    by (auto simp: RedisPort_def kDefaultRedisPort_def cast_int_small Let_def
        split: option.split prod.split)
qed

end
