(* ===== verification/User_State.thy ===== *)
theory User_State
  imports Prelude
begin

text \<open>
  \<^verbatim>\<open>server/src/UserStateService.cpp\<close>: which connection is logged in as which user.

  A \<^verbatim>\<open>TcpConnectionPtr\<close> is the 64-bit address of the connection, zero for an empty pointer.  Every
  public function holds the service's mutex from beginning to end, so each is one function on the
  two tables; \<^verbatim>\<open>nowMs()\<close> is an argument.  The contract a client of the service relies on is the
  locale \<open>session_table\<close>, interpreted at the end on the functions below.
\<close>

type_synonym TcpConnectionPtr = u64

datatype UserConnectionState = Connected | Authenticated

record UserState =
  us_uid :: u64
  us_conn :: TcpConnectionPtr
  us_state :: UserConnectionState
  us_last_active_ms :: u64

definition new_UserState :: UserState where
  "new_UserState = \<lparr>us_uid = 0, us_conn = 0, us_state = Connected, us_last_active_ms = 0\<rparr>"

record UserStateService =
  conn_states :: "TcpConnectionPtr \<rightharpoonup> UserState"
  uid_to_conn :: "u64 \<rightharpoonup> TcpConnectionPtr"

definition empty_UserStateService :: UserStateService where
  "empty_UserStateService = \<lparr>conn_states = Map.empty, uid_to_conn = Map.empty\<rparr>"

text \<open>\<^verbatim>\<open>operator[]\<close> of an \<^verbatim>\<open>unordered_map\<close>: the entry, default constructed when missing.\<close>

definition conn_entry :: "UserStateService \<Rightarrow> TcpConnectionPtr \<Rightarrow> UserState" where
  "conn_entry s conn = (case conn_states s conn of None \<Rightarrow> new_UserState | Some st \<Rightarrow> st)"

definition addConnection :: "u64 \<Rightarrow> TcpConnectionPtr \<Rightarrow> UserStateService \<Rightarrow> UserStateService" where
  "addConnection now conn s =
     (if conn = 0 then s
      else s\<lparr>conn_states := (conn_states s)
        (conn \<mapsto> (conn_entry s conn)\<lparr>us_conn := conn, us_last_active_ms := now\<rparr>)\<rparr>)"

text \<open>Erasing \<open>uid\<close> from the online index when it still points to \<open>conn\<close>.\<close>

definition erase_online :: "u64 \<Rightarrow> TcpConnectionPtr \<Rightarrow> UserStateService \<Rightarrow> UserStateService" where
  "erase_online uid conn s =
     (if uid \<noteq> 0 \<and> uid_to_conn s uid = Some conn
      then s\<lparr>uid_to_conn := (uid_to_conn s)(uid := None)\<rparr> else s)"

definition removeConnection :: "TcpConnectionPtr \<Rightarrow> UserStateService \<Rightarrow> UserStateService" where
  "removeConnection conn s =
     (if conn = 0 then s
      else case conn_states s conn of
        None \<Rightarrow> s
      | Some st \<Rightarrow>
          let s1 = erase_online (us_uid st) conn s
          in s1\<lparr>conn_states := (conn_states s1)(conn := None)\<rparr>)"

text \<open>A user's previous connection, when another one logs in, goes back to \<open>Connected\<close>.\<close>

definition demote :: "TcpConnectionPtr \<Rightarrow> UserStateService \<Rightarrow> UserStateService" where
  "demote old s = (case conn_states s old of
      None \<Rightarrow> s
    | Some st \<Rightarrow> s\<lparr>conn_states := (conn_states s)
        (old \<mapsto> st\<lparr>us_uid := 0, us_state := Connected\<rparr>)\<rparr>)"

definition bindUser ::
    "u64 \<Rightarrow> TcpConnectionPtr \<Rightarrow> u64 \<Rightarrow> UserStateService \<Rightarrow> bool \<times> UserStateService" where
  "bindUser now conn uid s =
     (if conn = 0 \<or> uid = 0 then (False, s)
      else
        let st = (conn_entry s conn)\<lparr>us_conn := conn\<rparr>;
            s1 = erase_online (us_uid st) conn (s\<lparr>conn_states := (conn_states s)(conn \<mapsto> st)\<rparr>);
            s2 = (case uid_to_conn s1 uid of
                    None \<Rightarrow> s1
                  | Some old \<Rightarrow> if old \<noteq> conn then demote old s1 else s1)
        in (True, s2\<lparr>
             conn_states := (conn_states s2)(conn \<mapsto>
               st\<lparr>us_uid := uid, us_state := Authenticated, us_last_active_ms := now\<rparr>),
             uid_to_conn := (uid_to_conn s2)(uid \<mapsto> conn)\<rparr>))"

definition getUidByConn :: "UserStateService \<Rightarrow> TcpConnectionPtr \<Rightarrow> u64" where
  "getUidByConn s conn =
     (if conn = 0 then 0
      else case conn_states s conn of
        None \<Rightarrow> 0
      | Some st \<Rightarrow> if us_state st \<noteq> Authenticated then 0 else us_uid st)"

definition getConnByUid :: "UserStateService \<Rightarrow> u64 \<Rightarrow> TcpConnectionPtr" where
  "getConnByUid s uid = (case uid_to_conn s uid of None \<Rightarrow> 0 | Some conn \<Rightarrow> conn)"

definition isAuthenticated :: "UserStateService \<Rightarrow> TcpConnectionPtr \<Rightarrow> bool" where
  "isAuthenticated s conn \<longleftrightarrow> getUidByConn s conn \<noteq> 0"

definition getState :: "UserStateService \<Rightarrow> TcpConnectionPtr \<Rightarrow> UserConnectionState" where
  "getState s conn =
     (if conn = 0 then Connected
      else case conn_states s conn of None \<Rightarrow> Connected | Some st \<Rightarrow> us_state st)"

definition updateHeartbeat :: "u64 \<Rightarrow> TcpConnectionPtr \<Rightarrow> UserStateService \<Rightarrow> UserStateService" where
  "updateHeartbeat now conn s =
     (if conn = 0 then s
      else case conn_states s conn of
        None \<Rightarrow> s
      | Some st \<Rightarrow> s\<lparr>conn_states := (conn_states s)(conn \<mapsto> st\<lparr>us_last_active_ms := now\<rparr>)\<rparr>)"

lemmas user_defs = addConnection_def removeConnection_def bindUser_def updateHeartbeat_def
  erase_online_def demote_def conn_entry_def

section \<open>The invariant of the two tables\<close>

text \<open>The abstract view: the user each connection is bound to, zero for none.\<close>

definition session :: "UserStateService \<Rightarrow> TcpConnectionPtr \<Rightarrow> u64" where
  "session s c = (case conn_states s c of None \<Rightarrow> 0 | Some st \<Rightarrow> us_uid st)"

text \<open>
  Every entry holds its own connection and is authenticated exactly when it has a user; the online
  index holds exactly the bound connections under their users.
\<close>

definition entry_ok :: "TcpConnectionPtr \<Rightarrow> UserState \<Rightarrow> bool" where
  "entry_ok c st \<longleftrightarrow> c \<noteq> 0 \<and> us_conn st = c \<and> (us_state st = Authenticated \<longleftrightarrow> us_uid st \<noteq> 0)"

definition user_inv :: "UserStateService \<Rightarrow> bool" where
  "user_inv s \<longleftrightarrow>
     (\<forall>c st. conn_states s c = Some st \<longrightarrow> entry_ok c st) \<and>
     (\<forall>u c. uid_to_conn s u = Some c \<longleftrightarrow> u \<noteq> 0 \<and> session s c = u)"

lemma user_inv_entry: "user_inv s \<Longrightarrow> conn_states s c = Some st \<Longrightarrow> entry_ok c st"
  by (simp add: user_inv_def)

lemma user_inv_online: "user_inv s \<Longrightarrow> uid_to_conn s u = Some c \<longleftrightarrow> u \<noteq> 0 \<and> session s c = u"
  by (simp add: user_inv_def)

lemma session_unique:
  "user_inv s \<Longrightarrow> session s c = session s c' \<Longrightarrow> session s c \<noteq> 0 \<Longrightarrow> c = c'"
  by (metis option.inject user_inv_online)

lemma session_nonzero: "user_inv s \<Longrightarrow> session s c \<noteq> 0 \<Longrightarrow> c \<noteq> 0"
  by (auto simp: session_def entry_ok_def dest: user_inv_entry split: option.splits)

subsection \<open>What each operation does to the tables\<close>

lemma session_add [simp]: "session (addConnection now conn s) c = session s c"
  by (simp add: user_defs session_def new_UserState_def split: option.splits)

lemma session_heartbeat [simp]: "session (updateHeartbeat now conn s) c = session s c"
  by (simp add: user_defs session_def split: option.splits)

lemma session_erase_online [simp]: "session (erase_online u c s) = session s"
  by (auto simp: user_defs session_def)

lemma online_add [simp]: "uid_to_conn (addConnection now conn s) = uid_to_conn s"
  by (simp add: addConnection_def)

lemma online_heartbeat [simp]: "uid_to_conn (updateHeartbeat now conn s) = uid_to_conn s"
  by (simp add: updateHeartbeat_def split: option.splits)

lemma session_remove:
  "user_inv s \<Longrightarrow> session (removeConnection conn s) c = (if c = conn then 0 else session s c)"
  by (auto simp: removeConnection_def erase_online_def session_def Let_def entry_ok_def
      dest: user_inv_entry split: option.splits)

lemma online_remove:
  assumes "user_inv s"
  shows "uid_to_conn (removeConnection conn s) u =
    (if uid_to_conn s u = Some conn then None else uid_to_conn s u)"
  using assms user_inv_online [OF assms, of u conn] user_inv_online [OF assms, of "session s conn" conn]
  by (auto simp: removeConnection_def erase_online_def session_def Let_def entry_ok_def
      dest: user_inv_entry split: option.splits)

lemma online_demote [simp]: "uid_to_conn (demote c s) = uid_to_conn s"
  by (simp add: demote_def split: option.splits)

lemma conn_entry_uid [simp]: "us_uid (conn_entry s c) = session s c"
  by (simp add: conn_entry_def session_def new_UserState_def split: option.splits)

lemma fst_bind: "fst (bindUser now conn uid s) \<longleftrightarrow> conn \<noteq> 0 \<and> uid \<noteq> 0"
  by (simp add: bindUser_def Let_def)

lemma bind_invalid: "conn = 0 \<or> uid = 0 \<Longrightarrow> snd (bindUser now conn uid s) = s"
  by (auto simp: bindUser_def)

lemma bind_online:
  assumes "user_inv s" "conn \<noteq> 0" "uid \<noteq> 0"
  shows "uid_to_conn (snd (bindUser now conn uid s)) u =
    (if u = uid then Some conn else if uid_to_conn s u = Some conn then None else uid_to_conn s u)"
proof -
  have "uid_to_conn (snd (bindUser now conn uid s)) =
      (uid_to_conn (erase_online (session s conn) conn s))(uid \<mapsto> conn)"
    using assms(2,3) by (auto simp: bindUser_def Let_def erase_online_def split: option.split)
  moreover have "uid_to_conn (erase_online (session s conn) conn s) u =
      (if uid_to_conn s u = Some conn then None else uid_to_conn s u)"
  proof (cases "uid_to_conn s u = Some conn")
    case True
    then have "u \<noteq> 0" "session s conn = u" using user_inv_online [OF assms(1)] by blast+
    with True show ?thesis by (simp add: erase_online_def)
  qed (auto simp: erase_online_def)
  ultimately show ?thesis by (simp only: fun_upd_apply)
qed

lemma bind_states:
  assumes "user_inv s" "conn \<noteq> 0" "uid \<noteq> 0"
  shows "conn_states (snd (bindUser now conn uid s)) c =
    (if c = conn then Some \<lparr>us_uid = uid, us_conn = conn, us_state = Authenticated,
       us_last_active_ms = now\<rparr>
     else if session s c = uid
       then map_option (\<lambda>st. st\<lparr>us_uid := 0, us_state := Connected\<rparr>) (conn_states s c)
       else conn_states s c)"
proof -
  show ?thesis
  proof (cases "uid_to_conn s uid")
    case None
    then have "session s c \<noteq> uid" using assms(3) user_inv_online [OF assms(1), of uid c] by auto
    with None assms show ?thesis
      by (simp add: bindUser_def Let_def erase_online_def demote_def split: option.splits)
  next
    case (Some old)
    then have old: "session s c = uid \<longleftrightarrow> c = old"
      using assms user_inv_online [OF assms(1)] by (metis option.inject)
    show ?thesis
      using assms Some old
      by (auto simp: bindUser_def Let_def erase_online_def demote_def session_def conn_entry_def
          split: option.splits)
  qed
qed

lemma bind_session:
  assumes "user_inv s" "conn \<noteq> 0" "uid \<noteq> 0"
  shows "session (snd (bindUser now conn uid s)) c =
    (if c = conn then uid else if session s c = uid then 0 else session s c)"
  by (auto simp: session_def [of "snd _"] bind_states [OF assms] session_def split: option.splits)

subsection \<open>Preservation\<close>

lemma user_inv_empty: "user_inv empty_UserStateService"
  by (simp add: user_inv_def empty_UserStateService_def session_def)

lemma user_inv_add: "user_inv s \<Longrightarrow> user_inv (addConnection now conn s)"
  unfolding user_inv_def session_add online_add
  by (auto simp: addConnection_def conn_entry_def new_UserState_def entry_ok_def split: option.splits)

lemma user_inv_heartbeat: "user_inv s \<Longrightarrow> user_inv (updateHeartbeat now conn s)"
  unfolding user_inv_def session_heartbeat online_heartbeat
  by (auto simp: updateHeartbeat_def entry_ok_def split: option.splits)

lemma user_inv_remove: "user_inv s \<Longrightarrow> user_inv (removeConnection conn s)"
  unfolding user_inv_def [of "removeConnection conn s"]
  by (auto simp: session_remove online_remove user_inv_online dest: session_unique)
     (auto simp: removeConnection_def erase_online_def Let_def user_inv_entry split: option.splits if_splits)

lemma user_inv_bind: "user_inv s \<Longrightarrow> user_inv (snd (bindUser now conn uid s))"
proof (cases "conn = 0 \<or> uid = 0")
  case False
  assume inv: "user_inv s"
  with False have v: "conn \<noteq> 0" "uid \<noteq> 0" by auto
  show ?thesis
    unfolding user_inv_def [of "snd _"]
    by (auto simp: bind_session [OF inv v] bind_online [OF inv v] user_inv_online [OF inv]
        dest: session_unique [OF inv] session_unique [OF inv _ _, OF sym])
       (auto simp: bind_states [OF inv v] v entry_ok_def dest!: user_inv_entry [OF inv] split: if_splits)
qed (simp add: bind_invalid)

lemma getUidByConn_session: "user_inv s \<Longrightarrow> getUidByConn s c = session s c"
  using session_nonzero [of s c]
  by (auto simp: getUidByConn_def session_def entry_ok_def dest: user_inv_entry split: option.splits)

lemma getConnByUid_session:
  assumes "user_inv s" "c \<noteq> 0" "u \<noteq> 0"
  shows "getConnByUid s u = c \<longleftrightarrow> session s c = u"
  using assms user_inv_online [OF assms(1), of u c] session_nonzero [OF assms(1)]
  by (auto simp: getConnByUid_def split: option.splits)

section \<open>The contract of the service\<close>

text \<open>
  What the dispatcher relies on: binding, removing and heartbeats keep the invariant, the two
  lookups are inverse to each other, and each operation changes the bound users as stated.
\<close>

locale session_table =
  fixes invar :: "'s \<Rightarrow> bool"
    and bind :: "u64 \<Rightarrow> TcpConnectionPtr \<Rightarrow> u64 \<Rightarrow> 's \<Rightarrow> bool \<times> 's"
    and remove :: "TcpConnectionPtr \<Rightarrow> 's \<Rightarrow> 's"
    and beat :: "u64 \<Rightarrow> TcpConnectionPtr \<Rightarrow> 's \<Rightarrow> 's"
    and uid_of :: "'s \<Rightarrow> TcpConnectionPtr \<Rightarrow> u64"
    and conn_of :: "'s \<Rightarrow> u64 \<Rightarrow> TcpConnectionPtr"
  assumes invar_bind: "invar s \<Longrightarrow> invar (snd (bind now c u s))"
    and invar_remove: "invar s \<Longrightarrow> invar (remove c s)"
    and invar_beat: "invar s \<Longrightarrow> invar (beat now c s)"
    and lookup_inverse: "invar s \<Longrightarrow> c \<noteq> 0 \<Longrightarrow> u \<noteq> 0 \<Longrightarrow> conn_of s u = c \<longleftrightarrow> uid_of s c = u"
    and uid_of_null: "invar s \<Longrightarrow> uid_of s 0 = 0"
    and bind_valid: "fst (bind now c u s) \<longleftrightarrow> c \<noteq> 0 \<and> u \<noteq> 0"
    and uid_of_bind: "invar s \<Longrightarrow> c \<noteq> 0 \<Longrightarrow> u \<noteq> 0 \<Longrightarrow>
      uid_of (snd (bind now c u s)) c' =
        (if c' = c then u else if uid_of s c' = u then 0 else uid_of s c')"
    and uid_of_remove: "invar s \<Longrightarrow> uid_of (remove c s) c' = (if c' = c then 0 else uid_of s c')"
    and uid_of_beat: "invar s \<Longrightarrow> uid_of (beat now c s) c' = uid_of s c'"
begin

lemma one_connection_per_user:
  assumes "invar s" "uid_of s c = u" "uid_of s c' = u" "u \<noteq> 0"
  shows "c = c'"
proof -
  have "c \<noteq> 0" "c' \<noteq> 0" using assms uid_of_null by auto
  then show ?thesis using assms lookup_inverse by metis
qed

lemma conn_of_bind:
  assumes "invar s" "fst (bind now c u s)"
  shows "conn_of (snd (bind now c u s)) u = c"
proof -
  have "c \<noteq> 0" "u \<noteq> 0" using assms(2) bind_valid by auto
  then show ?thesis using assms(1) by (simp add: lookup_inverse invar_bind uid_of_bind)
qed

lemma offline_iff: "invar s \<Longrightarrow> u \<noteq> 0 \<Longrightarrow> conn_of s u = 0 \<longleftrightarrow> (\<forall>c. uid_of s c \<noteq> u)"
  by (metis lookup_inverse uid_of_null)

lemma conn_of_remove:
  assumes "invar s" "u \<noteq> 0"
  shows "conn_of (remove c s) u = (if conn_of s u = c then 0 else conn_of s u)"
proof (cases "conn_of s u = c")
  case True
  then have "\<forall>c'. uid_of (remove c s) c' \<noteq> u"
    using assms uid_of_remove uid_of_null lookup_inverse by metis
  then show ?thesis using True assms offline_iff invar_remove by simp
next
  case False
  show ?thesis
  proof (cases "conn_of s u = 0")
    case True
    then have "conn_of (remove c s) u = 0"
      using assms by (simp add: offline_iff invar_remove uid_of_remove)
    then show ?thesis using False True by simp
  next
    case online: False
    then have "uid_of s (conn_of s u) = u" using assms lookup_inverse by blast
    then have "uid_of (remove c s) (conn_of s u) = u" using False assms uid_of_remove by simp
    then have "conn_of (remove c s) u = conn_of s u"
      using online assms lookup_inverse invar_remove by blast
    then show ?thesis using False by simp
  qed
qed

end

interpretation users: session_table user_inv bindUser removeConnection updateHeartbeat
  getUidByConn getConnByUid
  by unfold_locales
    (simp_all add: user_inv_bind user_inv_remove user_inv_heartbeat getUidByConn_session
      getConnByUid_session fst_bind bind_session session_remove session_nonzero [of _ 0, simplified],
     auto dest: session_nonzero [of _ 0])

section \<open>Histories\<close>

text \<open>Any sequence of calls to the service, from the empty tables on.\<close>

datatype UserCall =
    AddConnection u64 TcpConnectionPtr
  | RemoveConnection TcpConnectionPtr
  | BindUser u64 TcpConnectionPtr u64
  | UpdateHeartbeat u64 TcpConnectionPtr

fun user_call :: "UserCall \<Rightarrow> UserStateService \<Rightarrow> UserStateService" where
  "user_call (AddConnection now c) s = addConnection now c s"
| "user_call (RemoveConnection c) s = removeConnection c s"
| "user_call (BindUser now c u) s = snd (bindUser now c u s)"
| "user_call (UpdateHeartbeat now c) s = updateHeartbeat now c s"

definition user_history :: "UserCall list \<Rightarrow> UserStateService" where
  "user_history calls = fold user_call calls empty_UserStateService"

lemma user_inv_call: "user_inv s \<Longrightarrow> user_inv (user_call x s)"
  by (cases x) (simp_all add: user_inv_add user_inv_remove user_inv_bind user_inv_heartbeat)

lemma user_inv_fold: "user_inv s \<Longrightarrow> user_inv (fold user_call calls s)"
  by (induction calls arbitrary: s) (simp_all add: user_inv_call)

lemma user_inv_history: "user_inv (user_history calls)"
  unfolding user_history_def by (intro user_inv_fold user_inv_empty)

text \<open>
  C14: after any history of calls, the online index and the connection table agree: the connection
  found for a user is the connection that is logged in as that user, and no user is logged in on
  two connections.
\<close>

theorem sessions_agree:
  assumes "s = user_history calls" "u \<noteq> 0"
  shows "(\<forall>c. c \<noteq> 0 \<longrightarrow> (getConnByUid s u = c \<longleftrightarrow> getUidByConn s c = u)) \<and>
    (\<forall>c c'. getUidByConn s c = u \<longrightarrow> getUidByConn s c' = u \<longrightarrow> c = c')"
proof -
  have inv: "user_inv s" using assms(1) user_inv_history by simp
  show ?thesis
    using users.lookup_inverse [OF inv _ assms(2)] users.one_connection_per_user [OF inv _ _ assms(2)]
    by blast
qed

theorem sessions_agree_witness:
  "let s = user_history [BindUser 5 100 1, BindUser 6 200 1] in
   (\<forall>c. c \<noteq> 0 \<longrightarrow> (getConnByUid s 1 = c \<longleftrightarrow> getUidByConn s c = 1)) \<and>
   (\<forall>c c'. getUidByConn s c = 1 \<longrightarrow> getUidByConn s c' = 1 \<longrightarrow> c = c') \<and>
   getUidByConn s 200 = 1 \<and> getUidByConn s 100 = 0"
proof -
  let ?s = "user_history [BindUser 5 100 1, BindUser 6 200 1]"
  have "getUidByConn ?s 200 = 1 \<and> getUidByConn ?s 100 = 0"
    by (simp add: user_history_def empty_UserStateService_def user_defs Let_def getUidByConn_def
        new_UserState_def)
  then show ?thesis using sessions_agree [OF refl, of 1 "[BindUser 5 100 1, BindUser 6 200 1]"]
    unfolding Let_def by simp
qed

text \<open>
  C31: a login with a valid connection and user succeeds; afterwards the user is reached at
  the new connection, the connection the user had before is logged out, and nobody else's session
  changes.  Binding a null connection or user zero fails and changes nothing.
\<close>

theorem login_takes_over:
  assumes "user_inv s" "bindUser now c u s = (ok, s')"
  shows "(ok \<longleftrightarrow> c \<noteq> 0 \<and> u \<noteq> 0) \<and> (\<not> ok \<longrightarrow> s' = s) \<and>
    (ok \<longrightarrow> getConnByUid s' u = c \<and> getUidByConn s' c = u \<and>
      (\<forall>c'. c' \<noteq> c \<longrightarrow> getUidByConn s' c' = (if getUidByConn s c' = u then 0 else getUidByConn s c')))"
  using assms users.bind_valid [of now c u s] users.conn_of_bind [OF assms(1), of now c u]
    users.uid_of_bind [OF assms(1), of c u now] bind_invalid [of c u now s]
  by auto

theorem login_takes_over_witness:
  "\<exists>s'. bindUser 6 200 1 (user_history [BindUser 5 100 1]) = (True, s') \<and>
     getConnByUid s' 1 = 200 \<and> getUidByConn s' 200 = 1 \<and> getUidByConn s' 100 = 0"
proof -
  let ?s = "user_history [BindUser 5 100 1]"
  obtain ok s' where b: "bindUser 6 200 1 ?s = (ok, s')" by force
  have "getUidByConn ?s 100 = 1"
    by (simp add: user_history_def empty_UserStateService_def user_defs Let_def getUidByConn_def
        new_UserState_def)
  then show ?thesis using login_takes_over [OF user_inv_history b] b by auto
qed

end
