(* ===== verification/Protocol.thy ===== *)
theory Protocol
  imports Prelude
begin

text \<open>
  The application protocol: the messages of \<^verbatim>\<open>common/protocol/Message.proto\<close>, the constructors of
  \<^verbatim>\<open>EnvelopeFactory.h\<close> and the printer of \<^verbatim>\<open>EnvelopeInspector.h\<close>.

  A protobuf message is a record of its fields, its \<^verbatim>\<open>oneof\<close> a datatype with one constructor per
  alternative and one for the unset case.  Proto3 enumerations are open: a value outside the
  declared ones is kept on the wire, and is \<open>Unrecognized\<close> here.  \<^verbatim>\<open>NowMs()\<close> is an argument of
  each constructor, one per reading of the clock.
\<close>

section \<open>Message.proto\<close>

datatype MessageType =
    UNKNOWN | LOGIN_REQ | LOGIN_RESP | CHAT_REQ | CHAT_PUSH | ACK | HEARTBEAT
  | Unrecognized int

record LoginRequest =
  login_uid :: u64

record LoginResponse =
  resp_ok :: bool
  resp_reason :: string

record ChatRequest =
  req_from_uid :: u64
  req_to_uid :: u64
  req_content :: string
  req_client_msg_id :: string

record ChatPush =
  push_msg_id :: u64
  push_from_uid :: u64
  push_to_uid :: u64
  push_content :: string
  push_server_timestamp_ms :: u64
  push_history :: bool

record Ack =
  ack_msg_id :: u64
  ack_seq :: u64
  ack_ok :: bool
  ack_reason :: string

record Heartbeat =
  heartbeat_uid :: u64

datatype Payload =
    PAYLOAD_NOT_SET
  | kLoginReq LoginRequest
  | kLoginResp LoginResponse
  | kChatReq ChatRequest
  | kChatPush ChatPush
  | kAck Ack
  | kHeartbeat Heartbeat

record Envelope =
  env_type :: MessageType
  env_seq :: u64
  env_timestamp_ms :: u64
  env_payload :: Payload

section \<open>EnvelopeFactory\<close>

definition CreateLoginRequest :: "u64 \<Rightarrow> u64 \<Rightarrow> u64 \<Rightarrow> Envelope" where
  "CreateLoginRequest now seq uid =
     \<lparr>env_type = LOGIN_REQ, env_seq = seq, env_timestamp_ms = now,
      env_payload = kLoginReq \<lparr>login_uid = uid\<rparr>\<rparr>"

definition CreateLoginResponse :: "u64 \<Rightarrow> u64 \<Rightarrow> bool \<Rightarrow> string \<Rightarrow> Envelope" where
  "CreateLoginResponse now seq ok reason =
     \<lparr>env_type = LOGIN_RESP, env_seq = seq, env_timestamp_ms = now,
      env_payload = kLoginResp \<lparr>resp_ok = ok, resp_reason = reason\<rparr>\<rparr>"

definition CreateChatRequest ::
    "u64 \<Rightarrow> u64 \<Rightarrow> u64 \<Rightarrow> u64 \<Rightarrow> string \<Rightarrow> string \<Rightarrow> Envelope" where
  "CreateChatRequest now seq from_uid to_uid content client_msg_id =
     \<lparr>env_type = CHAT_REQ, env_seq = seq, env_timestamp_ms = now,
      env_payload = kChatReq
        \<lparr>req_from_uid = from_uid, req_to_uid = to_uid, req_content = content,
         req_client_msg_id = client_msg_id\<rparr>\<rparr>"

text \<open>
  \<^verbatim>\<open>CreateChatPush\<close> reads the clock for the envelope and, when no server timestamp is given, a
  second time for the push itself.
\<close>

definition CreateChatPush ::
    "u64 \<Rightarrow> u64 \<Rightarrow> u64 \<Rightarrow> u64 \<Rightarrow> u64 \<Rightarrow> u64 \<Rightarrow> string \<Rightarrow> u64 \<Rightarrow> bool \<Rightarrow> Envelope" where
  "CreateChatPush now now' seq msg_id from_uid to_uid content server_timestamp_ms history =
     \<lparr>env_type = CHAT_PUSH, env_seq = seq, env_timestamp_ms = now,
      env_payload = kChatPush
        \<lparr>push_msg_id = msg_id, push_from_uid = from_uid, push_to_uid = to_uid,
         push_content = content,
         push_server_timestamp_ms = (if server_timestamp_ms = 0 then now' else server_timestamp_ms),
         push_history = history\<rparr>\<rparr>"

definition CreateAck :: "u64 \<Rightarrow> u64 \<Rightarrow> u64 \<Rightarrow> bool \<Rightarrow> string \<Rightarrow> Envelope" where
  "CreateAck now seq msg_id ok reason =
     \<lparr>env_type = ACK, env_seq = seq, env_timestamp_ms = now,
      env_payload = kAck \<lparr>ack_msg_id = msg_id, ack_seq = seq, ack_ok = ok, ack_reason = reason\<rparr>\<rparr>"

section \<open>EnvelopeInspector\<close>

definition MessageTypeToString :: "MessageType \<Rightarrow> string" where
  "MessageTypeToString t = (case t of
      UNKNOWN \<Rightarrow> ''UNKNOWN''
    | LOGIN_REQ \<Rightarrow> ''LOGIN_REQ''
    | LOGIN_RESP \<Rightarrow> ''LOGIN_RESP''
    | CHAT_REQ \<Rightarrow> ''CHAT_REQ''
    | CHAT_PUSH \<Rightarrow> ''CHAT_PUSH''
    | ACK \<Rightarrow> ''ACK''
    | HEARTBEAT \<Rightarrow> ''HEARTBEAT''
    | Unrecognized _ \<Rightarrow> ''UNRECOGNIZED'')"

definition bool_text :: "bool \<Rightarrow> string" where
  "bool_text b = (if b then ''true'' else ''false'')"

definition quoted :: "string \<Rightarrow> string" where
  "quoted s = CHR 0x22 # s @ [CHR 0x22]"

definition payload_text :: "Payload \<Rightarrow> string" where
  "payload_text p = (case p of
      kLoginReq m \<Rightarrow> '', login_req={uid='' @ to_string (login_uid m) @ ''}''
    | kLoginResp m \<Rightarrow> '', login_resp={ok='' @ bool_text (resp_ok m)
        @ '', reason='' @ quoted (resp_reason m) @ ''}''
    | kChatReq m \<Rightarrow> '', chat_req={from_uid='' @ to_string (req_from_uid m)
        @ '', to_uid='' @ to_string (req_to_uid m)
        @ '', content='' @ quoted (req_content m)
        @ '', client_msg_id='' @ quoted (req_client_msg_id m) @ ''}''
    | kChatPush m \<Rightarrow> '', chat_push={msg_id='' @ to_string (push_msg_id m)
        @ '', from_uid='' @ to_string (push_from_uid m)
        @ '', to_uid='' @ to_string (push_to_uid m)
        @ '', content='' @ quoted (push_content m)
        @ '', server_timestamp_ms='' @ to_string (push_server_timestamp_ms m)
        @ '', history='' @ bool_text (push_history m) @ ''}''
    | kAck m \<Rightarrow> '', ack={msg_id='' @ to_string (ack_msg_id m)
        @ '', seq='' @ to_string (ack_seq m)
        @ '', ok='' @ bool_text (ack_ok m)
        @ '', reason='' @ quoted (ack_reason m) @ ''}''
    | kHeartbeat m \<Rightarrow> '', heartbeat={uid='' @ to_string (heartbeat_uid m) @ ''}''
    | PAYLOAD_NOT_SET \<Rightarrow> '', payload=not_set'')"

definition ToString :: "Envelope \<Rightarrow> string" where
  "ToString e = ''Envelope{'' @ ''type='' @ MessageTypeToString (env_type e)
     @ '', seq='' @ to_string (env_seq e)
     @ '', timestamp_ms='' @ to_string (env_timestamp_ms e)
     @ payload_text (env_payload e) @ ''}''"

end
