(* ===== verification/Effects.thy ===== *)
theory Effects
  imports Redis_Client User_State Protocol
begin

text \<open>
  Server code as trees of its shared-state accesses.  A \<open>proc\<close> is what one thread executes: each node is
  one access that other threads see as a single step (a call into \<^verbatim>\<open>UserStateService\<close>, which holds
  its mutex throughout, a Redis command, an operation of a \<^verbatim>\<open>TcpConnection\<close>, a reading of the clock), and the
  code between two accesses is the function that gives the next node.  \<open>run\<close> executes a tree without
  interruption; \<open>proc_step\<close> executes its first access, so that trees can be interleaved.

  A Redis command is the \<^verbatim>\<open>command\<close> of \<open>Redis_Client\<close> seen from outside: it is executed and answered, or
  the reply is lost, or the request is lost.  The lemma \<open>command_link\<close> shows that these are all its outcomes.
\<close>

section \<open>Trees of accesses\<close>

datatype 'a proc =
    Return 'a
  | NowMs "u64 \<Rightarrow> 'a proc"
  | RedisCommand "cmd_arg list" "redisReply option \<Rightarrow> 'a proc"
  | Users_bindUser TcpConnectionPtr u64 "bool \<Rightarrow> 'a proc"
  | Users_removeConnection TcpConnectionPtr "'a proc"
  | Users_updateHeartbeat TcpConnectionPtr "'a proc"
  | Users_getUidByConn TcpConnectionPtr "u64 \<Rightarrow> 'a proc"
  | Users_getConnByUid u64 "TcpConnectionPtr \<Rightarrow> 'a proc"
  | Conn_connected TcpConnectionPtr "bool \<Rightarrow> 'a proc"
  | Conn_send TcpConnectionPtr string "'a proc"
  | Conn_shutdown TcpConnectionPtr "'a proc"

primrec bind :: "'a proc \<Rightarrow> ('a \<Rightarrow> 'b proc) \<Rightarrow> 'b proc" where
  "bind (Return x) f = f x"
| "bind (NowMs k) f = NowMs (\<lambda>t. bind (k t) f)"
| "bind (RedisCommand argv k) f = RedisCommand argv (\<lambda>r. bind (k r) f)"
| "bind (Users_bindUser c u k) f = Users_bindUser c u (\<lambda>ok. bind (k ok) f)"
| "bind (Users_removeConnection c k) f = Users_removeConnection c (bind k f)"
| "bind (Users_updateHeartbeat c k) f = Users_updateHeartbeat c (bind k f)"
| "bind (Users_getUidByConn c k) f = Users_getUidByConn c (\<lambda>u. bind (k u) f)"
| "bind (Users_getConnByUid u k) f = Users_getConnByUid u (\<lambda>c. bind (k c) f)"
| "bind (Conn_connected c k) f = Conn_connected c (\<lambda>b. bind (k b) f)"
| "bind (Conn_send c bytes k) f = Conn_send c bytes (bind k f)"
| "bind (Conn_shutdown c k) f = Conn_shutdown c (bind k f)"

text \<open>A loop over a list, for its effects, and one that collects what the body yields.\<close>

fun for_each :: "'a list \<Rightarrow> ('a \<Rightarrow> 'b proc) \<Rightarrow> unit proc" where
  "for_each [] body = Return ()"
| "for_each (x # xs) body = bind (body x) (\<lambda>_. for_each xs body)"

fun collect :: "'a list \<Rightarrow> ('a \<Rightarrow> 'b option proc) \<Rightarrow> 'b list proc" where
  "collect [] body = Return []"
| "collect (x # xs) body =
    bind (body x) (\<lambda>y. bind (collect xs body) (\<lambda>ys. Return (case y of None \<Rightarrow> ys | Some z \<Rightarrow> z # ys)))"

section \<open>The shared state\<close>

datatype link = Answered | ReplyLost | RequestLost

text \<open>
  \<open>clock\<close> and \<open>link\<close> are the readings of the system clock and the fates of the Redis commands, in the
  order in which they are used; \<open>outbox\<close> is what was passed to \<^verbatim>\<open>TcpConnection::send\<close>.
\<close>

record world =
  users :: UserStateService
  redis :: keyspace
  clock :: "nat \<Rightarrow> u64"
  ticks :: nat
  link_of :: "nat \<Rightarrow> link"
  requests :: nat
  up :: "TcpConnectionPtr \<Rightarrow> bool"
  outbox :: "(TcpConnectionPtr \<times> string) list"
  shut :: "TcpConnectionPtr list"

definition read_clock :: "world \<Rightarrow> u64 \<times> world" where
  "read_clock w = (clock w (ticks w), w\<lparr>ticks := Suc (ticks w)\<rparr>)"

definition redis_outcome ::
    "command_table \<Rightarrow> link \<Rightarrow> cmd_arg list \<Rightarrow> keyspace \<Rightarrow> redisReply option \<times> keyspace" where
  "redis_outcome call l argv ks = (case l of
     Answered \<Rightarrow> (Some (fst (serve call argv ks)), snd (serve call argv ks))
   | ReplyLost \<Rightarrow> (None, snd (serve call argv ks))
   | RequestLost \<Rightarrow> (None, ks))"

definition redis_request :: "command_table \<Rightarrow> cmd_arg list \<Rightarrow> world \<Rightarrow> redisReply option \<times> world" where
  "redis_request call argv w =
    (case redis_outcome call (link_of w (requests w)) argv (redis w) of
       (r, ks) \<Rightarrow> (r, w\<lparr>redis := ks, requests := Suc (requests w)\<rparr>))"

definition bind_user :: "TcpConnectionPtr \<Rightarrow> u64 \<Rightarrow> world \<Rightarrow> bool \<times> world" where
  "bind_user c u w = (case read_clock w of (now, w1) \<Rightarrow>
     (case bindUser now c u (users w1) of (ok, s) \<Rightarrow> (ok, w1\<lparr>users := s\<rparr>)))"

definition update_heartbeat :: "TcpConnectionPtr \<Rightarrow> world \<Rightarrow> world" where
  "update_heartbeat c w = (case read_clock w of (now, w1) \<Rightarrow>
     w1\<lparr>users := updateHeartbeat now c (users w1)\<rparr>)"

text \<open>The first access of a tree.\<close>

fun proc_step :: "command_table \<Rightarrow> 'a proc \<Rightarrow> world \<Rightarrow> ('a proc \<times> world) option" where
  "proc_step call (Return x) w = None"
| "proc_step call (NowMs k) w = (case read_clock w of (t, w') \<Rightarrow> Some (k t, w'))"
| "proc_step call (RedisCommand argv k) w = (case redis_request call argv w of (r, w') \<Rightarrow> Some (k r, w'))"
| "proc_step call (Users_bindUser c u k) w = (case bind_user c u w of (ok, w') \<Rightarrow> Some (k ok, w'))"
| "proc_step call (Users_removeConnection c k) w = Some (k, w\<lparr>users := removeConnection c (users w)\<rparr>)"
| "proc_step call (Users_updateHeartbeat c k) w = Some (k, update_heartbeat c w)"
| "proc_step call (Users_getUidByConn c k) w = Some (k (getUidByConn (users w) c), w)"
| "proc_step call (Users_getConnByUid u k) w = Some (k (getConnByUid (users w) u), w)"
| "proc_step call (Conn_connected c k) w = Some (k (up w c), w)"
| "proc_step call (Conn_send c bytes k) w = Some (k, w\<lparr>outbox := outbox w @ [(c, bytes)]\<rparr>)"
| "proc_step call (Conn_shutdown c k) w = Some (k, w\<lparr>shut := shut w @ [c]\<rparr>)"

primrec run :: "command_table \<Rightarrow> 'a proc \<Rightarrow> world \<Rightarrow> 'a \<times> world" where
  "run call (Return x) w = (x, w)"
| "run call (NowMs k) w = (case read_clock w of (t, w') \<Rightarrow> run call (k t) w')"
| "run call (RedisCommand argv k) w = (case redis_request call argv w of (r, w') \<Rightarrow> run call (k r) w')"
| "run call (Users_bindUser c u k) w = (case bind_user c u w of (ok, w') \<Rightarrow> run call (k ok) w')"
| "run call (Users_removeConnection c k) w = run call k (w\<lparr>users := removeConnection c (users w)\<rparr>)"
| "run call (Users_updateHeartbeat c k) w = run call k (update_heartbeat c w)"
| "run call (Users_getUidByConn c k) w = run call (k (getUidByConn (users w) c)) w"
| "run call (Users_getConnByUid u k) w = run call (k (getConnByUid (users w) u)) w"
| "run call (Conn_connected c k) w = run call (k (up w c)) w"
| "run call (Conn_send c bytes k) w = run call k (w\<lparr>outbox := outbox w @ [(c, bytes)]\<rparr>)"
| "run call (Conn_shutdown c k) w = run call k (w\<lparr>shut := shut w @ [c]\<rparr>)"

section \<open>Lemmas\<close>

lemma run_bind [simp]: "run call (bind p f) w = (case run call p w of (x, w') \<Rightarrow> run call (f x) w')"
  by (induction p arbitrary: w) (simp_all split: prod.split)

lemma run_proc_step: "proc_step call p w = Some (p', w') \<Longrightarrow> run call p w = run call p' w'"
  by (cases p) (auto split: prod.splits)

lemma proc_step_None: "proc_step call p w = None \<longleftrightarrow> (\<exists>x. p = Return x)"
  by (cases p) (auto split: prod.splits)

lemma redis_outcome_serve:
  "redis_outcome call l argv ks \<in>
    {(Some (fst (serve call argv ks)), snd (serve call argv ks)), (None, snd (serve call argv ks)), (None, ks)}"
  by (cases l) (simp_all add: redis_outcome_def)

text \<open>The client's \<^verbatim>\<open>command\<close> gives the store one of the outcomes of a link.\<close>

lemma command_link:
  assumes "available c \<noteq> []" "\<not> stopping c" "last (available c) < length (slots c)" "argv \<noteq> []"
  shows "\<exists>l reply c' ks'. command call connect f argv (c, ks) = Some (reply, c', ks') \<and>
    redis_outcome call l argv ks = (reply, ks')"
proof -
  have "redis_outcome call Answered argv ks = (Some (fst (serve call argv ks)), snd (serve call argv ks))"
    "redis_outcome call ReplyLost argv ks = (None, snd (serve call argv ks))"
    "redis_outcome call RequestLost argv ks = (None, ks)"
    by (simp_all add: redis_outcome_def)
  then show ?thesis using command_outcome [OF assms, of call connect f ks] by metis
qed

end
