(* ===== verification/Message_Store.thy ===== *)
theory Message_Store
  imports Effects
begin

text \<open>
  \<^verbatim>\<open>server/src/MessageStore.cpp\<close>: the message ledger in Redis.  First the keys, then the six Lua scripts
  that run inside the server, then the readers of Redis replies, then the operations of the class.
  The counters that \<^verbatim>\<open>getPendingMessages\<close> keeps for its log line are left out: nothing reads them.
\<close>

section \<open>Records\<close>

datatype MessageStatus = Pending | Delivered | Acked | Failed

record MessageRecord =
  msg_id :: u64
  from_uid :: u64
  to_uid :: u64
  content :: string
  client_msg_id :: string
  status :: MessageStatus
  created_at_ms :: u64
  delivered_at_ms :: u64
  acked_at_ms :: u64
  retry_count :: int

definition empty_MessageRecord :: MessageRecord where
  "empty_MessageRecord = \<lparr>msg_id = 0, from_uid = 0, to_uid = 0, content = [], client_msg_id = [],
     status = Pending, created_at_ms = 0, delivered_at_ms = 0, acked_at_ms = 0, retry_count = 0\<rparr>"

record CreateMessageResult =
  result_record :: MessageRecord
  result_created :: bool
  result_ok :: bool

definition empty_CreateMessageResult :: CreateMessageResult where
  "empty_CreateMessageResult = \<lparr>result_record = empty_MessageRecord, result_created = False, result_ok = False\<rparr>"

section \<open>Keys\<close>

definition MakeClientMsgKey :: "u64 \<Rightarrow> string \<Rightarrow> string" where
  "MakeClientMsgKey from client_id = to_string from @ '':'' @ client_id"

definition MakeMessageKey :: "u64 \<Rightarrow> string" where
  "MakeMessageKey i = ''rmd:msg:'' @ to_string i"

definition MakePendingKey :: "u64 \<Rightarrow> string" where
  "MakePendingKey uid = ''rmd:pending:'' @ to_string uid"

definition MakeRecentKey :: "u64 \<Rightarrow> string" where
  "MakeRecentKey uid = ''rmd:recent:'' @ to_string uid"

definition MakeIdempotencyKey :: "u64 \<Rightarrow> string \<Rightarrow> string" where
  "MakeIdempotencyKey from client_id = ''rmd:idem:'' @ MakeClientMsgKey from client_id"

definition kRedisMsgNextIdKey :: string where
  "kRedisMsgNextIdKey = ''rmd:msg:next_id''"

definition kRedisMsgKeyPrefix :: string where
  "kRedisMsgKeyPrefix = ''rmd:msg:''"

definition kRedisPendingKeyPrefix :: string where
  "kRedisPendingKeyPrefix = ''rmd:pending:''"

definition kRedisDeliveredTimeoutKey :: string where
  "kRedisDeliveredTimeoutKey = ''rmd:delivered_timeout''"

section \<open>Scripts\<close>

definition record_fields :: "string list" where
  "record_fields = [''msg_id'', ''from_uid'', ''to_uid'', ''content'', ''client_msg_id'', ''status'',
     ''created_at_ms'', ''delivered_at_ms'', ''acked_at_ms'', ''retry_count'']"

text \<open>The part of the create script that follows the idempotency check.\<close>

definition create_new :: lua_script where
  "create_new KEYS ARGV =
    RedisCall [LString ''INCR'', arg_at KEYS 1] (\<lambda>msg_id.
    lua_concat (arg_at ARGV 0) msg_id (\<lambda>msg_key.
    RedisCall [LString ''SET'', arg_at KEYS 0, msg_id] (\<lambda>_.
    RedisCall [LString ''HSET'', msg_key,
        LString ''msg_id'', msg_id,
        LString ''from_uid'', arg_at ARGV 1,
        LString ''to_uid'', arg_at ARGV 2,
        LString ''content'', arg_at ARGV 3,
        LString ''client_msg_id'', arg_at ARGV 4,
        LString ''status'', LString ''Pending'',
        LString ''created_at_ms'', arg_at ARGV 5,
        LString ''delivered_at_ms'', LString ''0'',
        LString ''acked_at_ms'', LString ''0'',
        LString ''retry_count'', LString ''0''] (\<lambda>_.
    RedisCall [LString ''ZADD'', arg_at KEYS 2, arg_at ARGV 5, msg_id] (\<lambda>_.
    RedisCall [LString ''ZADD'', arg_at KEYS 3, arg_at ARGV 5, msg_id] (\<lambda>_.
    RedisCall [LString ''ZADD'', arg_at KEYS 4, arg_at ARGV 5, msg_id] (\<lambda>_.
    (case lua_text msg_id of
       None \<Rightarrow> LuaError ''tostring''
     | Some id_text \<Rightarrow>
        LuaReturn (LTable [LString ''1'', LString id_text, arg_at ARGV 1, arg_at ARGV 2, arg_at ARGV 3,
          arg_at ARGV 4, LString ''Pending'', arg_at ARGV 5, LString ''0'', LString ''0'',
          LString ''0''])))))))))"

definition kCreateMessageScript :: lua_script where
  "kCreateMessageScript KEYS ARGV =
    RedisCall [LString ''GET'', arg_at KEYS 0] (\<lambda>msg_id.
    if lua_true msg_id then
      lua_concat (arg_at ARGV 0) msg_id (\<lambda>msg_key.
      RedisCall [LString ''EXISTS'', msg_key] (\<lambda>found.
      if found = LNumber 1 then
        RedisCall ([LString ''HMGET'', msg_key] @ map LString record_fields) (\<lambda>fields.
        (case fields of
           LTable fs \<Rightarrow> LuaReturn (LTable (LString ''0'' # fs))
         | _ \<Rightarrow> LuaError ''table expected''))
      else create_new KEYS ARGV))
    else create_new KEYS ARGV)"

definition kMarkDeliveredScript :: lua_script where
  "kMarkDeliveredScript KEYS ARGV =
    RedisCall [LString ''HGET'', arg_at KEYS 0, LString ''to_uid''] (\<lambda>to_uid.
    if \<not> lua_true to_uid then LuaReturn (LNumber 0)
    else
      RedisCall [LString ''HSET'', arg_at KEYS 0, LString ''status'', LString ''Delivered'',
        LString ''delivered_at_ms'', arg_at ARGV 1] (\<lambda>_.
      lua_concat (arg_at ARGV 2) to_uid (\<lambda>pending_key.
      RedisCall [LString ''ZREM'', pending_key, arg_at ARGV 0] (\<lambda>_.
      RedisCall [LString ''ZADD'', arg_at KEYS 1, arg_at ARGV 1, arg_at ARGV 0] (\<lambda>_.
      LuaReturn (LNumber 1))))))"

definition kMarkPendingScript :: lua_script where
  "kMarkPendingScript KEYS ARGV =
    RedisCall [LString ''HGET'', arg_at KEYS 0, LString ''to_uid''] (\<lambda>to_uid.
    if \<not> lua_true to_uid then LuaReturn (LNumber 0)
    else
      RedisCall [LString ''HGET'', arg_at KEYS 0, LString ''created_at_ms''] (\<lambda>v.
      let created_at_ms = lua_or v (arg_at ARGV 1) in
      RedisCall [LString ''HSET'', arg_at KEYS 0, LString ''status'', LString ''Pending''] (\<lambda>_.
      RedisCall [LString ''ZREM'', arg_at KEYS 1, arg_at ARGV 0] (\<lambda>_.
      lua_concat (arg_at ARGV 2) to_uid (\<lambda>pending_key.
      RedisCall [LString ''ZADD'', pending_key, created_at_ms, arg_at ARGV 0] (\<lambda>_.
      LuaReturn (LNumber 1)))))))"

definition kMarkAckedScript :: lua_script where
  "kMarkAckedScript KEYS ARGV =
    RedisCall [LString ''HGET'', arg_at KEYS 0, LString ''to_uid''] (\<lambda>to_uid.
    if \<not> lua_true to_uid then LuaReturn (LNumber 0)
    else if to_uid \<noteq> arg_at ARGV 1 then LuaReturn (LNumber 0)
    else
      RedisCall [LString ''HSET'', arg_at KEYS 0, LString ''status'', LString ''Acked'',
        LString ''acked_at_ms'', arg_at ARGV 2] (\<lambda>_.
      RedisCall [LString ''ZREM'', arg_at KEYS 1, arg_at ARGV 0] (\<lambda>_.
      lua_concat (arg_at ARGV 3) to_uid (\<lambda>pending_key.
      RedisCall [LString ''ZREM'', pending_key, arg_at ARGV 0] (\<lambda>_.
      LuaReturn (LNumber 1))))))"

definition kMarkFailedScript :: lua_script where
  "kMarkFailedScript KEYS ARGV =
    RedisCall [LString ''HGET'', arg_at KEYS 0, LString ''to_uid''] (\<lambda>to_uid.
    if \<not> lua_true to_uid then LuaReturn (LNumber 0)
    else
      RedisCall [LString ''HSET'', arg_at KEYS 0, LString ''status'', LString ''Failed''] (\<lambda>_.
      RedisCall [LString ''ZREM'', arg_at KEYS 1, arg_at ARGV 0] (\<lambda>_.
      lua_concat (arg_at ARGV 2) to_uid (\<lambda>pending_key.
      RedisCall [LString ''ZREM'', pending_key, arg_at ARGV 0] (\<lambda>_.
      LuaReturn (LNumber 1))))))"

definition kIncrementRetryScript :: lua_script where
  "kIncrementRetryScript KEYS ARGV =
    RedisCall [LString ''EXISTS'', arg_at KEYS 0] (\<lambda>found.
    if found = LNumber 0 then LuaReturn (LNumber 0)
    else
      RedisCall [LString ''HINCRBY'', arg_at KEYS 0, LString ''retry_count'', LNumber 1] (\<lambda>_.
      LuaReturn (LNumber 1)))"

section \<open>Reading replies\<close>

definition ReplyToString :: "redisReply option \<Rightarrow> string option" where
  "ReplyToString reply = (case reply of
     Some (ReplyString s) \<Rightarrow> Some s
   | Some (ReplyStatus s) \<Rightarrow> Some s
   | Some (ReplyInteger i) \<Rightarrow> Some (int_text i)
   | _ \<Rightarrow> None)"

definition ParseUint64 :: "redisReply option \<Rightarrow> u64 option" where
  "ParseUint64 reply = (case ReplyToString reply of
     None \<Rightarrow> None
   | Some text \<Rightarrow>
      if text = [] then None
      else let (value, end') = strtoull (c_str text) in
        if end' \<noteq> [] then None else Some value)"

definition ParseInt :: "redisReply option \<Rightarrow> int option" where
  "ParseInt reply = (case ReplyToString reply of
     None \<Rightarrow> None
   | Some text \<Rightarrow>
      if text = [] then None
      else let (value, end') = strtol (c_str text) in
        if end' \<noteq> [] then None else Some (cast_int value))"

definition ParseStatus :: "redisReply option \<Rightarrow> MessageStatus option" where
  "ParseStatus reply = (case ReplyToString reply of
     None \<Rightarrow> None
   | Some text \<Rightarrow>
      if text = ''Pending'' then Some Pending
      else if text = ''Delivered'' then Some Delivered
      else if text = ''Acked'' then Some Acked
      else if text = ''Failed'' then Some Failed
      else None)"

definition BuildRecordFromFields :: "redisReply option \<Rightarrow> nat \<Rightarrow> MessageRecord option" where
  "BuildRecordFromFields reply offset = (case reply of
     Some (ReplyArray es) \<Rightarrow>
      if length es < offset + 10 then None
      else let e = (\<lambda>i. Some (es ! (offset + i))) in
       (case ParseUint64 (e 0) of None \<Rightarrow> None | Some f0 \<Rightarrow>
       (case ParseUint64 (e 1) of None \<Rightarrow> None | Some f1 \<Rightarrow>
       (case ParseUint64 (e 2) of None \<Rightarrow> None | Some f2 \<Rightarrow>
       (case ReplyToString (e 3) of None \<Rightarrow> None | Some f3 \<Rightarrow>
       (case ReplyToString (e 4) of None \<Rightarrow> None | Some f4 \<Rightarrow>
       (case ParseStatus (e 5) of None \<Rightarrow> None | Some f5 \<Rightarrow>
       (case ParseUint64 (e 6) of None \<Rightarrow> None | Some f6 \<Rightarrow>
       (case ParseUint64 (e 7) of None \<Rightarrow> None | Some f7 \<Rightarrow>
       (case ParseUint64 (e 8) of None \<Rightarrow> None | Some f8 \<Rightarrow>
       (case ParseInt (e 9) of None \<Rightarrow> None | Some f9 \<Rightarrow>
         Some \<lparr>msg_id = f0, from_uid = f1, to_uid = f2, content = f3, client_msg_id = f4, status = f5,
           created_at_ms = f6, delivered_at_ms = f7, acked_at_ms = f8, retry_count = f9\<rparr>))))))))))
   | _ \<Rightarrow> None)"

definition BuildCreateResult :: "redisReply option \<Rightarrow> CreateMessageResult option" where
  "BuildCreateResult reply = (case reply of
     Some (ReplyArray es) \<Rightarrow>
      if length es \<noteq> 11 then None
      else (case ReplyToString (Some (es ! 0)) of
         None \<Rightarrow> None
       | Some flag \<Rightarrow>
          (case BuildRecordFromFields reply 1 of
             None \<Rightarrow> None
           | Some r \<Rightarrow> Some \<lparr>result_record = r, result_created = (flag = ''1''), result_ok = True\<rparr>))
   | _ \<Rightarrow> None)"

definition ReplyIsTrue :: "redisReply option \<Rightarrow> bool" where
  "ReplyIsTrue reply \<longleftrightarrow> reply = Some (ReplyInteger 1)"

section \<open>Operations\<close>

text \<open>The store's calls of \<^verbatim>\<open>RedisClient::command\<close> and \<^verbatim>\<open>RedisClient::eval\<close>.\<close>

definition client_command :: "string list \<Rightarrow> redisReply option proc" where
  "client_command cmd = RedisCommand (map Bytes cmd) Return"

definition client_eval :: "lua_script \<Rightarrow> string list \<Rightarrow> string list \<Rightarrow> redisReply option proc" where
  "client_eval script keys args = RedisCommand (eval_argv script keys args) Return"

definition FetchRecord :: "u64 \<Rightarrow> MessageRecord option proc" where
  "FetchRecord i =
    (if i = 0 then Return None
     else bind (client_command (''HMGET'' # MakeMessageKey i # record_fields)) (\<lambda>reply.
       Return (case reply of
         Some (ReplyArray es) \<Rightarrow> if length es \<noteq> 10 then None else BuildRecordFromFields reply 0
       | _ \<Rightarrow> None)))"

definition EvalCreateMessage ::
    "string \<Rightarrow> string \<Rightarrow> string \<Rightarrow> string \<Rightarrow> u64 \<Rightarrow> u64 \<Rightarrow> string \<Rightarrow> string \<Rightarrow> u64 \<Rightarrow> redisReply option proc"
where
  "EvalCreateMessage idem_key pending_key from_recent_key to_recent_key from to text client_id created_ms =
    client_eval kCreateMessageScript
      [idem_key, kRedisMsgNextIdKey, pending_key, from_recent_key, to_recent_key]
      [kRedisMsgKeyPrefix, to_string from, to_string to, text, client_id, to_string created_ms]"

definition EvalMsgStateScript :: "lua_script \<Rightarrow> u64 \<Rightarrow> u64 \<Rightarrow> redisReply option proc" where
  "EvalMsgStateScript script i timestamp_ms =
    client_eval script [MakeMessageKey i, kRedisDeliveredTimeoutKey]
      [to_string i, to_string timestamp_ms, kRedisPendingKeyPrefix]"

definition EvalMarkAckedScript :: "u64 \<Rightarrow> u64 \<Rightarrow> u64 \<Rightarrow> redisReply option proc" where
  "EvalMarkAckedScript i ack_uid timestamp_ms =
    client_eval kMarkAckedScript [MakeMessageKey i, kRedisDeliveredTimeoutKey]
      [to_string i, to_string ack_uid, to_string timestamp_ms, kRedisPendingKeyPrefix]"

definition createMessage :: "u64 \<Rightarrow> u64 \<Rightarrow> string \<Rightarrow> string \<Rightarrow> CreateMessageResult proc" where
  "createMessage from to text client_id =
    NowMs (\<lambda>now.
    bind (EvalCreateMessage (MakeIdempotencyKey from client_id) (MakePendingKey to) (MakeRecentKey from)
        (MakeRecentKey to) from to text client_id now) (\<lambda>reply.
    Return (case reply of
      None \<Rightarrow> empty_CreateMessageResult
    | Some (ReplyError _) \<Rightarrow> empty_CreateMessageResult
    | Some _ \<Rightarrow> (case BuildCreateResult reply of
        None \<Rightarrow> empty_CreateMessageResult
      | Some result \<Rightarrow> result))))"

definition markDelivered :: "u64 \<Rightarrow> bool proc" where
  "markDelivered i = NowMs (\<lambda>now. bind (EvalMsgStateScript kMarkDeliveredScript i now)
     (\<lambda>reply. Return (ReplyIsTrue reply)))"

definition markPending :: "u64 \<Rightarrow> bool proc" where
  "markPending i = NowMs (\<lambda>now. bind (EvalMsgStateScript kMarkPendingScript i now)
     (\<lambda>reply. Return (ReplyIsTrue reply)))"

definition markAcked :: "u64 \<Rightarrow> u64 \<Rightarrow> bool proc" where
  "markAcked i ack_uid = NowMs (\<lambda>now. bind (EvalMarkAckedScript i ack_uid now)
     (\<lambda>reply. Return (ReplyIsTrue reply)))"

definition markFailed :: "u64 \<Rightarrow> bool proc" where
  "markFailed i = NowMs (\<lambda>now. bind (EvalMsgStateScript kMarkFailedScript i now)
     (\<lambda>reply. Return (ReplyIsTrue reply)))"

definition getMessage :: "u64 \<Rightarrow> MessageRecord option proc" where
  "getMessage i = FetchRecord i"

definition incrementRetryCount :: "u64 \<Rightarrow> bool proc" where
  "incrementRetryCount i = bind (client_eval kIncrementRetryScript [MakeMessageKey i] [])
     (\<lambda>reply. Return (ReplyIsTrue reply))"

text \<open>
  The loop the three queries share: parse the member of the index, fetch its record, keep it when
  \<open>keep\<close> holds.
\<close>

definition fetch_indexed :: "(MessageRecord \<Rightarrow> bool) \<Rightarrow> redisReply \<Rightarrow> MessageRecord option proc" where
  "fetch_indexed keep e = (case ParseUint64 (Some e) of
     None \<Rightarrow> Return None
   | Some i \<Rightarrow> bind (FetchRecord i) (\<lambda>found. Return (case found of
        None \<Rightarrow> None
      | Some r \<Rightarrow> if keep r then Some r else None)))"

definition getPendingMessages :: "u64 \<Rightarrow> MessageRecord list proc" where
  "getPendingMessages uid =
    bind (client_command [''ZRANGE'', MakePendingKey uid, ''0'', ''-1'']) (\<lambda>reply.
    (case reply of
       Some (ReplyArray es) \<Rightarrow> collect es (fetch_indexed (\<lambda>r. to_uid r = uid \<and> status r = Pending))
     | _ \<Rightarrow> Return []))"

definition getRecentMessages :: "u64 \<Rightarrow> nat \<Rightarrow> MessageRecord list proc" where
  "getRecentMessages uid limit =
    (if uid = 0 \<or> limit = 0 then Return []
     else bind (client_command [''ZREVRANGE'', MakeRecentKey uid, ''0'', dec (limit - 1)]) (\<lambda>reply.
      (case reply of
         Some (ReplyArray es) \<Rightarrow>
           bind (collect es (fetch_indexed (\<lambda>r. from_uid r = uid \<or> to_uid r = uid))) (\<lambda>result.
           Return (rev result))
       | _ \<Rightarrow> Return [])))"

definition timed_out :: "u64 \<Rightarrow> u64 \<Rightarrow> MessageRecord \<Rightarrow> bool" where
  "timed_out now_ms timeout_ms r \<longleftrightarrow> status r = Delivered \<and> delivered_at_ms r > 0 \<and>
     now_ms \<ge> delivered_at_ms r \<and> now_ms - delivered_at_ms r \<ge> timeout_ms"

definition getTimeoutDeliveredMessages :: "u64 \<Rightarrow> u64 \<Rightarrow> MessageRecord list proc" where
  "getTimeoutDeliveredMessages now_ms timeout_ms =
    (let max_score = (if now_ms \<ge> timeout_ms then now_ms - timeout_ms else 0) in
     bind (client_command [''ZRANGEBYSCORE'', kRedisDeliveredTimeoutKey, ''0'', to_string max_score]) (\<lambda>reply.
      (case reply of
         Some (ReplyArray es) \<Rightarrow> collect es (fetch_indexed (timed_out now_ms timeout_ms))
       | _ \<Rightarrow> Return [])))"

end
