(* ===== verification/Ledger.thy ===== *)
theory Ledger
  imports Message_Store
begin

text \<open>
  The specification of the message store and the proof that the scripts and the C++ code of
  \<open>Message_Store\<close> implement it.  A \<open>ledger\<close> is what the store is about: the messages created so far, the
  last identifier given out, and which message answers which client message.  \<open>represents\<close> says when a
  Redis keyspace holds a ledger: the hashes and strings are those of the ledger, and each of the
  sorted sets holds exactly the messages that belong there by their status, so that the relation is
  also the coherence of the indexes.  Each operation of the store then corresponds to an operation of
  the ledger.
\<close>

section \<open>Keys\<close>

named_theorems key_simps \<open>equality of Redis keys\<close>

lemma split_at_colon:
  assumes "\<And>c. c \<in> set a \<Longrightarrow> is_digit c" "\<And>c. c \<in> set b \<Longrightarrow> is_digit c"
  shows "a @ CHR '':'' # x = b @ CHR '':'' # y \<longleftrightarrow> a = b \<and> x = y"
proof
  assume eq: "a @ CHR '':'' # x = b @ CHR '':'' # y"
  have "\<not> is_digit (CHR '':'')" using digit_not_special(4) by blast
  then have "a = b" using assms arg_cong [OF eq, of "takeWhile is_digit"] by simp
  then show "a = b \<and> x = y" using eq by simp
qed simp

lemma to_string_not_next_id: "to_string i \<noteq> ''next_id''"
proof
  assume "to_string i = ''next_id''"
  then have "CHR ''n'' \<in> set (to_string i)" by simp
  then show False using to_string_digits by (fastforce simp: is_digit_def)
qed

lemma key_inject [key_simps]:
  "MakeMessageKey i = MakeMessageKey j \<longleftrightarrow> i = j"
  "MakePendingKey u = MakePendingKey v \<longleftrightarrow> u = v"
  "MakeRecentKey u = MakeRecentKey v \<longleftrightarrow> u = v"
  by (simp_all add: MakeMessageKey_def MakePendingKey_def MakeRecentKey_def)

lemma MakeIdempotencyKey_inject [key_simps]:
  "MakeIdempotencyKey f m = MakeIdempotencyKey f' m' \<longleftrightarrow> f = f' \<and> m = m'"
  using split_at_colon [of "to_string f" "to_string f'" m m'] to_string_digits
  by (auto simp: MakeIdempotencyKey_def MakeClientMsgKey_def)

lemma key_disjoint [key_simps]:
  "MakeMessageKey i \<noteq> MakePendingKey u" "MakeMessageKey i \<noteq> MakeRecentKey u"
  "MakeMessageKey i \<noteq> MakeIdempotencyKey f m" "MakeMessageKey i \<noteq> kRedisDeliveredTimeoutKey"
  "MakeMessageKey i \<noteq> kRedisMsgNextIdKey"
  "MakePendingKey u \<noteq> MakeRecentKey v" "MakePendingKey u \<noteq> MakeIdempotencyKey f m"
  "MakePendingKey u \<noteq> kRedisDeliveredTimeoutKey" "MakePendingKey u \<noteq> kRedisMsgNextIdKey"
  "MakeRecentKey u \<noteq> MakeIdempotencyKey f m" "MakeRecentKey u \<noteq> kRedisDeliveredTimeoutKey"
  "MakeRecentKey u \<noteq> kRedisMsgNextIdKey"
  "MakeIdempotencyKey f m \<noteq> kRedisDeliveredTimeoutKey" "MakeIdempotencyKey f m \<noteq> kRedisMsgNextIdKey"
  "kRedisDeliveredTimeoutKey \<noteq> kRedisMsgNextIdKey"
  using to_string_not_next_id
  by (simp_all add: MakeMessageKey_def MakePendingKey_def MakeRecentKey_def MakeIdempotencyKey_def
      kRedisDeliveredTimeoutKey_def kRedisMsgNextIdKey_def)

lemmas key_disjoint' [key_simps] = key_disjoint [symmetric]

section \<open>Records as hashes\<close>

definition status_text :: "MessageStatus \<Rightarrow> string" where
  "status_text s = (case s of Pending \<Rightarrow> ''Pending'' | Delivered \<Rightarrow> ''Delivered'' | Acked \<Rightarrow> ''Acked''
     | Failed \<Rightarrow> ''Failed'')"

definition record_hash :: "MessageRecord \<Rightarrow> string \<Rightarrow> string option" where
  "record_hash r = map_of (zip record_fields
     [to_string (msg_id r), to_string (from_uid r), to_string (to_uid r), content r, client_msg_id r,
      status_text (status r), to_string (created_at_ms r), to_string (delivered_at_ms r),
      to_string (acked_at_ms r), dec (nat (retry_count r))])"

text \<open>What a reader makes of a stored record: a retry count beyond the range of \<^verbatim>\<open>int\<close> would wrap.\<close>

definition parsed :: "MessageRecord \<Rightarrow> MessageRecord" where
  "parsed r = r\<lparr>retry_count := cast_int (min (2 ^ 63 - 1) (int (nat (retry_count r))))\<rparr>"

lemma parsed_fields [simp]:
  "msg_id (parsed r) = msg_id r" "from_uid (parsed r) = from_uid r" "to_uid (parsed r) = to_uid r"
  "content (parsed r) = content r" "client_msg_id (parsed r) = client_msg_id r"
  "status (parsed r) = status r" "created_at_ms (parsed r) = created_at_ms r"
  "delivered_at_ms (parsed r) = delivered_at_ms r" "acked_at_ms (parsed r) = acked_at_ms r"
  by (simp_all add: parsed_def)

lemma parsed_small: "0 \<le> retry_count r \<Longrightarrow> retry_count r < 2 ^ 31 \<Longrightarrow> parsed r = r"
  by (simp add: parsed_def cast_int_small)

lemma ReplyToString_string [simp]: "ReplyToString (Some (ReplyString s)) = Some s"
  by (simp add: ReplyToString_def)

lemma ParseUint64_to_string [simp]: "ParseUint64 (Some (ReplyString (to_string v))) = Some v"
  by (simp add: ParseUint64_def)

lemma ParseStatus_status_text [simp]: "ParseStatus (Some (ReplyString (status_text s))) = Some s"
  by (cases s) (simp_all add: ParseStatus_def status_text_def)

lemma ParseInt_dec [simp]:
  "ParseInt (Some (ReplyString (dec n))) = Some (cast_int (min (2 ^ 63 - 1) (int n)))"
  by (simp add: ParseInt_def strtol_def)

definition record_reply :: "MessageRecord \<Rightarrow> redisReply list" where
  "record_reply r = map (\<lambda>f. bulk (record_hash r f)) record_fields"

lemma record_reply_eq:
  "record_reply r = map ReplyString
     [to_string (msg_id r), to_string (from_uid r), to_string (to_uid r), content r, client_msg_id r,
      status_text (status r), to_string (created_at_ms r), to_string (delivered_at_ms r),
      to_string (acked_at_ms r), dec (nat (retry_count r))]"
  by (simp add: record_reply_def record_hash_def record_fields_def)

lemma BuildRecordFromFields_reply:
  "BuildRecordFromFields (Some (ReplyArray (xs @ record_reply r))) (length xs) = Some (parsed r)"
  by (simp add: BuildRecordFromFields_def record_reply_eq nth_append parsed_def numeral_eq_Suc)

section \<open>Sorted sets as indexes\<close>

text \<open>A key holds the index \<open>S\<close> when its sorted set has exactly these (score, member) pairs.\<close>

definition index_at :: "keyspace \<Rightarrow> string \<Rightarrow> (nat \<times> string) set \<Rightarrow> bool" where
  "index_at ks k S \<longleftrightarrow> (\<exists>z. zset_at ks k = Some z \<and> zset_ok z \<and> set z = S)"

definition zadd_at :: "string \<Rightarrow> nat \<Rightarrow> string \<Rightarrow> keyspace \<Rightarrow> keyspace" where
  "zadd_at k s m ks = put_zset k (zadd s m (the (zset_at ks k))) ks"

definition zrem_at :: "string \<Rightarrow> string \<Rightarrow> keyspace \<Rightarrow> keyspace" where
  "zrem_at k m ks = put_zset k (zrem m (the (zset_at ks k))) ks"

definition hset_at :: "string \<Rightarrow> (string \<Rightarrow> string option) \<Rightarrow> keyspace \<Rightarrow> keyspace" where
  "hset_at k h ks = ks(k \<mapsto> RHash h)"

lemma index_at_other [simp]:
  "k' \<noteq> k \<Longrightarrow> index_at (zadd_at k s m ks) k' S = index_at ks k' S"
  "k' \<noteq> k \<Longrightarrow> index_at (zrem_at k m ks) k' S = index_at ks k' S"
  "k' \<noteq> k \<Longrightarrow> index_at (hset_at k h ks) k' S = index_at ks k' S"
  "k' \<noteq> k \<Longrightarrow> index_at (ks(k := v)) k' S = index_at ks k' S"
  by (simp_all add: index_at_def zadd_at_def zrem_at_def hset_at_def)

lemma key_other [simp]:
  "k' \<noteq> k \<Longrightarrow> zadd_at k s m ks k' = ks k'"
  "k' \<noteq> k \<Longrightarrow> zrem_at k m ks k' = ks k'"
  "k' \<noteq> k \<Longrightarrow> hset_at k h ks k' = ks k'"
  "hset_at k h ks k = Some (RHash h)"
  by (simp_all add: zadd_at_def zrem_at_def hset_at_def)

lemma index_at_zadd:
  "index_at ks k S \<Longrightarrow> index_at (zadd_at k s m ks) k (insert (s, m) {e \<in> S. snd e \<noteq> m})"
  by (auto simp: index_at_def zadd_at_def zset_ok_zadd)

lemma index_at_zrem: "index_at ks k S \<Longrightarrow> index_at (zrem_at k m ks) k {e \<in> S. snd e \<noteq> m}"
  by (auto simp: index_at_def zrem_at_def zset_ok_zrem)

lemma index_at_zadd_any:
  "index_at ks k' S \<Longrightarrow>
   index_at (zadd_at k s m ks) k' (if k' = k then insert (s, m) {e \<in> S. snd e \<noteq> m} else S)"
  by (cases "k' = k") (simp_all add: index_at_zadd)

text \<open>The commands on indexes and hashes, from the laws of the server.\<close>

context redis_server
begin

lemma ZADD_index:
  assumes "index_at ks k S" "unat s \<le> 2 ^ 53"
  obtains n where "call [''ZADD'', k, to_string s, m] ks = (ReplyInteger n, zadd_at k (unat s) m ks)"
  using assms ZADD [of ks k _ "unat s" m] by (auto simp: index_at_def zadd_at_def to_string_def)

lemma ZREM_index:
  assumes "index_at ks k S"
  obtains n where "call [''ZREM'', k, m] ks = (ReplyInteger n, zrem_at k m ks)"
  using assms ZREM [of ks k _ m] by (auto simp: index_at_def zrem_at_def)

lemma HSET_at:
  assumes "hash_at ks k = Some h" "field_pairs args = Some fvs" "fvs \<noteq> []"
  obtains n where "call (''HSET'' # k # args) ks = (ReplyInteger n, hset_at k (h ++ map_of (rev fvs)) ks)"
  using HSET [OF assms] by (simp add: hset_at_def)

lemma run_ZADD:
  assumes "index_at ks k S" "unat s \<le> 2 ^ 53" "lua_arg v = Some m"
  shows "run_lua call (RedisCall [LString ''ZADD'', LString k, LString (to_string s), v] (\<lambda>_. p)) ks =
    run_lua call p (zadd_at k (unat s) m ks)"
proof -
  obtain n where "call [''ZADD'', k, to_string s, m] ks = (ReplyInteger n, zadd_at k (unat s) m ks)"
    using assms(1,2) by (rule ZADD_index)
  then show ?thesis using assms(3) by (simp add: run_lua.simps)
qed

lemma run_ZREM:
  assumes "index_at ks k S"
  shows "run_lua call (RedisCall [LString ''ZREM'', LString k, LString m] (\<lambda>_. p)) ks =
    run_lua call p (zrem_at k m ks)"
proof -
  obtain n where "call [''ZREM'', k, m] ks = (ReplyInteger n, zrem_at k m ks)" using assms by (rule ZREM_index)
  then show ?thesis by (simp add: run_lua.simps)
qed

lemma run_HSET:
  assumes "hash_at ks k = Some h" "those (map lua_arg vs) = Some args" "field_pairs args = Some fvs" "fvs \<noteq> []"
  shows "run_lua call (RedisCall (LString ''HSET'' # LString k # vs) (\<lambda>_. p)) ks =
    run_lua call p (hset_at k (h ++ map_of (rev fvs)) ks)"
proof -
  obtain n where "call (''HSET'' # k # args) ks = (ReplyInteger n, hset_at k (h ++ map_of (rev fvs)) ks)"
    using assms(1,3,4) by (rule HSET_at)
  then show ?thesis using assms(2) by (simp add: run_lua.simps)
qed

lemma run_HGET:
  assumes "hash_at ks k = Some h"
  shows "run_lua call (RedisCall [LString ''HGET'', LString k, LString f] p) ks =
    run_lua call (p (case h f of None \<Rightarrow> LFalse | Some s \<Rightarrow> LString s)) ks"
  using HGET [OF assms, of f] by (cases "h f") (simp_all add: run_lua.simps)

end

section \<open>The ledger\<close>

record ledger =
  next_id :: nat
  msgs :: "u64 \<Rightarrow> MessageRecord option"
  idem :: "u64 \<times> string \<Rightarrow> u64 option"

definition empty_ledger :: ledger where
  "empty_ledger = \<lparr>next_id = 0, msgs = Map.empty, idem = Map.empty\<rparr>"

text \<open>The index of the messages that satisfy \<open>P\<close>, by the time \<open>t\<close>.\<close>

definition index_of :: "(MessageRecord \<Rightarrow> bool) \<Rightarrow> (MessageRecord \<Rightarrow> u64) \<Rightarrow> ledger \<Rightarrow> (nat \<times> string) set" where
  "index_of P t L = {(unat (t r), to_string i) | i r. msgs L i = Some r \<and> P r}"

definition pending_index :: "ledger \<Rightarrow> u64 \<Rightarrow> (nat \<times> string) set" where
  "pending_index L u = index_of (\<lambda>r. to_uid r = u \<and> status r = Pending) created_at_ms L"

definition recent_index :: "ledger \<Rightarrow> u64 \<Rightarrow> (nat \<times> string) set" where
  "recent_index L u = index_of (\<lambda>r. from_uid r = u \<or> to_uid r = u) created_at_ms L"

definition timeout_index :: "ledger \<Rightarrow> (nat \<times> string) set" where
  "timeout_index L = index_of (\<lambda>r. status r = Delivered) delivered_at_ms L"

lemmas index_defs = pending_index_def recent_index_def timeout_index_def

text \<open>
  A ledger the store can be in: identifiers run from 1 to the last one given out, every message is the
  one its client message is mapped to, and the times and counters can be stored.
\<close>

definition ledger_ok :: "ledger \<Rightarrow> bool" where
  "ledger_ok L \<longleftrightarrow> next_id L < 10 ^ 14 \<and>
     (\<forall>i r. msgs L i = Some r \<longrightarrow> msg_id r = i \<and> 0 < unat i \<and> unat i \<le> next_id L \<and>
        idem L (from_uid r, client_msg_id r) = Some i \<and>
        unat (created_at_ms r) \<le> 2 ^ 53 \<and> unat (delivered_at_ms r) \<le> 2 ^ 53 \<and>
        0 \<le> retry_count r \<and> retry_count r < 2 ^ 62) \<and>
     (\<forall>f m i. idem L (f, m) = Some i \<longrightarrow>
        (\<exists>r. msgs L i = Some r \<and> from_uid r = f \<and> client_msg_id r = m))"

lemma ledger_okD:
  assumes "ledger_ok L" "msgs L i = Some r"
  shows "msg_id r = i" "0 < unat i" "unat i \<le> next_id L" "idem L (from_uid r, client_msg_id r) = Some i"
    "unat (created_at_ms r) \<le> 2 ^ 53" "unat (delivered_at_ms r) \<le> 2 ^ 53"
    "0 \<le> retry_count r" "retry_count r < 2 ^ 62"
  using assms by (auto simp: ledger_ok_def)

lemma ledger_ok_idem:
  assumes "ledger_ok L" "idem L (f, m) = Some i"
  obtains r where "msgs L i = Some r" "from_uid r = f" "client_msg_id r = m"
  using assms unfolding ledger_ok_def by blast

definition represents :: "keyspace \<Rightarrow> ledger \<Rightarrow> bool" where
  "represents ks L \<longleftrightarrow>
     ks kRedisMsgNextIdKey = (if next_id L = 0 then None else Some (RString (dec (next_id L)))) \<and>
     (\<forall>i. ks (MakeMessageKey i) = map_option (\<lambda>r. RHash (record_hash r)) (msgs L i)) \<and>
     (\<forall>f m. ks (MakeIdempotencyKey f m) = map_option (\<lambda>i. RString (to_string i)) (idem L (f, m))) \<and>
     (\<forall>u. index_at ks (MakePendingKey u) (pending_index L u)) \<and>
     (\<forall>u. index_at ks (MakeRecentKey u) (recent_index L u)) \<and>
     index_at ks kRedisDeliveredTimeoutKey (timeout_index L)"

lemma represents_empty: "represents Map.empty empty_ledger"
  by (simp add: represents_def empty_ledger_def index_at_def zset_at_def index_defs index_of_def)

lemma ledger_ok_empty: "ledger_ok empty_ledger"
  by (simp add: ledger_ok_def empty_ledger_def)

section \<open>Operations of the ledger\<close>

definition new_record :: "u64 \<Rightarrow> u64 \<Rightarrow> u64 \<Rightarrow> string \<Rightarrow> string \<Rightarrow> u64 \<Rightarrow> MessageRecord" where
  "new_record i from to text client_id now =
     \<lparr>msg_id = i, from_uid = from, to_uid = to, content = text, client_msg_id = client_id, status = Pending,
      created_at_ms = now, delivered_at_ms = 0, acked_at_ms = 0, retry_count = 0\<rparr>"

text \<open>Create a message, or find the one that the client message already has.\<close>

definition ledger_create ::
    "u64 \<Rightarrow> u64 \<Rightarrow> string \<Rightarrow> string \<Rightarrow> u64 \<Rightarrow> ledger \<Rightarrow> CreateMessageResult \<times> ledger" where
  "ledger_create from to text client_id now L = (case idem L (from, client_id) of
     Some i \<Rightarrow> (\<lparr>result_record = parsed (the (msgs L i)), result_created = False, result_ok = True\<rparr>, L)
   | None \<Rightarrow> let i = word_of_nat (next_id L + 1); r = new_record i from to text client_id now in
      (\<lparr>result_record = r, result_created = True, result_ok = True\<rparr>,
       L\<lparr>next_id := next_id L + 1, msgs := (msgs L)(i \<mapsto> r), idem := (idem L)((from, client_id) \<mapsto> i)\<rparr>))"

definition ledger_update :: "u64 \<Rightarrow> (MessageRecord \<Rightarrow> MessageRecord) \<Rightarrow> ledger \<Rightarrow> bool \<times> ledger" where
  "ledger_update i f L = (case msgs L i of
     None \<Rightarrow> (False, L)
   | Some r \<Rightarrow> (True, L\<lparr>msgs := (msgs L)(i \<mapsto> f r)\<rparr>))"

definition ledger_deliver :: "u64 \<Rightarrow> u64 \<Rightarrow> ledger \<Rightarrow> bool \<times> ledger" where
  "ledger_deliver i now = ledger_update i (\<lambda>r. r\<lparr>status := Delivered, delivered_at_ms := now\<rparr>)"

definition ledger_pend :: "u64 \<Rightarrow> ledger \<Rightarrow> bool \<times> ledger" where
  "ledger_pend i = ledger_update i (\<lambda>r. r\<lparr>status := Pending\<rparr>)"

definition ledger_fail :: "u64 \<Rightarrow> ledger \<Rightarrow> bool \<times> ledger" where
  "ledger_fail i = ledger_update i (\<lambda>r. r\<lparr>status := Failed\<rparr>)"

definition ledger_retry :: "u64 \<Rightarrow> ledger \<Rightarrow> bool \<times> ledger" where
  "ledger_retry i = ledger_update i (\<lambda>r. r\<lparr>retry_count := retry_count r + 1\<rparr>)"

text \<open>Only the recipient of a message may acknowledge it.\<close>

definition ledger_ack :: "u64 \<Rightarrow> u64 \<Rightarrow> u64 \<Rightarrow> ledger \<Rightarrow> bool \<times> ledger" where
  "ledger_ack i uid now L = (case msgs L i of
     None \<Rightarrow> (False, L)
   | Some r \<Rightarrow> if to_uid r \<noteq> uid then (False, L)
       else ledger_update i (\<lambda>r. r\<lparr>status := Acked, acked_at_ms := now\<rparr>) L)"

section \<open>The scripts implement the ledger\<close>

lemma prefix_key [simp]:
  "kRedisPendingKeyPrefix @ to_string u = MakePendingKey u"
  "kRedisMsgKeyPrefix @ to_string i = MakeMessageKey i"
  by (simp_all add: kRedisPendingKeyPrefix_def MakePendingKey_def kRedisMsgKeyPrefix_def MakeMessageKey_def)

lemma arg_at_simps [simp]:
  "arg_at (x # xs) 0 = LString x" "arg_at (x # xs) (Suc n) = arg_at xs n" "arg_at [] n = LNil"
  "arg_at (x # xs) 1 = arg_at xs 0" "arg_at (x # xs) (numeral k) = arg_at xs (numeral k - 1)"
  by (simp_all add: arg_at_def nth_Cons')

lemma record_hash_simps [simp]:
  "record_hash r ''to_uid'' = Some (to_string (to_uid r))"
  "record_hash r ''created_at_ms'' = Some (to_string (created_at_ms r))"
  "record_hash r ''retry_count'' = Some (dec (nat (retry_count r)))"
  by (simp_all add: record_hash_def record_fields_def)

lemma hash_at_message:
  "represents ks L \<Longrightarrow> hash_at ks (MakeMessageKey i) =
    Some (case msgs L i of None \<Rightarrow> Map.empty | Some r \<Rightarrow> record_hash r)"
  by (simp add: represents_def hash_at_def split: option.split)

lemma represents_indexes:
  assumes "represents ks L"
  shows "index_at ks (MakePendingKey u) (pending_index L u)" "index_at ks (MakeRecentKey u) (recent_index L u)"
    "index_at ks kRedisDeliveredTimeoutKey (timeout_index L)"
  using assms by (simp_all add: represents_def)

text \<open>The indexes after a message is written: its old entry goes, its new one comes.\<close>

lemma index_of_update:
  "index_of P t (L\<lparr>msgs := (msgs L)(i \<mapsto> r)\<rparr>) =
    (if P r then insert (unat (t r), to_string i) else id) {e \<in> index_of P t L. snd e \<noteq> to_string i}"
proof (rule set_eqI)
  fix e
  let ?others = "\<exists>j r'. j \<noteq> i \<and> msgs L j = Some r' \<and> P r' \<and> e = (unat (t r'), to_string j)"
  have "e \<in> index_of P t (L\<lparr>msgs := (msgs L)(i \<mapsto> r)\<rparr>) \<longleftrightarrow>
      (\<exists>j r'. (j = i \<and> r' = r \<or> j \<noteq> i \<and> msgs L j = Some r') \<and> P r' \<and> e = (unat (t r'), to_string j))"
    by (auto simp: index_of_def)
  also have "\<dots> \<longleftrightarrow> P r \<and> e = (unat (t r), to_string i) \<or> ?others" by blast
  finally have "e \<in> index_of P t (L\<lparr>msgs := (msgs L)(i \<mapsto> r)\<rparr>) \<longleftrightarrow>
      P r \<and> e = (unat (t r), to_string i) \<or> ?others" .
  moreover have "e \<in> {e \<in> index_of P t L. snd e \<noteq> to_string i} \<longleftrightarrow> ?others" by (auto simp: index_of_def)
  ultimately show "e \<in> index_of P t (L\<lparr>msgs := (msgs L)(i \<mapsto> r)\<rparr>) \<longleftrightarrow>
      e \<in> (if P r then insert (unat (t r), to_string i) else id) {e \<in> index_of P t L. snd e \<noteq> to_string i}"
    by (cases "P r") (simp_all del: mem_Collect_eq)
qed

lemma index_of_absent:
  assumes "msgs L i = None \<or> \<not> P (the (msgs L i))"
  shows "{e \<in> index_of P t L. snd e \<noteq> to_string i} = index_of P t L"
  using assms by (auto simp: index_of_def)

lemma index_of_entry:
  assumes "msgs L i = Some r" "P r"
  shows "insert (unat (t r), to_string i) {e \<in> index_of P t L. snd e \<noteq> to_string i} = index_of P t L"
  using assms by (auto simp: index_of_def)

text \<open>The indexes after a change of one message that keeps its parties and its creation time.\<close>

lemma pending_index_update:
  assumes "msgs L i = Some r" "to_uid r' = to_uid r" "created_at_ms r' = created_at_ms r"
  shows "pending_index (L\<lparr>msgs := (msgs L)(i \<mapsto> r')\<rparr>) u =
    (if u = to_uid r then (if status r' = Pending then insert (unat (created_at_ms r), to_string i) else id)
       {e \<in> pending_index L u. snd e \<noteq> to_string i} else pending_index L u)"
  using assms by (simp add: pending_index_def index_of_update index_of_absent)

lemma recent_index_update:
  assumes "msgs L i = Some r" "to_uid r' = to_uid r" "from_uid r' = from_uid r"
    "created_at_ms r' = created_at_ms r"
  shows "recent_index (L\<lparr>msgs := (msgs L)(i \<mapsto> r')\<rparr>) u = recent_index L u"
  using assms index_of_entry [OF assms(1), of "\<lambda>r. from_uid r = u \<or> to_uid r = u" created_at_ms]
  by (cases "from_uid r = u \<or> to_uid r = u")
    (simp_all add: recent_index_def index_of_update index_of_absent)

lemma timeout_index_update:
  "timeout_index (L\<lparr>msgs := (msgs L)(i \<mapsto> r')\<rparr>) =
    (if status r' = Delivered then insert (unat (delivered_at_ms r'), to_string i) else id)
       {e \<in> timeout_index L. snd e \<noteq> to_string i}"
  by (simp add: timeout_index_def index_of_update)

lemma represents_update:
  assumes "represents ks L" "msgs L i = Some r" "to_uid r' = to_uid r" "from_uid r' = from_uid r"
    "created_at_ms r' = created_at_ms r" "ks' (MakeMessageKey i) = Some (RHash (record_hash r'))"
    and same: "\<And>k. k \<noteq> MakeMessageKey i \<Longrightarrow> k \<noteq> MakePendingKey (to_uid r) \<Longrightarrow>
      k \<noteq> kRedisDeliveredTimeoutKey \<Longrightarrow> ks' k = ks k"
    and "index_at ks' (MakePendingKey (to_uid r))
      ((if status r' = Pending then insert (unat (created_at_ms r), to_string i) else id)
         {e \<in> pending_index L (to_uid r). snd e \<noteq> to_string i})"
    and "index_at ks' kRedisDeliveredTimeoutKey
      ((if status r' = Delivered then insert (unat (delivered_at_ms r'), to_string i) else id)
         {e \<in> timeout_index L. snd e \<noteq> to_string i})"
  shows "represents ks' (L\<lparr>msgs := (msgs L)(i \<mapsto> r')\<rparr>)"
proof -
  have idx: "index_at ks' k S = index_at ks k S"
    if "k \<noteq> MakeMessageKey i" "k \<noteq> MakePendingKey (to_uid r)" "k \<noteq> kRedisDeliveredTimeoutKey" for k S
    using same [OF that] by (simp add: index_at_def zset_at_def)
  show ?thesis
    using assms
    by (auto simp: represents_def pending_index_update recent_index_update timeout_index_update idx same
        key_simps)
qed

text \<open>A message rewritten without moving between indexes.\<close>

lemma represents_rewrite:
  assumes rep: "represents ks L" and r: "msgs L i = Some r" and same: "to_uid r' = to_uid r"
    "from_uid r' = from_uid r" "created_at_ms r' = created_at_ms r" "status r' = status r"
    "delivered_at_ms r' = delivered_at_ms r"
  shows "represents (hset_at (MakeMessageKey i) (record_hash r') ks) (L\<lparr>msgs := (msgs L)(i \<mapsto> r')\<rparr>)"
proof (rule represents_update [OF rep r])
  have "(if status r' = Pending then insert (unat (created_at_ms r), to_string i) else id)
      {e \<in> pending_index L (to_uid r). snd e \<noteq> to_string i} = pending_index L (to_uid r)"
    using r same index_of_entry [OF r, of "\<lambda>q. to_uid q = to_uid r \<and> status q = Pending" created_at_ms]
    by (simp add: pending_index_def index_of_absent)
  then show "index_at (hset_at (MakeMessageKey i) (record_hash r') ks) (MakePendingKey (to_uid r))
      ((if status r' = Pending then insert (unat (created_at_ms r), to_string i) else id)
        {e \<in> pending_index L (to_uid r). snd e \<noteq> to_string i})"
    using represents_indexes(1) [OF rep] by (simp add: key_simps)
  have "(if status r' = Delivered then insert (unat (delivered_at_ms r'), to_string i) else id)
      {e \<in> timeout_index L. snd e \<noteq> to_string i} = timeout_index L"
    using r same index_of_entry [OF r, of "\<lambda>q. status q = Delivered" delivered_at_ms]
    by (simp add: timeout_index_def index_of_absent)
  then show "index_at (hset_at (MakeMessageKey i) (record_hash r') ks) kRedisDeliveredTimeoutKey
      ((if status r' = Delivered then insert (unat (delivered_at_ms r'), to_string i) else id)
        {e \<in> timeout_index L. snd e \<noteq> to_string i})"
    using represents_indexes(3) [OF rep] by (simp add: key_simps)
qed (use same in \<open>simp_all add: key_simps\<close>)

lemma dec_zero: "dec 0 = ''0''"
  by code_simp

lemma zero_text: "to_string 0 = ''0''" "dec 0 = ''0''"
  by (simp_all add: to_string_def dec_zero)

lemma lua_arg_one [simp]: "lua_arg (LNumber 1) = Some ''1''"
  using lua_arg_number [of 1] by (simp add: dec_one [simplified])

lemma BuildCreateResult_reply:
  "BuildCreateResult (Some (ReplyArray (ReplyString flag # record_reply r))) =
    Some \<lparr>result_record = parsed r, result_created = (flag = ''1''), result_ok = True\<rparr>"
  using BuildRecordFromFields_reply [of "[ReplyString flag]" r]
  by (simp add: BuildCreateResult_def record_reply_eq)

lemma parsed_new_record: "parsed (new_record i from to text cid now) = new_record i from to text cid now"
  by (rule parsed_small) (simp_all add: new_record_def)

lemma unat_fresh_id: "next_id L + 1 < 10 ^ 14 \<Longrightarrow> unat (word_of_nat (next_id L + 1) :: u64) = next_id L + 1"
  by (rule unat_of_nat_u64) simp

lemma fresh_id:
  assumes "ledger_ok L" "next_id L + 1 < 10 ^ 14"
  shows "msgs L (word_of_nat (next_id L + 1)) = None"
  using ledger_okD(3) [OF assms(1), of "word_of_nat (next_id L + 1)"] unat_fresh_id [OF assms(2)]
  by (cases "msgs L (word_of_nat (next_id L + 1))") auto

lemma index_of_frame: "index_of P t (L\<lparr>next_id := n, msgs := m, idem := d\<rparr>) = index_of P t (L\<lparr>msgs := m\<rparr>)"
  by (simp add: index_of_def)

lemma represents_create:
  assumes rep: "represents ks L" and none: "msgs L i = None"
    and ks3: "ks3 = hset_at (MakeMessageKey i) (record_hash (new_record i from to text cid now))
      (ks(kRedisMsgNextIdKey \<mapsto> RString (dec (next_id L + 1)), MakeIdempotencyKey from cid \<mapsto> RString (to_string i)))"
    and ks6: "ks6 = zadd_at (MakeRecentKey to) (unat now) (to_string i) (zadd_at (MakeRecentKey from) (unat now)
      (to_string i) (zadd_at (MakePendingKey to) (unat now) (to_string i) ks3))"
  shows "represents ks6 (L\<lparr>next_id := next_id L + 1, msgs := (msgs L)(i \<mapsto> new_record i from to text cid now),
      idem := (idem L)((from, cid) \<mapsto> i)\<rparr>)"
proof -
  let ?ks4 = "zadd_at (MakePendingKey to) (unat now) (to_string i) ks3"
  let ?ks5 = "zadd_at (MakeRecentKey from) (unat now) (to_string i) ?ks4"
  have idx: "index_at ks3 (MakePendingKey u) (pending_index L u)" "index_at ks3 (MakeRecentKey u) (recent_index L u)"
    "index_at ks3 kRedisDeliveredTimeoutKey (timeout_index L)"
    for u using represents_indexes [OF rep] by (simp_all add: ks3 key_simps)
  have absent: "{e \<in> index_of P t L. snd e \<noteq> to_string i} = index_of P t L" for P t
    using none by (simp add: index_of_absent)
  have again: "{e. (e = (s, to_string i) \<or> e \<in> index_of P t L) \<and> snd e \<noteq> to_string i} = index_of P t L" for P t s
    using none by (auto simp: index_of_def)
  have "index_at ks6 (MakePendingKey u) (index_of (\<lambda>r. to_uid r = u \<and> status r = Pending) created_at_ms
      (L\<lparr>msgs := (msgs L)(i \<mapsto> new_record i from to text cid now)\<rparr>))" for u
    using index_at_zadd_any [OF idx(1) [of u], of "MakePendingKey to" "unat now" "to_string i"]
    by (simp add: ks6 index_of_update absent pending_index_def new_record_def key_simps split: if_splits)
  moreover have "index_at ks6 (MakeRecentKey u) (index_of (\<lambda>r. from_uid r = u \<or> to_uid r = u) created_at_ms
      (L\<lparr>msgs := (msgs L)(i \<mapsto> new_record i from to text cid now)\<rparr>))" for u
    using index_at_zadd_any [OF index_at_zadd_any [OF index_at_zadd_any [OF idx(2) [of u]]],
        of "MakeRecentKey to" "unat now" "to_string i" "MakeRecentKey from" "unat now" "to_string i"
           "MakePendingKey to" "unat now" "to_string i"]
    by (auto simp: ks6 index_of_update absent again recent_index_def new_record_def key_simps split: if_splits)
  moreover have "index_at ks6 kRedisDeliveredTimeoutKey (index_of (\<lambda>r. status r = Delivered) delivered_at_ms
      (L\<lparr>msgs := (msgs L)(i \<mapsto> new_record i from to text cid now)\<rparr>))"
    using idx(3) by (simp add: ks6 index_of_update absent timeout_index_def new_record_def key_simps)
  ultimately show ?thesis
    using rep unfolding represents_def index_defs index_of_frame
    by (auto simp: ks6 ks3 key_simps)
qed

context redis_server
begin

lemma run_HSET_message:
  assumes "represents ks L" "msgs L i = Some r" "those (map lua_arg vs) = Some args"
    "field_pairs args = Some fvs" "fvs \<noteq> []" "record_hash r ++ map_of (rev fvs) = record_hash r'"
  shows "run_lua call (RedisCall (LString ''HSET'' # LString (MakeMessageKey i) # vs) (\<lambda>_. p)) ks =
    run_lua call p (hset_at (MakeMessageKey i) (record_hash r') ks)"
  using run_HSET [OF _ assms(3-5), of ks "MakeMessageKey i" "record_hash r"]
    hash_at_message [OF assms(1), of i] assms(2,6) by simp

lemma run_HGET_message:
  assumes "represents ks L"
  shows "run_lua call (RedisCall [LString ''HGET'', LString (MakeMessageKey i), LString f] p) ks =
    run_lua call (p (case msgs L i of None \<Rightarrow> LFalse
      | Some r \<Rightarrow> (case record_hash r f of None \<Rightarrow> LFalse | Some s \<Rightarrow> LString s))) ks"
  using run_HGET [OF hash_at_message [OF assms], of i f p] by (cases "msgs L i") simp_all

lemma deliver_script:
  assumes rep: "represents ks L" and now: "unat now \<le> 2 ^ 53"
  shows "\<exists>ks'. run_lua call (kMarkDeliveredScript [MakeMessageKey i, kRedisDeliveredTimeoutKey]
      [to_string i, to_string now, kRedisPendingKeyPrefix]) ks =
      (ReplyInteger (if fst (ledger_deliver i now L) then 1 else 0), ks') \<and>
    represents ks' (snd (ledger_deliver i now L))"
proof (cases "msgs L i")
  case None
  then show ?thesis
    using rep by (simp add: kMarkDeliveredScript_def run_HGET_message ledger_deliver_def ledger_update_def)
next
  case (Some r)
  let ?r' = "r\<lparr>status := Delivered, delivered_at_ms := now\<rparr>"
  let ?p = "MakePendingKey (to_uid r)"
  let ?fvs = "[(''status'', ''Delivered''), (''delivered_at_ms'', to_string now)]"
  let ?ks1 = "hset_at (MakeMessageKey i) (record_hash ?r') ks"
  let ?ks2 = "zrem_at ?p (to_string i) ?ks1"
  let ?ks3 = "zadd_at kRedisDeliveredTimeoutKey (unat now) (to_string i) ?ks2"
  have h: "record_hash r ++ map_of (rev ?fvs) = record_hash ?r'"
    by (rule ext) (simp add: record_hash_def record_fields_def status_text_def)
  have i1: "index_at ?ks1 ?p (pending_index L (to_uid r))"
    using represents_indexes(1) [OF rep] by (simp add: key_simps)
  have i2: "index_at ?ks2 kRedisDeliveredTimeoutKey (timeout_index L)"
    using represents_indexes(3) [OF rep] by (simp add: key_simps)
  have "run_lua call (kMarkDeliveredScript [MakeMessageKey i, kRedisDeliveredTimeoutKey]
      [to_string i, to_string now, kRedisPendingKeyPrefix]) ks = (ReplyInteger 1, ?ks3)"
    using now i1 i2 Some
    by (simp add: kMarkDeliveredScript_def run_HGET_message [OF rep] run_ZREM run_ZADD
        run_HSET_message [OF rep Some _ _ _ h] del: map_of.simps)
  moreover have "represents ?ks3 (L\<lparr>msgs := (msgs L)(i \<mapsto> ?r')\<rparr>)"
    by (rule represents_update [OF rep Some])
      (use index_at_zrem [OF i1] index_at_zadd [OF i2] in \<open>simp_all add: key_simps\<close>)
  ultimately show ?thesis using Some by (simp add: ledger_deliver_def ledger_update_def)
qed

lemma pend_script:
  assumes rep: "represents ks L" and ok: "ledger_ok L"
  shows "\<exists>ks'. run_lua call (kMarkPendingScript [MakeMessageKey i, kRedisDeliveredTimeoutKey]
      [to_string i, to_string now, kRedisPendingKeyPrefix]) ks =
      (ReplyInteger (if fst (ledger_pend i L) then 1 else 0), ks') \<and>
    represents ks' (snd (ledger_pend i L))"
proof (cases "msgs L i")
  case None
  then show ?thesis
    using rep by (simp add: kMarkPendingScript_def run_HGET_message ledger_pend_def ledger_update_def)
next
  case (Some r)
  let ?r' = "r\<lparr>status := Pending\<rparr>"
  let ?p = "MakePendingKey (to_uid r)"
  let ?fvs = "[(''status'', ''Pending'')]"
  let ?ks1 = "hset_at (MakeMessageKey i) (record_hash ?r') ks"
  let ?ks2 = "zrem_at kRedisDeliveredTimeoutKey (to_string i) ?ks1"
  let ?ks3 = "zadd_at ?p (unat (created_at_ms r)) (to_string i) ?ks2"
  have h: "record_hash r ++ map_of (rev ?fvs) = record_hash ?r'"
    by (rule ext) (simp add: record_hash_def record_fields_def status_text_def)
  have c: "unat (created_at_ms r) \<le> 2 ^ 53" using ok Some by (simp add: ledger_ok_def)
  have i1: "index_at ?ks1 kRedisDeliveredTimeoutKey (timeout_index L)"
    using represents_indexes(3) [OF rep] by (simp add: key_simps)
  have i2: "index_at ?ks2 ?p (pending_index L (to_uid r))"
    using represents_indexes(1) [OF rep] by (simp add: key_simps)
  have "run_lua call (kMarkPendingScript [MakeMessageKey i, kRedisDeliveredTimeoutKey]
      [to_string i, to_string now, kRedisPendingKeyPrefix]) ks = (ReplyInteger 1, ?ks3)"
    using c i1 i2 Some
    by (simp add: kMarkPendingScript_def run_HGET_message [OF rep] run_ZREM run_ZADD
        run_HSET_message [OF rep Some _ _ _ h] del: map_of.simps)
  moreover have "represents ?ks3 (L\<lparr>msgs := (msgs L)(i \<mapsto> ?r')\<rparr>)"
    by (rule represents_update [OF rep Some])
      (use index_at_zrem [OF i1] index_at_zadd [OF i2] in \<open>simp_all add: key_simps\<close>)
  ultimately show ?thesis using Some by (simp add: ledger_pend_def ledger_update_def)
qed

text \<open>A message that leaves both indexes.\<close>

lemma represents_settle:
  assumes rep: "represents ks L" and r: "msgs L i = Some r" and "to_uid r' = to_uid r"
    "from_uid r' = from_uid r" "created_at_ms r' = created_at_ms r" "status r' = Acked \<or> status r' = Failed"
  shows "represents (zrem_at (MakePendingKey (to_uid r)) (to_string i)
      (zrem_at kRedisDeliveredTimeoutKey (to_string i) (hset_at (MakeMessageKey i) (record_hash r') ks)))
    (L\<lparr>msgs := (msgs L)(i \<mapsto> r')\<rparr>)"
proof (rule represents_update [OF rep r])
  let ?ks1 = "hset_at (MakeMessageKey i) (record_hash r') ks"
  let ?ks2 = "zrem_at kRedisDeliveredTimeoutKey (to_string i) ?ks1"
  have "index_at ?ks1 kRedisDeliveredTimeoutKey (timeout_index L)"
    using represents_indexes(3) [OF rep] by (simp add: key_simps)
  from index_at_zrem [OF this, of "to_string i"]
  show "index_at (zrem_at (MakePendingKey (to_uid r)) (to_string i) ?ks2) kRedisDeliveredTimeoutKey
      ((if status r' = Delivered then insert (unat (delivered_at_ms r'), to_string i) else id)
         {e \<in> timeout_index L. snd e \<noteq> to_string i})"
    using assms(6) by (auto simp: key_simps)
  have "index_at ?ks2 (MakePendingKey (to_uid r)) (pending_index L (to_uid r))"
    using represents_indexes(1) [OF rep] by (simp add: key_simps)
  from index_at_zrem [OF this, of "to_string i"]
  show "index_at (zrem_at (MakePendingKey (to_uid r)) (to_string i) ?ks2) (MakePendingKey (to_uid r))
      ((if status r' = Pending then insert (unat (created_at_ms r), to_string i) else id)
         {e \<in> pending_index L (to_uid r). snd e \<noteq> to_string i})"
    using assms(6) by auto
qed (use assms in \<open>simp_all add: key_simps\<close>)

lemma fail_script:
  assumes rep: "represents ks L"
  shows "\<exists>ks'. run_lua call (kMarkFailedScript [MakeMessageKey i, kRedisDeliveredTimeoutKey]
      [to_string i, to_string now, kRedisPendingKeyPrefix]) ks =
      (ReplyInteger (if fst (ledger_fail i L) then 1 else 0), ks') \<and>
    represents ks' (snd (ledger_fail i L))"
proof (cases "msgs L i")
  case None
  then show ?thesis
    using rep by (simp add: kMarkFailedScript_def run_HGET_message ledger_fail_def ledger_update_def)
next
  case (Some r)
  let ?r' = "r\<lparr>status := Failed\<rparr>"
  have h: "record_hash r ++ map_of (rev [(''status'', ''Failed'')]) = record_hash ?r'"
    by (rule ext) (simp add: record_hash_def record_fields_def status_text_def)
  let ?ks1 = "hset_at (MakeMessageKey i) (record_hash ?r') ks"
  have "index_at ?ks1 kRedisDeliveredTimeoutKey (timeout_index L)"
    "index_at (zrem_at kRedisDeliveredTimeoutKey (to_string i) ?ks1) (MakePendingKey (to_uid r)) (pending_index L (to_uid r))"
    using represents_indexes [OF rep] by (simp_all add: key_simps)
  then show ?thesis
    using Some represents_settle [OF rep Some, of ?r']
    by (simp add: kMarkFailedScript_def run_HGET_message [OF rep] run_ZREM ledger_fail_def ledger_update_def
        run_HSET_message [OF rep Some _ _ _ h] del: map_of.simps)
qed

lemma ack_script:
  assumes rep: "represents ks L"
  shows "\<exists>ks'. run_lua call (kMarkAckedScript [MakeMessageKey i, kRedisDeliveredTimeoutKey]
      [to_string i, to_string uid, to_string now, kRedisPendingKeyPrefix]) ks =
      (ReplyInteger (if fst (ledger_ack i uid now L) then 1 else 0), ks') \<and>
    represents ks' (snd (ledger_ack i uid now L))"
proof (cases "msgs L i")
  case None
  then show ?thesis
    using rep by (simp add: kMarkAckedScript_def run_HGET_message ledger_ack_def)
next
  case (Some r)
  let ?r' = "r\<lparr>status := Acked, acked_at_ms := now\<rparr>"
  have h: "record_hash r ++ map_of (rev [(''status'', ''Acked''), (''acked_at_ms'', to_string now)]) = record_hash ?r'"
    by (rule ext) (simp add: record_hash_def record_fields_def status_text_def)
  let ?ks1 = "hset_at (MakeMessageKey i) (record_hash ?r') ks"
  have "index_at ?ks1 kRedisDeliveredTimeoutKey (timeout_index L)"
    "index_at (zrem_at kRedisDeliveredTimeoutKey (to_string i) ?ks1) (MakePendingKey (to_uid r)) (pending_index L (to_uid r))"
    using represents_indexes [OF rep] by (simp_all add: key_simps)
  then show ?thesis
    using Some rep represents_settle [OF rep Some, of ?r']
    by (cases "to_uid r = uid") (simp_all add: kMarkAckedScript_def run_HGET_message [OF rep] run_ZREM ledger_ack_def ledger_update_def
        run_HSET_message [OF rep Some _ _ _ h] del: map_of.simps)
qed

lemma retry_script:
  assumes rep: "represents ks L" and ok: "ledger_ok L"
  shows "\<exists>ks'. run_lua call (kIncrementRetryScript [MakeMessageKey i] []) ks =
      (ReplyInteger (if fst (ledger_retry i L) then 1 else 0), ks') \<and>
    represents ks' (snd (ledger_retry i L))"
proof (cases "msgs L i")
  case None
  then have "ks (MakeMessageKey i) = None" using rep by (simp add: represents_def)
  then show ?thesis
    using None rep EXISTS [of "MakeMessageKey i" ks]
    by (simp add: kIncrementRetryScript_def ledger_retry_def ledger_update_def run_lua.simps to_double_def)
next
  case (Some r)
  let ?r' = "r\<lparr>retry_count := retry_count r + 1\<rparr>"
  let ?ks = "hset_at (MakeMessageKey i) (record_hash ?r') ks"
  have n: "0 \<le> retry_count r" "nat (retry_count r) < 2 ^ 63 - 1"
    using ledger_okD [OF ok Some] by (simp_all add: nat_less_iff)
  have h: "(record_hash r)(''retry_count'' \<mapsto> dec (Suc (nat (retry_count r)))) = record_hash ?r'"
    using n(1) by (intro ext) (simp add: record_hash_def record_fields_def nat_add_distrib)
  have "ks (MakeMessageKey i) = Some (RHash (record_hash r))" using rep Some by (simp add: represents_def)
  then have "call [''EXISTS'', MakeMessageKey i] ks = (ReplyInteger 1, ks)"
    "call [''HINCRBY'', MakeMessageKey i, ''retry_count'', ''1''] ks = (ReplyInteger (int (nat (retry_count r)) + 1), ?ks)"
    using EXISTS [of "MakeMessageKey i" ks] HINCRBY [of ks "MakeMessageKey i" "record_hash r", OF _ _ n(2)]
    by (simp_all add: hash_at_def hset_at_def h)
  moreover have "represents ?ks (L\<lparr>msgs := (msgs L)(i \<mapsto> ?r')\<rparr>)"
    using represents_rewrite [OF rep Some, of ?r'] by simp
  ultimately show ?thesis
    using Some by (simp add: kIncrementRetryScript_def ledger_retry_def ledger_update_def run_lua.simps to_double_def)
qed

lemma create_found:
  assumes rep: "represents ks L" and ok: "ledger_ok L" and i: "idem L (from, cid) = Some i"
    and r: "msgs L i = Some r" and keys: "keys = MakeIdempotencyKey from cid # keys'"
    and args: "args = kRedisMsgKeyPrefix # args'"
  shows "run_lua call (kCreateMessageScript keys args) ks = (ReplyArray (ReplyString ''0'' # record_reply r), ks)"
proof -
  have "string_at ks (MakeIdempotencyKey from cid) = Some (Some (to_string i))"
    and m: "ks (MakeMessageKey i) = Some (RHash (record_hash r))"
    using rep i r by (simp_all add: represents_def string_at_def)
  then have "call [''GET'', MakeIdempotencyKey from cid] ks = (ReplyString (to_string i), ks)"
    using GET by simp
  moreover have "call [''EXISTS'', MakeMessageKey i] ks = (ReplyInteger 1, ks)" using EXISTS m by simp
  moreover have "call (''HMGET'' # MakeMessageKey i # record_fields) ks = (ReplyArray (record_reply r), ks)"
    using HMGET [of ks "MakeMessageKey i" "record_hash r" record_fields] m
    by (simp add: hash_at_def record_reply_def record_fields_def)
  moreover have "those (map lua_arg (map LString record_fields)) = Some record_fields"
    by (simp add: record_fields_def)
  ultimately show ?thesis
    by (simp add: kCreateMessageScript_def keys args run_lua.simps to_double_def record_reply_eq)
qed

lemma create_fresh:
  assumes rep: "represents ks L" and idem: "idem L (from, cid) = None" and n: "next_id L + 1 < 10 ^ 14"
    and none: "msgs L i = None" and i: "i = word_of_nat (next_id L + 1)" and now: "unat now \<le> 2 ^ 53"
    and ks3: "ks3 = hset_at (MakeMessageKey i) (record_hash (new_record i from to text cid now))
      (ks(kRedisMsgNextIdKey \<mapsto> RString (dec (next_id L + 1)), MakeIdempotencyKey from cid \<mapsto> RString (to_string i)))"
    and ks6: "ks6 = zadd_at (MakeRecentKey to) (unat now) (to_string i) (zadd_at (MakeRecentKey from) (unat now)
      (to_string i) (zadd_at (MakePendingKey to) (unat now) (to_string i) ks3))"
  shows "run_lua call (kCreateMessageScript
      [MakeIdempotencyKey from cid, kRedisMsgNextIdKey, MakePendingKey to, MakeRecentKey from, MakeRecentKey to]
      [kRedisMsgKeyPrefix, to_string from, to_string to, text, cid, to_string now]) ks =
    (ReplyArray (ReplyString ''1'' # record_reply (new_record i from to text cid now)), ks6)"
proof -
  let ?n = "next_id L + 1" and ?K = "MakeIdempotencyKey from cid"
  let ?ks1 = "ks(kRedisMsgNextIdKey \<mapsto> RString (to_string i))"
  let ?ks2 = "?ks1(?K \<mapsto> RString (to_string i))"
  let ?ks4 = "zadd_at (MakePendingKey to) (unat now) (to_string i) ks3"
  let ?ks5 = "zadd_at (MakeRecentKey from) (unat now) (to_string i) ?ks4"
  define N where "N = int ?n"
  have "unat i = ?n" unfolding i by (rule unat_of_nat_u64) (use n in simp)
  then have id: "dec ?n = to_string i" by (simp only: to_string_def)
  have num: "to_double N = N" "lua_arg (LNumber N) = Some (to_string i)" "lua_text (LNumber N) = Some (to_string i)"
    using n id to_double_small [of ?n] lua_arg_number [of ?n] lua_text_number [of ?n] by (simp_all add: N_def)
  have get: "run_lua call (RedisCall [LString ''GET'', LString ?K] p) ks = run_lua call (p LFalse) ks" for p
    using rep idem GET [of ks ?K None] by (simp add: represents_def string_at_def run_lua.simps)
  have "call [''INCR'', kRedisMsgNextIdKey] ks = (ReplyInteger N, ?ks1)"
    using rep n id INCR_new [of ks kRedisMsgNextIdKey] INCR [of ks kRedisMsgNextIdKey "next_id L"]
    by (cases "next_id L = 0") (simp_all add: represents_def add.commute N_def)
  then have incr: "run_lua call (RedisCall [LString ''INCR'', LString kRedisMsgNextIdKey] p) ks =
      run_lua call (p (LNumber N)) ?ks1" for p
    by (simp add: run_lua.simps num)
  have set: "run_lua call (RedisCall [LString ''SET'', LString ?K, LNumber N] (\<lambda>_. p)) ?ks1 = run_lua call p ?ks2" for p
    using SET [of ?K "to_string i" ?ks1] by (simp add: run_lua.simps num)
  have hash: "hash_at ?ks2 (MakeMessageKey i) = Some Map.empty"
    using rep none by (simp add: represents_def hash_at_def key_simps)
  let ?fvs = "zip record_fields [to_string i, to_string from, to_string to, text, cid, ''Pending'',
     to_string now, ''0'', ''0'', ''0'']"
  have new: "Map.empty ++ map_of (rev ?fvs) = record_hash (new_record i from to text cid now)"
    by (rule ext) (simp add: record_hash_def record_fields_def new_record_def status_text_def zero_text)
  have hset: "run_lua call (RedisCall [LString ''HSET'', LString (MakeMessageKey i),
      LString ''msg_id'', LNumber N, LString ''from_uid'', LString (to_string from),
      LString ''to_uid'', LString (to_string to), LString ''content'', LString text,
      LString ''client_msg_id'', LString cid, LString ''status'', LString ''Pending'',
      LString ''created_at_ms'', LString (to_string now), LString ''delivered_at_ms'', LString ''0'',
      LString ''acked_at_ms'', LString ''0'', LString ''retry_count'', LString ''0''] (\<lambda>_. p)) ?ks2 =
      run_lua call p ks3" for p
    by (subst run_HSET [OF hash, where fvs = ?fvs]) (simp_all add: num new [unfolded empty_map_add] ks3 id [simplified], simp_all add: record_fields_def)
  have idx: "index_at ks3 (MakePendingKey u) (pending_index L u)" "index_at ks3 (MakeRecentKey u) (recent_index L u)"
    for u using represents_indexes [OF rep] by (simp_all add: ks3 key_simps)
  note i4 = index_at_zadd_any [OF idx(2), of "MakePendingKey to" "unat now" "to_string i"]
  note i5 = index_at_zadd_any [OF i4, of "MakeRecentKey from" "unat now" "to_string i"]
  have "lua_concat (LString kRedisMsgKeyPrefix) (LNumber N) q = q (LString (MakeMessageKey i))" for q
    by (simp add: lua_concat_def num)
  then show ?thesis
    unfolding kCreateMessageScript_def create_new_def
    by (simp add: get incr set hset run_ZADD [OF idx(1) now num(2)] run_ZADD [OF i4 now num(2)]
        run_ZADD [OF i5 now num(2)] num ks6 record_reply_eq new_record_def status_text_def zero_text)
qed

lemma create_script:
  assumes rep: "represents ks L" and ok: "ledger_ok L" and n: "next_id L + 1 < 10 ^ 14"
    and now: "unat now \<le> 2 ^ 53"
  shows "\<exists>es ks'. run_lua call (kCreateMessageScript
      [MakeIdempotencyKey from cid, kRedisMsgNextIdKey, MakePendingKey to, MakeRecentKey from, MakeRecentKey to]
      [kRedisMsgKeyPrefix, to_string from, to_string to, text, cid, to_string now]) ks = (ReplyArray es, ks') \<and>
    BuildCreateResult (Some (ReplyArray es)) = Some (fst (ledger_create from to text cid now L)) \<and>
    represents ks' (snd (ledger_create from to text cid now L))"
proof (cases "idem L (from, cid)")
  case (Some i)
  then obtain r where r: "msgs L i = Some r" by (rule ledger_ok_idem [OF ok])
  have "run_lua call (kCreateMessageScript
      [MakeIdempotencyKey from cid, kRedisMsgNextIdKey, MakePendingKey to, MakeRecentKey from, MakeRecentKey to]
      [kRedisMsgKeyPrefix, to_string from, to_string to, text, cid, to_string now]) ks =
      (ReplyArray (ReplyString ''0'' # record_reply r), ks)"
    by (rule create_found [OF rep ok Some r]) simp_all
  then show ?thesis using Some r rep by (simp add: BuildCreateResult_reply ledger_create_def)
next
  case None
  let ?i = "word_of_nat (next_id L + 1) :: u64"
  have "msgs L ?i = None" using fresh_id [OF ok n] by simp
  from represents_create [OF rep this refl refl] create_fresh [OF rep None n this refl now refl refl]
  show ?thesis
    using None by (simp add: ledger_create_def BuildCreateResult_reply parsed_new_record Let_def)
qed

end

end
