(* ===== verification/Store_Spec.thy ===== *)
theory Store_Spec
  imports Ledger
begin

text \<open>
  The operations of \<open>Message_Store\<close> against the ledger: what each returns and what it does to the ledger
  that Redis represents, with the command answered, its reply lost, or its request lost; and the
  properties of the store that follow.
\<close>

section \<open>Ledger operations keep the ledger well formed\<close>

lemma ledger_ok_update:
  assumes ok: "ledger_ok L" and r: "msgs L i = Some r" and "msg_id r' = msg_id r" "from_uid r' = from_uid r"
    "client_msg_id r' = client_msg_id r" "unat (created_at_ms r') \<le> 2 ^ 53"
    "unat (delivered_at_ms r') \<le> 2 ^ 53" "0 \<le> retry_count r'" "retry_count r' < 2 ^ 62"
  shows "ledger_ok (L\<lparr>msgs := (msgs L)(i \<mapsto> r')\<rparr>)"
proof -
  have "\<exists>q. (if j = i then Some r' else msgs L j) = Some q \<and> from_uid q = f \<and> client_msg_id q = m"
    if j: "idem L (f, m) = Some j" for f m j
  proof -
    obtain q where "msgs L j = Some q" "from_uid q = f" "client_msg_id q = m"
      by (rule ledger_ok_idem [OF ok j])
    then show ?thesis using r assms(4,5) by (cases "j = i") auto
  qed
  then show ?thesis using assms ledger_okD [OF ok] unfolding ledger_ok_def by auto
qed

definition room :: "ledger \<Rightarrow> bool" where
  "room L \<longleftrightarrow> next_id L + 1 < 10 ^ 14 \<and> (\<forall>i r. msgs L i = Some r \<longrightarrow> retry_count r + 1 < 2 ^ 62)"

lemma ledger_ok_create:
  assumes ok: "ledger_ok L" and n: "next_id L + 1 < 10 ^ 14" and now: "unat now \<le> 2 ^ 53"
  shows "ledger_ok (snd (ledger_create from to text cid now L))"
proof (cases "idem L (from, cid)")
  case None
  let ?i = "word_of_nat (next_id L + 1) :: u64"
  let ?L = "L\<lparr>next_id := next_id L + 1, msgs := (msgs L)(?i \<mapsto> new_record ?i from to text cid now),
    idem := (idem L)((from, cid) \<mapsto> ?i)\<rparr>"
  have fresh: "msgs L ?i = None" "unat ?i = next_id L + 1"
    using fresh_id [OF ok n] unat_fresh_id [OF n] by simp_all
  have "msg_id r = j \<and> 0 < unat j \<and> unat j \<le> next_id ?L \<and> idem ?L (from_uid r, client_msg_id r) = Some j \<and>
      unat (created_at_ms r) \<le> 2 ^ 53 \<and> unat (delivered_at_ms r) \<le> 2 ^ 53 \<and>
      0 \<le> retry_count r \<and> retry_count r < 2 ^ 62" if "msgs ?L j = Some r" for j r
  proof (cases "j = ?i")
    case True
    then have "r = new_record ?i from to text cid now" using that by simp
    then show ?thesis using True fresh(2) now by (simp add: new_record_def)
  next
    case False
    then have j: "msgs L j = Some r" using that by simp
    then have "(from_uid r, client_msg_id r) \<noteq> (from, cid)" using ledger_okD(4) [OF ok j] None by auto
    then show ?thesis using ledger_okD [OF ok j] by auto
  qed
  moreover have "\<exists>r. msgs ?L j = Some r \<and> from_uid r = f \<and> client_msg_id r = m"
    if "idem ?L (f, m) = Some j" for f m j
  proof (cases "(f, m) = (from, cid)")
    case True
    then show ?thesis using that by (simp add: new_record_def)
  next
    case False
    then have "idem L (f, m) = Some j" using that by auto
    then obtain r where "msgs L j = Some r" "from_uid r = f" "client_msg_id r = m" by (rule ledger_ok_idem [OF ok])
    then show ?thesis using fresh(1) by auto
  qed
  moreover have "next_id ?L < 10 ^ 14" using n by simp
  ultimately have "ledger_ok ?L" unfolding ledger_ok_def by blast
  then show ?thesis using None by (simp add: ledger_create_def Let_def)
qed (simp add: ledger_create_def ok)

lemma ledger_ok_step:
  assumes "ledger_ok L" "unat now \<le> 2 ^ 53"
  shows "ledger_ok (snd (ledger_deliver i now L))" "ledger_ok (snd (ledger_pend i L))"
    "ledger_ok (snd (ledger_fail i L))" "ledger_ok (snd (ledger_ack i uid now L))"
    "room L \<Longrightarrow> ledger_ok (snd (ledger_retry i L))"
  using assms ledger_okD [OF assms(1), of i] ledger_ok_update [OF assms(1), of i]
  by (auto simp: ledger_deliver_def ledger_pend_def ledger_fail_def ledger_ack_def ledger_retry_def
      ledger_update_def room_def split: option.split)

section \<open>Operations\<close>

text \<open>The store is in good order: Redis represents the ledger, and the clock is in the range of a score.\<close>

definition store_ok :: "world \<Rightarrow> ledger \<Rightarrow> bool" where
  "store_ok w L \<longleftrightarrow> represents (redis w) L \<and> ledger_ok L \<and> (\<forall>n. unat (clock w n) \<le> 2 ^ 53)"

lemma store_okD:
  assumes "store_ok w L"
  shows "represents (redis w) L" "ledger_ok L" "unat (clock w n) \<le> 2 ^ 53"
  using assms by (simp_all add: store_ok_def)

text \<open>The ledger after a command whose fate is \<open>l\<close>.\<close>

definition after :: "link \<Rightarrow> ledger \<Rightarrow> ledger \<Rightarrow> ledger" where
  "after l L L' = (if l = RequestLost then L else L')"

abbreviation this_link :: "world \<Rightarrow> link" where
  "this_link w \<equiv> link_of w (requests w)"

abbreviation this_time :: "world \<Rightarrow> u64" where
  "this_time w \<equiv> clock w (ticks w)"

lemma run_redis:
  assumes "serve call argv (redis w) = (r, ks)"
  shows "run call (RedisCommand argv Return) w =
    (if this_link w = Answered then Some r else None,
     w\<lparr>redis := (if this_link w = RequestLost then redis w else ks), requests := Suc (requests w)\<rparr>)"
  using assms by (cases "this_link w") (simp_all add: redis_request_def redis_outcome_def)

lemma run_eval:
  assumes "run_lua call (script keys args) (redis w) = (r, ks)" "length keys < 2 ^ 64"
  shows "run call (client_eval script keys args) w =
    (if this_link w = Answered then Some r else None,
     w\<lparr>redis := (if this_link w = RequestLost then redis w else ks), requests := Suc (requests w)\<rparr>)"
  using run_redis [of call "eval_argv script keys args"] assms by (simp add: client_eval_def serve_eval)

lemma run_command:
  assumes "call cmd (redis w) = (r, ks)"
  shows "run call (client_command cmd) w =
    (if this_link w = Answered then Some r else None,
     w\<lparr>redis := (if this_link w = RequestLost then redis w else ks), requests := Suc (requests w)\<rparr>)"
  using run_redis [of call "map Bytes cmd"] assms by (simp add: client_command_def serve_plain)

text \<open>A step of the store: the clock was read \<open>t\<close> times and one command was sent.\<close>

definition store_step :: "nat \<Rightarrow> world \<Rightarrow> ledger \<Rightarrow> world \<Rightarrow> bool" where
  "store_step t w L w' \<longleftrightarrow>
     w' = w\<lparr>ticks := ticks w + t, redis := redis w', requests := Suc (requests w)\<rparr> \<and> store_ok w' L"

lemma world_redis_id [simp]:
  "w\<lparr>ticks := a, redis := redis w, requests := b\<rparr> = w\<lparr>ticks := a, requests := b\<rparr>"
  "w\<lparr>redis := redis w, requests := b\<rparr> = w\<lparr>requests := b\<rparr>"
  by (cases w; simp)+

context redis_server
begin

lemma run_createMessage:
  assumes ok: "store_ok w L" and n: "next_id L + 1 < 10 ^ 14"
  shows "\<exists>w'. run call (createMessage from to text cid) w =
      (if this_link w = Answered then fst (ledger_create from to text cid (this_time w) L)
       else empty_CreateMessageResult, w') \<and>
    store_step 1 w (after (this_link w) L (snd (ledger_create from to text cid (this_time w) L))) w'"
proof -
  have rep: "represents (redis w) L" and lok: "ledger_ok L" and now: "unat (this_time w) \<le> 2 ^ 53"
    using ok by (simp_all add: store_ok_def)
  obtain es ks where s: "run_lua call (kCreateMessageScript
      [MakeIdempotencyKey from cid, kRedisMsgNextIdKey, MakePendingKey to, MakeRecentKey from, MakeRecentKey to]
      [kRedisMsgKeyPrefix, to_string from, to_string to, text, cid, to_string (this_time w)]) (redis w) =
      (ReplyArray es, ks)"
    and b: "BuildCreateResult (Some (ReplyArray es)) = Some (fst (ledger_create from to text cid (this_time w) L))"
    and r: "represents ks (snd (ledger_create from to text cid (this_time w) L))"
    using create_script [OF rep lok n now] by blast
  show ?thesis
    using ok r b ledger_ok_create [OF lok n now] run_eval [of call kCreateMessageScript _ _ "w\<lparr>ticks := Suc (ticks w)\<rparr>", simplified, OF s]
    by (cases "this_link w")
      (auto simp: createMessage_def EvalCreateMessage_def read_clock_def store_step_def store_ok_def after_def)
qed

text \<open>The shape the four state changes share: read the clock, run a script, test its integer.\<close>

lemma run_state_script:
  assumes ok: "store_ok w L"
    and script: "\<And>now. unat now \<le> 2 ^ 53 \<Longrightarrow> \<exists>ks. run_lua call (script (keys now) (args now)) (redis w) =
      (ReplyInteger (if fst (f now L) then 1 else 0), ks) \<and> represents ks (snd (f now L))"
    and lok: "\<And>now. unat now \<le> 2 ^ 53 \<Longrightarrow> ledger_ok (snd (f now L))"
    and len: "\<And>now. length (keys now) < 2 ^ 64"
  shows "\<exists>w'. run call (NowMs (\<lambda>now. bind (client_eval script (keys now) (args now))
        (\<lambda>reply. Return (ReplyIsTrue reply)))) w =
      (this_link w = Answered \<and> fst (f (this_time w) L), w') \<and>
    store_step 1 w (after (this_link w) L (snd (f (this_time w) L))) w'"
proof -
  have now: "unat (this_time w) \<le> 2 ^ 53" using ok by (simp add: store_ok_def)
  obtain ks where s: "run_lua call (script (keys (this_time w)) (args (this_time w))) (redis w) =
      (ReplyInteger (if fst (f (this_time w) L) then 1 else 0), ks)"
    and r: "represents ks (snd (f (this_time w) L))"
    using script [OF now] by blast
  show ?thesis
    using ok r lok [OF now] run_eval [of call script _ _ "w\<lparr>ticks := Suc (ticks w)\<rparr>", simplified, OF s] len
    by (cases "this_link w")
      (simp_all add: read_clock_def store_step_def store_ok_def after_def ReplyIsTrue_def)
qed

lemma run_markDelivered:
  assumes "store_ok w L"
  shows "\<exists>w'. run call (markDelivered i) w = (this_link w = Answered \<and> fst (ledger_deliver i (this_time w) L), w') \<and>
    store_step 1 w (after (this_link w) L (snd (ledger_deliver i (this_time w) L))) w'"
  unfolding markDelivered_def EvalMsgStateScript_def
  by (rule run_state_script [OF assms], erule deliver_script [OF store_okD(1) [OF assms]], erule ledger_ok_step(1) [OF store_okD(2) [OF assms]], simp)

lemma run_markPending:
  assumes "store_ok w L"
  shows "\<exists>w'. run call (markPending i) w = (this_link w = Answered \<and> fst (ledger_pend i L), w') \<and>
    store_step 1 w (after (this_link w) L (snd (ledger_pend i L))) w'"
  unfolding markPending_def EvalMsgStateScript_def
  by (rule run_state_script [OF assms], rule pend_script [OF store_okD(1,2) [OF assms]], erule ledger_ok_step(2) [OF store_okD(2) [OF assms]], simp)

lemma run_markFailed:
  assumes "store_ok w L"
  shows "\<exists>w'. run call (markFailed i) w = (this_link w = Answered \<and> fst (ledger_fail i L), w') \<and>
    store_step 1 w (after (this_link w) L (snd (ledger_fail i L))) w'"
  unfolding markFailed_def EvalMsgStateScript_def
  by (rule run_state_script [OF assms], rule fail_script [OF store_okD(1) [OF assms]], erule ledger_ok_step(3) [OF store_okD(2) [OF assms]], simp)

lemma run_markAcked:
  assumes "store_ok w L"
  shows "\<exists>w'. run call (markAcked i uid) w = (this_link w = Answered \<and> fst (ledger_ack i uid (this_time w) L), w') \<and>
    store_step 1 w (after (this_link w) L (snd (ledger_ack i uid (this_time w) L))) w'"
  unfolding markAcked_def EvalMarkAckedScript_def
  by (rule run_state_script [OF assms], rule ack_script [OF store_okD(1) [OF assms]], erule ledger_ok_step(4) [OF store_okD(2) [OF assms]], simp)

lemma run_incrementRetryCount:
  assumes ok: "store_ok w L" and "room L"
  shows "\<exists>w'. run call (incrementRetryCount i) w = (this_link w = Answered \<and> fst (ledger_retry i L), w') \<and>
    store_step 0 w (after (this_link w) L (snd (ledger_retry i L))) w'"
proof -
  have rep: "represents (redis w) L" and lok: "ledger_ok L" using ok by (simp_all add: store_ok_def)
  obtain ks where s: "run_lua call (kIncrementRetryScript [MakeMessageKey i] []) (redis w) =
      (ReplyInteger (if fst (ledger_retry i L) then 1 else 0), ks)" and r: "represents ks (snd (ledger_retry i L))"
    using retry_script [OF rep lok] by blast
  show ?thesis
    using ok r ledger_ok_step(5) [OF lok, of 0] assms(2) run_eval [of call kIncrementRetryScript, OF s]
    by (cases "this_link w")
      (simp_all add: incrementRetryCount_def store_step_def store_ok_def after_def ReplyIsTrue_def)
qed

lemma run_FetchRecord:
  assumes ok: "store_ok w L"
  shows "run call (FetchRecord i) w =
    (if i = 0 then (None, w)
     else (if this_link w = Answered then map_option parsed (msgs L i) else None,
           w\<lparr>requests := Suc (requests w)\<rparr>))"
proof (cases "i = 0")
  case False
  let ?es = "case msgs L i of None \<Rightarrow> replicate 10 ReplyNil | Some r \<Rightarrow> record_reply r"
  have "call (''HMGET'' # MakeMessageKey i # record_fields) (redis w) = (ReplyArray ?es, redis w)"
    using HMGET [OF hash_at_message [OF store_okD(1) [OF ok]], of record_fields i]
    by (cases "msgs L i") (simp_all add: record_fields_def record_reply_def eval_nat_numeral)
  moreover have "BuildRecordFromFields (Some (ReplyArray ?es)) 0 = map_option parsed (msgs L i)"
    using BuildRecordFromFields_reply [of "[]"]
    by (cases "msgs L i") (simp_all add: BuildRecordFromFields_def ParseUint64_def ReplyToString_def)
  moreover have "length ?es = 10" by (cases "msgs L i") (simp_all add: record_reply_eq)
  ultimately show ?thesis
    using False run_command by (cases "this_link w") (simp_all add: FetchRecord_def)
qed (simp add: FetchRecord_def)

end

section \<open>Queries\<close>

text \<open>The record that a member of an index stands for, as a reader sees it.\<close>

definition entry :: "ledger \<Rightarrow> string \<Rightarrow> MessageRecord" where
  "entry L m = parsed (the (msgs L (fst (strtoull (c_str m)))))"

lemma entry_to_string [simp]: "entry L (to_string i) = parsed (the (msgs L i))"
  by (simp add: entry_def)

definition known :: "ledger \<Rightarrow> string \<Rightarrow> bool" where
  "known L m \<longleftrightarrow> (\<exists>i r. m = to_string i \<and> msgs L i = Some r)"

text \<open>What the loop of a query yields: the records that pass, except those whose fetch got no answer.\<close>

fun fetched :: "(nat \<Rightarrow> link) \<Rightarrow> ledger \<Rightarrow> (MessageRecord \<Rightarrow> bool) \<Rightarrow> nat \<Rightarrow> string list \<Rightarrow> MessageRecord list" where
  "fetched l L keep n [] = []"
| "fetched l L keep n (m # ms) =
    (if l n = Answered \<and> keep (entry L m) then [entry L m] else []) @ fetched l L keep (Suc n) ms"

lemma fetched_subset: "set (fetched l L keep n ms) \<subseteq> {r \<in> entry L ` set ms. keep r}"
  by (induction ms arbitrary: n) auto

lemma fetched_all: "(\<forall>n. l n = Answered) \<Longrightarrow> fetched l L keep n ms = filter keep (map (entry L) ms)"
  by (induction ms arbitrary: n) auto

lemma store_ok_requests [simp]: "store_ok (w\<lparr>requests := n\<rparr>) L = store_ok w L"
  by (simp add: store_ok_def)

context redis_server
begin

lemma run_fetch_indexed:
  assumes ok: "store_ok w L" and "known L m"
  shows "run call (fetch_indexed keep (ReplyString m)) w =
    (if this_link w = Answered \<and> keep (entry L m) then Some (entry L m) else None, w\<lparr>requests := Suc (requests w)\<rparr>)"
proof -
  obtain i r where m: "m = to_string i" "msgs L i = Some r" using assms(2) by (auto simp: known_def)
  moreover have "i \<noteq> 0" using ledger_okD(2) [OF store_okD(2) [OF ok] m(2)] by auto
  ultimately show ?thesis by (simp add: fetch_indexed_def run_FetchRecord [OF ok])
qed

lemma run_collect_index:
  assumes "store_ok w L" "\<forall>m \<in> set ms. known L m"
  shows "run call (collect (map ReplyString ms) (fetch_indexed keep)) w =
    (fetched (link_of w) L keep (requests w) ms, w\<lparr>requests := requests w + length ms\<rparr>)"
  using assms by (induction ms arbitrary: w) (simp_all add: run_fetch_indexed)

text \<open>A query over an index: the members \<open>f z\<close> of the index \<open>z\<close> are fetched.\<close>

lemma run_query:
  assumes ok: "store_ok w L" and cmd: "call cmd (redis w) = (members z, redis w)"
    and known: "\<forall>e \<in> set z. known L (snd e)"
  shows "run call (bind (client_command cmd) (\<lambda>reply. (case reply of
        Some (ReplyArray es) \<Rightarrow> collect es (fetch_indexed keep) | _ \<Rightarrow> Return []))) w =
    (if this_link w = Answered then
       (fetched (link_of w) L keep (Suc (requests w)) (map snd z), w\<lparr>requests := Suc (requests w) + length z\<rparr>)
     else ([], w\<lparr>requests := Suc (requests w)\<rparr>))"
proof -
  have "run call (collect (map (\<lambda>e. ReplyString (snd e)) z) (fetch_indexed keep)) (w\<lparr>requests := Suc (requests w)\<rparr>) =
      (fetched (link_of w) L keep (Suc (requests w)) (map snd z), w\<lparr>requests := Suc (requests w) + length z\<rparr>)"
    using run_collect_index [of "w\<lparr>requests := Suc (requests w)\<rparr>" L "map snd z" keep] ok known
    by (simp add: comp_def)
  then show ?thesis using run_command [of call, OF cmd] by (cases "this_link w") (simp_all add: members_def)
qed

end

lemma index_of_known: "e \<in> index_of P t L \<Longrightarrow> known L (snd e)"
  by (auto simp: index_of_def known_def)

text \<open>The records behind an index, in the order of the index.\<close>

lemma index_records:
  assumes ok: "ledger_ok L" and z: "zset_ok z" "set z = index_of P t L"
  shows "set (map (entry L \<circ> snd) z) = {parsed r | r i. msgs L i = Some r \<and> P r}"
    "map (\<lambda>r. to_string (msg_id r)) (map (entry L \<circ> snd) z) = map snd z"
    "(\<And>r. t (parsed r) = t r) \<Longrightarrow> map (\<lambda>r. (unat (t r), to_string (msg_id r))) (map (entry L \<circ> snd) z) = z"
proof -
  have mem: "\<exists>i r. e = (unat (t r), to_string i) \<and> msgs L i = Some r \<and> P r \<and> msg_id r = i" if "e \<in> set z" for e
    using that z(2) ledger_okD(1) [OF ok] by (fastforce simp: index_of_def)
  show "set (map (entry L \<circ> snd) z) = {parsed r | r i. msgs L i = Some r \<and> P r}"
    unfolding set_map z(2) index_of_def by (force simp: image_def)
  show "map (\<lambda>r. to_string (msg_id r)) (map (entry L \<circ> snd) z) = map snd z"
    unfolding map_map by (rule map_cong) (auto dest!: mem)
  show "map (\<lambda>r. (unat (t r), to_string (msg_id r))) (map (entry L \<circ> snd) z) = z"
    if "\<And>r. t (parsed r) = t r"
    unfolding map_map by (rule map_idI) (use that in \<open>auto dest!: mem\<close>)
qed

lemma zset_ok_distinct: "zset_ok z \<Longrightarrow> sorted z \<and> distinct z"
  by (auto simp: zset_ok_def distinct_map)

text \<open>
  A list of records that holds exactly the messages with \<open>P\<close>, each once, ordered by the time \<open>t\<close> and,
  within the same millisecond, by the decimal text of the identifier.
\<close>

definition listing :: "ledger \<Rightarrow> (MessageRecord \<Rightarrow> bool) \<Rightarrow> (MessageRecord \<Rightarrow> u64) \<Rightarrow> MessageRecord list \<Rightarrow> bool" where
  "listing L P t rs \<longleftrightarrow> set rs = {parsed r | r i. msgs L i = Some r \<and> P r} \<and> distinct (map msg_id rs) \<and>
     sorted (map (\<lambda>r. (unat (t r), to_string (msg_id r))) rs)"

lemma listing_index:
  assumes ok: "ledger_ok L" and z: "zset_ok z" "set z = index_of P t L" and t: "\<And>r. t (parsed r) = t r"
  shows "listing L P t (map (entry L \<circ> snd) z)"
proof -
  note i = index_records [OF ok z]
  have "map to_string (map msg_id (map (entry L \<circ> snd) z)) = map snd z"
    using i(2) by (simp only: map_map comp_def)
  then have "distinct (map to_string (map msg_id (map (entry L \<circ> snd) z)))"
    using z(1) by (simp only: zset_ok_def)
  then have "distinct (map msg_id (map (entry L \<circ> snd) z))" by (simp only: distinct_map)
  then show ?thesis using i(1,3) t zset_ok_distinct [OF z(1)] by (simp add: listing_def comp_def)
qed

lemma listing_filter:
  assumes "listing L P t rs" "\<And>r. Q (parsed r) = Q r" "\<And>r. Q r \<Longrightarrow> P r"
  shows "listing L Q t (filter Q rs)"
proof -
  have "{parsed r |r i. msgs L i = Some r \<and> Q r} = {x \<in> {parsed r |r i. msgs L i = Some r \<and> P r}. Q x}"
    using assms(2,3) by auto
  then show ?thesis using assms(1) by (simp add: listing_def distinct_map_filter sorted_filter)
qed

section \<open>What the queries return\<close>

context redis_server
begin

text \<open>A query over the index of \<open>P\<close> that keeps the records with \<open>Q\<close>.\<close>

lemma run_listing:
  assumes ok: "store_ok w L" and cmd: "call cmd (redis w) = (members z, redis w)"
    and z: "zset_ok z" "set z = index_of P t L"
    and Q: "\<And>r. Q (parsed r) = Q r" "\<And>r. Q r \<Longrightarrow> P r" and t: "\<And>r. t (parsed r) = t r"
  obtains rs n where "run call (bind (client_command cmd) (\<lambda>reply. (case reply of
        Some (ReplyArray es) \<Rightarrow> collect es (fetch_indexed Q) | _ \<Rightarrow> Return []))) w = (rs, w\<lparr>requests := n\<rparr>)"
    "set rs \<subseteq> {parsed r | r i. msgs L i = Some r \<and> Q r}"
    "(\<forall>k. link_of w k = Answered) \<Longrightarrow> listing L Q t rs"
proof -
  have known: "\<forall>e \<in> set z. known L (snd e)" using z(2) index_of_known by auto
  note q = run_query [OF ok cmd known, of Q]
  have "entry L ` set (map snd z) = {parsed r | r i. msgs L i = Some r \<and> P r}"
    using index_records(1) [OF store_okD(2) [OF ok] z] by (simp only: set_map image_comp)
  moreover have "{x \<in> {parsed r | r i. msgs L i = Some r \<and> P r}. Q x} \<subseteq> {parsed r | r i. msgs L i = Some r \<and> Q r}"
    using Q(1) by auto
  ultimately have sub: "set (fetched (link_of w) L Q n (map snd z)) \<subseteq> {parsed r | r i. msgs L i = Some r \<and> Q r}" for n
    using fetched_subset [of "link_of w" L Q n "map snd z"] by (simp only: subset_trans)
  have all: "listing L Q t (fetched (link_of w) L Q n (map snd z))" if "\<forall>k. link_of w k = Answered" for n
    unfolding fetched_all [OF that] map_map
    by (rule listing_filter [OF listing_index [OF store_okD(2) [OF ok] z t]]) (use Q in simp_all)
  show ?thesis
  proof (cases "this_link w = Answered")
    case True
    show ?thesis by (rule that) (use q True sub all in simp_all)
  next
    case False
    show ?thesis by (rule that [of "[]"]) (use q False in auto)
  qed
qed

lemma run_getPendingMessages:
  assumes ok: "store_ok w L"
  obtains rs n where "run call (getPendingMessages uid) w = (rs, w\<lparr>requests := n\<rparr>)"
    "set rs \<subseteq> {parsed r | r i. msgs L i = Some r \<and> to_uid r = uid \<and> status r = Pending}"
    "(\<forall>k. link_of w k = Answered) \<Longrightarrow> listing L (\<lambda>r. to_uid r = uid \<and> status r = Pending) created_at_ms rs"
proof -
  let ?P = "\<lambda>r. to_uid r = uid \<and> status r = Pending"
  obtain z where z: "zset_at (redis w) (MakePendingKey uid) = Some z" "zset_ok z" "set z = index_of ?P created_at_ms L"
    using represents_indexes(1) [OF store_okD(1) [OF ok]] by (auto simp: index_at_def pending_index_def)
  show ?thesis
    by (rule run_listing [OF ok ZRANGE_all [OF z(1)] z(2,3), of ?P])
      (simp_all add: that getPendingMessages_def)
qed

lemma run_getTimeoutDeliveredMessages:
  assumes ok: "store_ok w L" and now: "unat now_ms \<le> 2 ^ 53"
  obtains rs n where "run call (getTimeoutDeliveredMessages now_ms timeout_ms) w = (rs, w\<lparr>requests := n\<rparr>)"
    "set rs \<subseteq> {parsed r | r i. msgs L i = Some r \<and> timed_out now_ms timeout_ms r}"
    "(\<forall>k. link_of w k = Answered) \<Longrightarrow> listing L (timed_out now_ms timeout_ms) delivered_at_ms rs"
proof -
  let ?m = "if now_ms \<ge> timeout_ms then now_ms - timeout_ms else 0"
  let ?P = "\<lambda>r. status r = Delivered \<and> unat (delivered_at_ms r) \<le> unat ?m"
  obtain z where z: "zset_at (redis w) kRedisDeliveredTimeoutKey = Some z" "zset_ok z"
      "set z = index_of (\<lambda>r. status r = Delivered) delivered_at_ms L"
    using represents_indexes(3) [OF store_okD(1) [OF ok]] by (auto simp: index_at_def timeout_index_def)
  let ?z = "filter (\<lambda>e. fst e \<le> unat ?m) z"
  have m: "unat ?m \<le> 2 ^ 53" using now by (auto simp: unat_sub word_le_nat_alt)
  have z': "zset_ok ?z" "set ?z = index_of ?P delivered_at_ms L"
    using z(2,3) by (auto simp: zset_ok_def sorted_wrt_filter distinct_map_filter index_of_def)
  have late: "?P r" if "timed_out now_ms timeout_ms r" for r
    using that by (auto simp: timed_out_def word_le_nat_alt unat_sub)
  show ?thesis
    by (rule run_listing [OF ok ZRANGEBYSCORE [OF z(1) m] z', of "timed_out now_ms timeout_ms"])
      (use late in \<open>auto simp: that getTimeoutDeliveredMessages_def to_string_def timed_out_def Let_def\<close>)
qed

lemma run_getRecentMessages:
  assumes ok: "store_ok w L" and uid: "uid \<noteq> 0" and limit: "0 < limit" "limit \<le> 2 ^ 63"
  obtains rs n where "run call (getRecentMessages uid limit) w = (rs, w\<lparr>requests := n\<rparr>)"
    "set rs \<subseteq> {parsed r | r i. msgs L i = Some r \<and> (from_uid r = uid \<or> to_uid r = uid)}"
    "(\<forall>k. link_of w k = Answered) \<Longrightarrow> \<exists>full. rs = drop (length full - limit) full \<and>
       listing L (\<lambda>r. from_uid r = uid \<or> to_uid r = uid) created_at_ms full"
proof -
  let ?P = "\<lambda>r. from_uid r = uid \<or> to_uid r = uid"
  obtain z where z: "zset_at (redis w) (MakeRecentKey uid) = Some z" "zset_ok z" "set z = index_of ?P created_at_ms L"
    using represents_indexes(2) [OF store_okD(1) [OF ok]] by (auto simp: index_at_def recent_index_def)
  let ?z = "take limit (rev z)"
  have cmd: "call [''ZREVRANGE'', MakeRecentKey uid, ''0'', dec (limit - 1)] (redis w) = (members ?z, redis w)"
    using ZREVRANGE [OF z(1), of "limit - 1"] limit by simp
  have known: "\<forall>e \<in> set ?z. known L (snd e)" using z(3) index_of_known by (auto dest: in_set_takeD)
  note q = run_query [OF ok cmd known, of ?P]
  let ?f = "fetched (link_of w) L ?P (Suc (requests w)) (map snd ?z)"
  have recs: "entry L ` set (map snd z) = {parsed r | r i. msgs L i = Some r \<and> ?P r}"
    using index_records(1) [OF store_okD(2) [OF ok] z(2,3)] by (simp only: set_map image_comp)
  have part: "entry L ` set (map snd ?z) \<subseteq> entry L ` set (map snd z)"
    using set_take_subset [of limit "rev z"] by (simp add: image_mono)
  then have "set ?f \<subseteq> entry L ` set (map snd z)"
    using fetched_subset [of "link_of w" L ?P "Suc (requests w)" "map snd ?z"] by auto
  then have sub: "set ?f \<subseteq> {parsed r | r i. msgs L i = Some r \<and> ?P r}" by (simp only: recs)
  have all: "rev ?f = drop (length z - limit) (map (entry L \<circ> snd) z)" if "\<forall>k. link_of w k = Answered"
  proof -
    have "filter ?P (map (entry L) (map snd ?z)) = map (entry L) (map snd ?z)"
    proof (rule filter_True, rule ballI)
      fix x assume "x \<in> set (map (entry L) (map snd ?z))"
      then have "x \<in> entry L ` set (map snd ?z)" by (simp only: set_map)
      then have "x \<in> entry L ` set (map snd z)" using part by (rule rev_subsetD)
      then show "?P x" unfolding recs by auto
    qed
    then show ?thesis unfolding fetched_all [OF that] by (simp add: take_map [symmetric] take_rev rev_map drop_map)
  qed
  have runs: "run call (getRecentMessages uid limit) w = (case run call (bind (client_command
      [''ZREVRANGE'', MakeRecentKey uid, ''0'', dec (limit - 1)]) (\<lambda>reply. (case reply of
        Some (ReplyArray es) \<Rightarrow> collect es (fetch_indexed ?P) | _ \<Rightarrow> Return []))) w of (rs, w') \<Rightarrow> (rev rs, w'))"
    using uid limit(1) by (auto simp: getRecentMessages_def split: prod.split option.split redisReply.split)
  have list: "listing L ?P created_at_ms (map (entry L \<circ> snd) z)"
    by (rule listing_index [OF store_okD(2) [OF ok] z(2,3)]) simp
  show ?thesis
  proof (cases "this_link w = Answered")
    case True
    show ?thesis
      by (rule that [of "rev ?f"]) (use runs q True sub all list in \<open>auto intro!: exI [of _ "map (entry L \<circ> snd) z"]\<close>)
  next
    case False
    show ?thesis by (rule that [of "[]"]) (use runs q False in auto)
  qed
qed

end

section \<open>A store to try the properties on\<close>

text \<open>Redis with nothing but the counter, a clock that stands still, a link that always answers.\<close>

definition counted_ledger :: "nat \<Rightarrow> ledger" where
  "counted_ledger n = \<lparr>next_id = n, msgs = Map.empty, idem = Map.empty\<rparr>"

definition demo_world :: "nat \<Rightarrow> u64 \<Rightarrow> world" where
  "demo_world n t = \<lparr>users = empty_UserStateService,
     redis = (if n = 0 then Map.empty else [kRedisMsgNextIdKey \<mapsto> RString (dec n)]),
     clock = (\<lambda>_. t), ticks = 0, link_of = (\<lambda>_. Answered), requests = 0, up = (\<lambda>_. True), outbox = [],
     shut = []\<rparr>"

lemma demo_world_fields [simp]:
  "clock (demo_world n t) = (\<lambda>_. t)" "link_of (demo_world n t) = (\<lambda>_. Answered)"
  "requests (demo_world n t) = 0" "up (demo_world n t) = (\<lambda>_. True)" "outbox (demo_world n t) = []"
  "users (demo_world n t) = empty_UserStateService" "shut (demo_world n t) = []"
  by (simp_all add: demo_world_def)

lemma demo_store_ok:
  assumes "n < 10 ^ 14" "unat t \<le> 2 ^ 53"
  shows "store_ok (demo_world n t) (counted_ledger n)"
proof -
  have "represents (redis (demo_world n t)) (counted_ledger n)"
    by (simp add: represents_def demo_world_def counted_ledger_def index_at_def zset_at_def index_defs
        index_of_def key_simps)
  then show ?thesis using assms by (simp add: store_ok_def ledger_ok_def counted_ledger_def)
qed

lemma store_step_frame:
  assumes "store_step t w L w'"
  shows "store_ok w' L" "requests w' = Suc (requests w)" "link_of w' = link_of w" "clock w' = clock w"
    "ticks w' = ticks w + t" "users w' = users w" "up w' = up w" "outbox w' = outbox w" "shut w' = shut w"
proof -
  show "store_ok w' L" using assms by (simp only: store_step_def)
  obtain ks where w': "w' = w\<lparr>ticks := ticks w + t, redis := ks, requests := Suc (requests w)\<rparr>"
    using assms unfolding store_step_def by blast
  show "requests w' = Suc (requests w)" "link_of w' = link_of w" "clock w' = clock w"
    "ticks w' = ticks w + t" "users w' = users w" "up w' = up w" "outbox w' = outbox w" "shut w' = shut w"
    by (simp_all add: w')
qed

end
