(* ===== verification/Store_Theorems.thy ===== *)
theory Store_Theorems
  imports Store_Spec
begin

text \<open>
  The properties of the message store, each for every Redis server that obeys the documented laws,
  every ledger, and every fate of the commands.
\<close>

section \<open>Creating messages\<close>

text \<open>
  C9: \<^verbatim>\<open>createMessage\<close> is the ledger's create.  With the script answered, the result is exactly the
  ledger's: a new Pending record under the next identifier, or, when the sender has used the client
  message identifier before, the record created then.  A lost reply or request yields a result that
  is not ok.  In every case Redis again represents a ledger, with the message created unless the
  request was lost, so no index is left behind by a failure.
\<close>

theorem create_refines:
  assumes "redis_server call" "store_ok w L" "next_id L + 1 < 10 ^ 14"
  shows "\<exists>w'. run call (createMessage from to text cid) w =
      (if this_link w = Answered then fst (ledger_create from to text cid (this_time w) L)
       else empty_CreateMessageResult, w') \<and>
    store_ok w' (if this_link w = RequestLost then L
      else snd (ledger_create from to text cid (this_time w) L)) \<and>
    outbox w' = outbox w \<and> users w' = users w"
proof -
  obtain w' where "run call (createMessage from to text cid) w =
      (if this_link w = Answered then fst (ledger_create from to text cid (this_time w) L)
       else empty_CreateMessageResult, w')"
    and "store_step 1 w (after (this_link w) L (snd (ledger_create from to text cid (this_time w) L))) w'"
    using redis_server.run_createMessage [OF assms] by blast
  then show ?thesis using store_step_frame unfolding after_def by metis
qed

lemma demo_create:
  assumes "n + 1 < 10 ^ 14" "unat t \<le> 2 ^ 53"
  shows "\<exists>w'. run redis_call (createMessage 1 2 ''hi'' ''c1'') (demo_world n t) =
      (\<lparr>result_record = new_record (word_of_nat (n + 1)) 1 2 ''hi'' ''c1'' t, result_created = True, result_ok = True\<rparr>, w') \<and>
    store_step 1 (demo_world n t) (snd (ledger_create 1 2 ''hi'' ''c1'' t (counted_ledger n))) w'"
  using reference.run_createMessage [OF demo_store_ok, of n t 1 2 "''hi''" "''c1''"] assms
  by (simp add: after_def ledger_create_def counted_ledger_def Let_def)

theorem create_refines_witness:
  "\<exists>w'. run redis_call (createMessage 1 2 ''hi'' ''c1'') (demo_world 0 1000) =
     (\<lparr>result_record = new_record 1 1 2 ''hi'' ''c1'' 1000, result_created = True, result_ok = True\<rparr>, w')"
proof -
  have c: "fst (ledger_create 1 2 ''hi'' ''c1'' 1000 (counted_ledger 0)) =
      \<lparr>result_record = new_record 1 1 2 ''hi'' ''c1'' 1000, result_created = True, result_ok = True\<rparr>"
    by (simp add: ledger_create_def counted_ledger_def Let_def)
  have "store_ok (demo_world 0 1000) (counted_ledger 0)" by (rule demo_store_ok) simp_all
  moreover have "next_id (counted_ledger 0) + 1 < 10 ^ 14" by (simp add: counted_ledger_def)
  ultimately obtain w' where "run redis_call (createMessage 1 2 ''hi'' ''c1'') (demo_world 0 1000) =
      (if this_link (demo_world 0 1000) = Answered
       then fst (ledger_create 1 2 ''hi'' ''c1'' (this_time (demo_world 0 1000)) (counted_ledger 0))
       else empty_CreateMessageResult, w')"
    using create_refines [OF reference.redis_server_axioms, of "demo_world 0 1000" "counted_ledger 0" 1 2 "''hi''" "''c1''"]
    by blast
  then show ?thesis by (simp add: c)
qed

text \<open>The identifier of a client message belongs to exactly one message.\<close>

lemma ledger_unique:
  assumes "ledger_ok L" "idem L (f, m) = Some i"
  shows "{j. \<exists>r. msgs L j = Some r \<and> from_uid r = f \<and> client_msg_id r = m} = {i}"
proof -
  obtain r where "msgs L i = Some r" "from_uid r = f" "client_msg_id r = m" by (rule ledger_ok_idem [OF assms])
  moreover have "j = i" if "msgs L j = Some q" "from_uid q = f" "client_msg_id q = m" for j q
    using ledger_okD(4) [OF assms(1) that(1)] that(2,3) assms(2) by simp
  ultimately show ?thesis by blast
qed

lemma ledger_create_result:
  assumes "ledger_ok L"
  shows "result_ok (fst (ledger_create from to text cid now L))"
    "idem (snd (ledger_create from to text cid now L)) (from, cid) =
      Some (msg_id (result_record (fst (ledger_create from to text cid now L))))"
    "result_record (fst (ledger_create from to text cid now L)) =
      parsed (the (msgs (snd (ledger_create from to text cid now L))
        (msg_id (result_record (fst (ledger_create from to text cid now L))))))"
proof -
  show "result_ok (fst (ledger_create from to text cid now L))"
    by (simp add: ledger_create_def Let_def split: option.split)
  have "msg_id (the (msgs L i)) = i" if i: "idem L (from, cid) = Some i" for i
    using ledger_ok_idem [OF assms i] ledger_okD(1) [OF assms, of i] by (metis option.sel)
  then show "idem (snd (ledger_create from to text cid now L)) (from, cid) =
      Some (msg_id (result_record (fst (ledger_create from to text cid now L))))"
    "result_record (fst (ledger_create from to text cid now L)) =
      parsed (the (msgs (snd (ledger_create from to text cid now L))
        (msg_id (result_record (fst (ledger_create from to text cid now L))))))"
    using parsed_new_record
    by (auto simp: ledger_create_def Let_def new_record_def split: option.split)
qed

lemma ledger_create_again:
  "idem L (from, cid) = Some i \<Longrightarrow> ledger_create from to text cid now L =
    (\<lparr>result_record = parsed (the (msgs L i)), result_created = False, result_ok = True\<rparr>, L)"
  by (simp add: ledger_create_def)

text \<open>
  C2: a client that repeats a request never creates a second message.  Whatever happened to the
  first attempt, an answered second attempt with the same client message identifier succeeds, returns
  the identifier and the record of the first attempt when that one was answered, creates nothing when the
  first attempt reached Redis, and leaves exactly one message of that sender with that client
  message identifier.
\<close>

theorem create_once:
  assumes server: "redis_server call" and ok: "store_ok w L" and n: "next_id L + 2 < 10 ^ 14"
    and first: "run call (createMessage from to text cid) w = (res1, w1)"
    and second: "run call (createMessage from to' text' cid) w1 = (res2, w2)"
    and answered: "link_of w (Suc (requests w)) = Answered"
  shows "result_ok res2 \<and>
    (result_ok res1 \<longrightarrow> result_record res2 = result_record res1) \<and>
    (this_link w \<noteq> RequestLost \<longrightarrow> \<not> result_created res2) \<and>
    (\<exists>L2. store_ok w2 L2 \<and> {i. \<exists>r. msgs L2 i = Some r \<and> from_uid r = from \<and> client_msg_id r = cid} =
      {msg_id (result_record res2)})"
proof -
  let ?c = "\<lambda>L. ledger_create from to text cid (this_time w) L"
  let ?d = "\<lambda>L. ledger_create from to' text' cid (this_time w1) L"
  let ?L1 = "after (this_link w) L (snd (?c L))"
  have step1: "res1 = (if this_link w = Answered then fst (?c L) else empty_CreateMessageResult) \<and>
      store_step 1 w ?L1 w1"
    using redis_server.run_createMessage [OF server ok, of "from" to "text" cid] n first by auto
  note res1 = conjunct1 [OF step1] and f1 = store_step_frame [OF conjunct2 [OF step1]]
  have "next_id ?L1 + 1 < 10 ^ 14"
    using n by (simp add: after_def ledger_create_def Let_def split: option.split)
  then have step2: "res2 = fst (?d ?L1) \<and> store_step 1 w1 (snd (?d ?L1)) w2"
    using redis_server.run_createMessage [OF server f1(1), of "from" to' text' cid] second answered f1(2,3)
    by (auto simp: after_def)
  note res2 = conjunct1 [OF step2] and s2 = conjunct2 [OF step2]
  have lok: "ledger_ok ?L1" using f1(1) by (rule store_okD(2))
  have again: "result_record res2 = result_record (fst (?c L)) \<and> \<not> result_created res2" if "this_link w \<noteq> RequestLost"
  proof -
    have "idem ?L1 (from, cid) = Some (msg_id (result_record (fst (?c L))))"
      using that ledger_create_result(2) [OF store_okD(2) [OF ok]] by (simp add: after_def)
    from ledger_create_again [OF this] show ?thesis
      using that ledger_create_result(3) [OF store_okD(2) [OF ok], of "from" to "text" cid "this_time w"] res2
      by (simp add: after_def)
  qed
  have "{i. \<exists>r. msgs (snd (?d ?L1)) i = Some r \<and> from_uid r = from \<and> client_msg_id r = cid} = {msg_id (result_record res2)}"
    using ledger_unique [OF store_okD(2) [OF store_step_frame(1) [OF s2]] ledger_create_result(2) [OF lok]] res2 by simp
  then show ?thesis
    using again res1 res2 ledger_create_result(1) [OF lok] store_step_frame(1) [OF s2]
    by (cases "this_link w") (auto simp: empty_CreateMessageResult_def)
qed

theorem create_once_witness:
  "\<exists>res2 w2 L2. run redis_call (bind (createMessage 1 2 ''hi'' ''c1'') (\<lambda>_. createMessage 1 2 ''hi'' ''c1''))
      (demo_world 0 1000) = (res2, w2) \<and> result_ok res2 \<and> \<not> result_created res2 \<and> store_ok w2 L2 \<and>
    {i. \<exists>r. msgs L2 i = Some r \<and> from_uid r = 1 \<and> client_msg_id r = ''c1''} = {msg_id (result_record res2)}"
proof -
  obtain res1 w1 where 1: "run redis_call (createMessage 1 2 ''hi'' ''c1'') (demo_world 0 1000) = (res1, w1)" by force
  obtain res2 w2 where 2: "run redis_call (createMessage 1 2 ''hi'' ''c1'') w1 = (res2, w2)" by force
  show ?thesis
    using create_once [OF reference.redis_server_axioms demo_store_ok _ 1 2] 1 2
    by (simp add: counted_ledger_def del: bind.simps)
qed

lemma sorted_fst: "sorted (map (\<lambda>x. (f x, g x)) xs) \<Longrightarrow> sorted (map f xs)"
  for f :: "'a \<Rightarrow> nat" and g :: "'a \<Rightarrow> string"
  by (induction xs) auto

section \<open>Changing the state of a message\<close>

text \<open>
  C10: the operations that change a message's state are those of the ledger, on every branch.  Each
  returns true exactly when its script was answered and found the message (and, for an
  acknowledgement, the right recipient), and afterwards Redis represents the ledger in which exactly
  that message has changed, so that a message is in its recipient's Pending index exactly while it is
  Pending and in the timeout index exactly while it is Delivered.
\<close>

theorem marks_refine:
  assumes "redis_server call" "store_ok w L" "room L"
    and "(op, f) \<in> {(markDelivered i, ledger_deliver i (this_time w)), (markPending i, ledger_pend i),
      (markFailed i, ledger_fail i), (markAcked i uid, ledger_ack i uid (this_time w)),
      (incrementRetryCount i, ledger_retry i)}"
  shows "\<exists>w'. run call op w = (this_link w = Answered \<and> fst (f L), w') \<and>
    store_ok w' (if this_link w = RequestLost then L else snd (f L)) \<and> outbox w' = outbox w \<and> users w' = users w"
proof -
  have "\<exists>w' t. run call op w = (this_link w = Answered \<and> fst (f L), w') \<and>
      store_step t w (after (this_link w) L (snd (f L))) w'"
    using assms(4) redis_server.run_markDelivered [OF assms(1,2), of i]
      redis_server.run_markPending [OF assms(1,2), of i] redis_server.run_markFailed [OF assms(1,2), of i]
      redis_server.run_markAcked [OF assms(1,2), of i uid] redis_server.run_incrementRetryCount [OF assms(1-3), of i]
    by (elim insertE emptyE) (simp_all only: prod.inject, blast+)
  then show ?thesis using store_step_frame unfolding after_def by metis
qed

lemma demo_message:
  assumes "n + 2 < 10 ^ 14" "unat t \<le> 2 ^ 53" and i: "i = word_of_nat (n + 1)"
  obtains res w L where "run redis_call (createMessage 1 2 ''hi'' ''c1'') (demo_world n t) = (res, w)"
    "store_ok w L" "room L" "\<forall>k. link_of w k = Answered" "\<forall>k. clock w k = t"
    "msgs L = [i \<mapsto> new_record i 1 2 ''hi'' ''c1'' t]" "next_id L = n + 1"
proof -
  let ?L = "snd (ledger_create 1 2 ''hi'' ''c1'' t (counted_ledger n))"
  obtain res w where r: "run redis_call (createMessage 1 2 ''hi'' ''c1'') (demo_world n t) = (res, w)"
    and step: "store_step 1 (demo_world n t) ?L w"
    using demo_create [of n t] assms(1,2) by auto
  have L: "msgs ?L = [i \<mapsto> new_record i 1 2 ''hi'' ''c1'' t]" "next_id ?L = n + 1"
    by (simp_all add: ledger_create_def counted_ledger_def Let_def i)
  then have "room ?L" using assms(1) by (simp add: room_def new_record_def)
  then show ?thesis by (rule that [OF r store_step_frame(1) [OF step]]) (use L store_step_frame [OF step] in simp_all)
qed

theorem marks_refine_witness:
  "\<exists>w' L'. run redis_call (bind (createMessage 1 2 ''hi'' ''c1'') (\<lambda>_. markAcked 1 2)) (demo_world 0 1000) = (True, w') \<and>
    store_ok w' L' \<and> status (the (msgs L' 1)) = Acked"
proof -
  obtain res w L where c: "run redis_call (createMessage 1 2 ''hi'' ''c1'') (demo_world 0 1000) = (res, w)"
    and w: "store_ok w L" "room L" "\<forall>k. link_of w k = Answered"
    and L: "msgs L = [1 \<mapsto> new_record 1 1 2 ''hi'' ''c1'' 1000]"
    by (rule demo_message [of 0 1000 1]) simp_all
  obtain w' where "run redis_call (markAcked 1 2) w = (this_link w = Answered \<and> fst (ledger_ack 1 2 (this_time w) L), w')"
    "store_ok w' (if this_link w = RequestLost then L else snd (ledger_ack 1 2 (this_time w) L))"
    using marks_refine [OF reference.redis_server_axioms w(1,2), of "markAcked 1 2" "ledger_ack 1 2 (this_time w)" 1 2] by auto
  then show ?thesis using c w(3) L by (auto simp: ledger_ack_def ledger_update_def new_record_def)
qed

text \<open>
  C13: an acknowledgement counts only when it comes from the recipient.  When \<^verbatim>\<open>markAcked\<close> succeeds the
  message exists and was sent to that user; called for anyone else it fails and leaves the ledger as it is.
\<close>

theorem ack_by_recipient:
  assumes "redis_server call" "store_ok w L" "run call (markAcked i uid) w = (accepted, w')"
  shows "(accepted \<longrightarrow> (\<exists>r. msgs L i = Some r \<and> to_uid r = uid \<and>
      store_ok w' (L\<lparr>msgs := (msgs L)(i \<mapsto> r\<lparr>status := Acked, acked_at_ms := this_time w\<rparr>)\<rparr>))) \<and>
    ((\<forall>r. msgs L i = Some r \<longrightarrow> to_uid r \<noteq> uid) \<longrightarrow> \<not> accepted \<and> store_ok w' L)"
proof -
  obtain w1 where "run call (markAcked i uid) w = (this_link w = Answered \<and> fst (ledger_ack i uid (this_time w) L), w1)"
    "store_step 1 w (after (this_link w) L (snd (ledger_ack i uid (this_time w) L))) w1"
    using redis_server.run_markAcked [OF assms(1,2)] by blast
  then have "accepted = (this_link w = Answered \<and> fst (ledger_ack i uid (this_time w) L))"
    "store_ok w' (after (this_link w) L (snd (ledger_ack i uid (this_time w) L)))"
    using assms(3) store_step_frame(1) by auto
  then show ?thesis
    by (auto simp: ledger_ack_def ledger_update_def after_def split: option.splits if_splits)
qed

theorem ack_by_recipient_witness:
  "\<exists>w' L'. run redis_call (bind (createMessage 1 2 ''hi'' ''c1'') (\<lambda>_. markAcked 1 3)) (demo_world 0 1000) = (False, w') \<and>
    store_ok w' L' \<and> status (the (msgs L' 1)) = Pending"
proof -
  obtain res w L where c: "run redis_call (createMessage 1 2 ''hi'' ''c1'') (demo_world 0 1000) = (res, w)"
    and w: "store_ok w L" and L: "msgs L = [1 \<mapsto> new_record 1 1 2 ''hi'' ''c1'' 1000]"
    by (rule demo_message [of 0 1000 1]) simp_all
  obtain b w' where "run redis_call (markAcked 1 3) w = (b, w')" by force
  then show ?thesis
    using ack_by_recipient [OF reference.redis_server_axioms w, of 1 3] c L by (auto simp: new_record_def)
qed

section \<open>Queries\<close>

text \<open>
  \<^verbatim>\<open>getPendingMessages\<close> changes nothing and never returns a message that is not a Pending message
  of that user.  When all its commands are answered it returns every one of them exactly once, in the
  order of creation time.
\<close>

lemma pending_query:
  assumes "redis_server call" "store_ok w L" "run call (getPendingMessages uid) w = (rs, w')"
  shows "set rs \<subseteq> {parsed r | r i. msgs L i = Some r \<and> to_uid r = uid \<and> status r = Pending} \<and>
    w' = w\<lparr>requests := requests w'\<rparr> \<and>
    ((\<forall>k. link_of w k = Answered) \<longrightarrow>
       set rs = {parsed r | r i. msgs L i = Some r \<and> to_uid r = uid \<and> status r = Pending} \<and>
       distinct (map msg_id rs) \<and> sorted (map (\<lambda>r. unat (created_at_ms r)) rs))"
  by (rule redis_server.run_getPendingMessages [OF assms(1,2), of uid])
    (use assms(3) in \<open>auto simp: listing_def dest: sorted_fst\<close>)

text \<open>
  \<^verbatim>\<open>getTimeoutDeliveredMessages\<close> returns only messages that are Delivered and whose last delivery is
  at least the timeout ago, and all of them when its commands are answered.
\<close>

lemma timeout_query:
  assumes "redis_server call" "store_ok w L" "unat now_ms \<le> 2 ^ 53"
    "run call (getTimeoutDeliveredMessages now_ms timeout_ms) w = (rs, w')"
  shows "set rs \<subseteq> {parsed r | r i. msgs L i = Some r \<and> timed_out now_ms timeout_ms r} \<and>
    w' = w\<lparr>requests := requests w'\<rparr> \<and>
    ((\<forall>k. link_of w k = Answered) \<longrightarrow>
       set rs = {parsed r | r i. msgs L i = Some r \<and> timed_out now_ms timeout_ms r} \<and> distinct (map msg_id rs))"
  by (rule redis_server.run_getTimeoutDeliveredMessages [OF assms(1-3), of timeout_ms])
    (use assms(4) in \<open>auto simp: listing_def\<close>)

text \<open>
  \<^verbatim>\<open>getRecentMessages\<close> returns messages the user sent or received, and when its commands are answered
  exactly the newest \<^verbatim>\<open>limit\<close> of them, oldest first.
\<close>

lemma recent_query:
  assumes "redis_server call" "store_ok w L" "uid \<noteq> 0" "0 < limit" "limit \<le> 2 ^ 63"
    "run call (getRecentMessages uid limit) w = (rs, w')"
  shows "set rs \<subseteq> {parsed r | r i. msgs L i = Some r \<and> (from_uid r = uid \<or> to_uid r = uid)} \<and>
    w' = w\<lparr>requests := requests w'\<rparr> \<and>
    ((\<forall>k. link_of w k = Answered) \<longrightarrow> (\<exists>full. rs = drop (length full - limit) full \<and>
       set full = {parsed r | r i. msgs L i = Some r \<and> (from_uid r = uid \<or> to_uid r = uid)} \<and>
       distinct (map msg_id full) \<and> sorted (map (\<lambda>r. unat (created_at_ms r)) full)))"
  by (rule redis_server.run_getRecentMessages [OF assms(1-5)])
    (use assms(6) in \<open>auto simp: listing_def dest!: sorted_fst\<close>)

section \<open>Two behaviours to know about\<close>

text \<open>
  C36: Acked and Failed are not final in the store.  \<^verbatim>\<open>markDelivered\<close> on a message that is already
  acknowledged or Failed succeeds and makes it Delivered again, with the time of the call and every other field
  kept, and once the timeout has passed \<^verbatim>\<open>getTimeoutDeliveredMessages\<close> hands this record to the delivery
  thread as overdue.  What the thread does with it depends, as for any overdue message, on its retry counter and
  on whether its recipient is online.
\<close>

theorem terminal_overwritten:
  assumes server: "redis_server call" and ok: "store_ok w L" and r: "msgs L i = Some r"
    and final: "status r = Acked \<or> status r = Failed" and links: "\<forall>k. link_of w k = Answered"
    and times: "0 < this_time w" "this_time w + timeout_ms \<le> now_ms" "this_time w \<le> this_time w + timeout_ms"
      "unat now_ms \<le> 2 ^ 53"
  shows "\<exists>w1 rs w2 r'. run call (markDelivered i) w = (True, w1) \<and>
    run call (getTimeoutDeliveredMessages now_ms timeout_ms) w1 = (rs, w2) \<and>
    r' \<in> set rs \<and> msg_id r' = i \<and> r' = parsed (r\<lparr>status := Delivered, delivered_at_ms := this_time w\<rparr>)"
proof -
  let ?r = "r\<lparr>status := Delivered, delivered_at_ms := this_time w\<rparr>"
  let ?L = "L\<lparr>msgs := (msgs L)(i \<mapsto> ?r)\<rparr>"
  obtain w1 where m: "run call (markDelivered i) w = (True, w1)" and s: "store_step 1 w ?L w1"
    using redis_server.run_markDelivered [OF server ok, of i] links r
    by (auto simp: after_def ledger_deliver_def ledger_update_def)
  have "unat (this_time w + timeout_ms) = unat (this_time w) + unat timeout_ms"
    using times(3) unat_plus_simple by blast
  then have "timed_out now_ms timeout_ms ?r"
    using times(1,2) by (auto simp: timed_out_def word_le_nat_alt word_less_nat_alt unat_sub)
  then have "parsed ?r \<in> {parsed q | q j. msgs ?L j = Some q \<and> timed_out now_ms timeout_ms q}" by auto
  moreover obtain rs n where q: "run call (getTimeoutDeliveredMessages now_ms timeout_ms) w1 = (rs, w1\<lparr>requests := n\<rparr>)"
    "(\<forall>k. link_of w1 k = Answered) \<Longrightarrow> listing ?L (timed_out now_ms timeout_ms) delivered_at_ms rs"
    by (rule redis_server.run_getTimeoutDeliveredMessages [OF server store_step_frame(1) [OF s] times(4), of timeout_ms]) blast
  ultimately have "parsed ?r \<in> set rs" using links store_step_frame(3) [OF s] by (simp add: listing_def)
  then show ?thesis using m q(1) ledger_okD(1) [OF store_okD(2) [OF ok] r] by fastforce
qed

text \<open>
  C39: the order in which \<^verbatim>\<open>getPendingMessages\<close> returns the Pending messages of a user, with Redis
  answering: by creation time, and for one and the same millisecond by the decimal text of their identifiers.
  So of two messages of one millisecond the one whose identifier comes first as a text comes first in the list,
  whatever the order in which the identifiers were drawn: message 10 before message 9.
\<close>

theorem same_ms_order:
  assumes server: "redis_server call" and ok: "store_ok w L" and links: "\<forall>k. link_of w k = Answered"
    and i: "msgs L i = Some ri" "to_uid ri = uid" "status ri = Pending"
    and j: "msgs L j = Some rj" "to_uid rj = uid" "status rj = Pending"
    and same: "created_at_ms ri = created_at_ms rj" and lex: "to_string i < to_string j"
    and run: "run call (getPendingMessages uid) w = (rs, w')"
  shows "sorted (map (\<lambda>r. (unat (created_at_ms r), to_string (msg_id r))) rs) \<and>
    (\<exists>p q. p < q \<and> q < length rs \<and> rs ! p = parsed ri \<and> rs ! q = parsed rj \<and> msg_id (rs ! p) = i \<and> msg_id (rs ! q) = j)"
proof -
  obtain rs' n where "run call (getPendingMessages uid) w = (rs', w\<lparr>requests := n\<rparr>)"
    "(\<forall>k. link_of w k = Answered) \<Longrightarrow> listing L (\<lambda>r. to_uid r = uid \<and> status r = Pending) created_at_ms rs'"
    by (rule redis_server.run_getPendingMessages [OF server ok, of uid]) blast
  then have list: "listing L (\<lambda>r. to_uid r = uid \<and> status r = Pending) created_at_ms rs" using run links by simp
  then have "parsed ri \<in> set rs" "parsed rj \<in> set rs" using i j by (auto simp: listing_def)
  then obtain p q where p: "p < length rs" "rs ! p = parsed ri" and q: "q < length rs" "rs ! q = parsed rj"
    by (metis in_set_conv_nth)
  have ids: "msg_id ri = i" "msg_id rj = j"
    using ledger_okD(1) [OF store_okD(2) [OF ok]] i(1) j(1) by blast+
  have sorted: "sorted (map (\<lambda>r. (unat (created_at_ms r), to_string (msg_id r))) rs)"
    using list by (simp add: listing_def)
  then have "\<not> q \<le> p"
    using p q ids same lex sorted_nth_mono [of "map (\<lambda>r. (unat (created_at_ms r), to_string (msg_id r))) rs" q p]
    by auto
  then show ?thesis using sorted p q ids by (intro conjI exI [of _ p] exI [of _ q]) simp_all
qed

theorem terminal_overwritten_witness:
  "\<exists>w1 rs w2 r'. run redis_call (bind (createMessage 1 2 ''hi'' ''c1'') (\<lambda>_. bind (markAcked 1 2) (\<lambda>_. markDelivered 1)))
      (demo_world 0 1000) = (True, w1) \<and>
    run redis_call (getTimeoutDeliveredMessages 20000 10000) w1 = (rs, w2) \<and>
    r' \<in> set rs \<and> msg_id r' = 1 \<and> status r' = Delivered \<and> acked_at_ms r' = 1000"
proof -
  obtain res w L where c: "run redis_call (createMessage 1 2 ''hi'' ''c1'') (demo_world 0 1000) = (res, w)"
    and w: "store_ok w L" "\<forall>k. link_of w k = Answered" "\<forall>k. clock w k = 1000"
    and L: "msgs L = [1 \<mapsto> new_record 1 1 2 ''hi'' ''c1'' 1000]"
    by (rule demo_message [of 0 1000 1]) simp_all
  obtain w1 where a: "run redis_call (markAcked 1 2) w = (True, w1)"
    and s: "store_step 1 w (snd (ledger_ack 1 2 1000 L)) w1"
    using reference.run_markAcked [OF w(1), of 1 2] w(2,3) L
    by (auto simp: after_def ledger_ack_def ledger_update_def new_record_def)
  note f = store_step_frame [OF s]
  have "msgs (snd (ledger_ack 1 2 1000 L)) 1 = Some (new_record 1 1 2 ''hi'' ''c1'' 1000\<lparr>status := Acked, acked_at_ms := 1000\<rparr>)"
    by (simp add: ledger_ack_def ledger_update_def L new_record_def)
  from terminal_overwritten [OF reference.redis_server_axioms f(1) this, of 10000 20000] w(2,3) f
  obtain w2 rs w3 r' where d: "run redis_call (markDelivered 1) w1 = (True, w2)"
    "run redis_call (getTimeoutDeliveredMessages 20000 10000) w2 = (rs, w3)" "r' \<in> set rs" "msg_id r' = 1"
    and r': "r' = parsed (new_record 1 1 2 ''hi'' ''c1'' 1000\<lparr>acked_at_ms := 1000, status := Delivered, delivered_at_ms := 1000\<rparr>)"
    by (auto simp: word_le_nat_alt word_less_nat_alt)
  have "status r' = Delivered" "acked_at_ms r' = 1000" unfolding r' by simp_all
  with c a d show ?thesis by (intro exI [of _ w2] exI [of _ rs] exI [of _ w3] exI [of _ r']) simp
qed

text \<open>Messages 9 and 10, stored for user 2 in one millisecond.\<close>

lemma text_order: "to_string (10::u64) < to_string (9::u64)"
  by code_simp

lemma demo_two:
  obtains res w res2 w2 L where "run redis_call (createMessage 1 2 ''hi'' ''c1'') (demo_world 8 1000) = (res, w)"
    "run redis_call (createMessage 1 2 ''ho'' ''c2'') w = (res2, w2)" "store_ok w2 L" "next_id L = 10"
    "msgs L = [9 \<mapsto> new_record 9 1 2 ''hi'' ''c1'' 1000, 10 \<mapsto> new_record 10 1 2 ''ho'' ''c2'' 1000]"
    "\<forall>k. link_of w2 k = Answered" "users w2 = users (demo_world 8 1000)" "up w2 = up (demo_world 8 1000)"
proof -
  obtain res w L where c: "run redis_call (createMessage 1 2 ''hi'' ''c1'') (demo_world 8 1000) = (res, w)"
    and w: "store_ok w L" "\<forall>k. link_of w k = Answered" "\<forall>k. clock w k = 1000"
    and L: "msgs L = [9 \<mapsto> new_record 9 1 2 ''hi'' ''c1'' 1000]" "next_id L = 9"
    by (rule demo_message [of 8 1000 9]) simp_all
  let ?L = "snd (ledger_create 1 2 ''ho'' ''c2'' 1000 L)"
  have "idem L (1, ''c2'') \<noteq> Some i" for i
  proof
    assume "idem L (1, ''c2'') = Some i"
    then obtain r where "msgs L i = Some r" "client_msg_id r = ''c2''"
      using ledger_ok_idem [OF store_okD(2) [OF w(1)]] by metis
    then show False using L(1) by (auto simp: new_record_def split: if_splits)
  qed
  then have "idem L (1, ''c2'') = None" by (cases "idem L (1, ''c2'')") auto
  then have L2: "msgs ?L = [9 \<mapsto> new_record 9 1 2 ''hi'' ''c1'' 1000, 10 \<mapsto> new_record 10 1 2 ''ho'' ''c2'' 1000]"
      "next_id ?L = 10"
    by (simp_all add: ledger_create_def L Let_def)
  obtain res2 w2 where c2: "run redis_call (createMessage 1 2 ''ho'' ''c2'') w = (res2, w2)"
    and s: "store_step 1 w ?L w2"
    using reference.run_createMessage [OF w(1), of 1 2 "''ho''" "''c2''"] w(2,3) L(2) by (auto simp: after_def)
  note f = store_step_frame [OF s]
  have "users w = users (demo_world 8 1000)" "up w = up (demo_world 8 1000)"
    using demo_create [of 8 1000] c store_step_frame(6,7) by fastforce+
  then show ?thesis using that [OF c c2 f(1) L2(2,1)] w(2) f by simp
qed

theorem same_ms_order_witness:
  "\<exists>rs w' p q. run redis_call (bind (createMessage 1 2 ''hi'' ''c1'') (\<lambda>_. bind (createMessage 1 2 ''ho'' ''c2'') (\<lambda>_.
      getPendingMessages 2))) (demo_world 8 1000) = (rs, w') \<and> p < q \<and> q < length rs \<and>
    msg_id (rs ! p) = 10 \<and> msg_id (rs ! q) = 9"
proof -
  obtain res w res2 w2 L where c: "run redis_call (createMessage 1 2 ''hi'' ''c1'') (demo_world 8 1000) = (res, w)"
    "run redis_call (createMessage 1 2 ''ho'' ''c2'') w = (res2, w2)" and ok: "store_ok w2 L"
    and L: "msgs L = [9 \<mapsto> new_record 9 1 2 ''hi'' ''c1'' 1000, 10 \<mapsto> new_record 10 1 2 ''ho'' ''c2'' 1000]"
    and links: "\<forall>k. link_of w2 k = Answered"
    by (rule demo_two)
  have r: "msgs L 10 = Some (new_record 10 1 2 ''ho'' ''c2'' 1000)" "msgs L 9 = Some (new_record 9 1 2 ''hi'' ''c1'' 1000)"
    by (simp_all add: L)
  obtain rs w' where run: "run redis_call (getPendingMessages 2) w2 = (rs, w')" by force
  have "\<exists>p q. p < q \<and> q < length rs \<and> msg_id (rs ! p) = 10 \<and> msg_id (rs ! q) = 9"
    using same_ms_order [OF reference.redis_server_axioms ok links r(1) _ _ r(2) _ _ _ text_order run]
    by (fastforce simp: new_record_def)
  then show ?thesis using c run by simp
qed

end
