(* ===== verification/Codec.thy ===== *)
theory Codec
  imports Protocol
begin

text \<open>
  \<^verbatim>\<open>common/protocol/Codec.h\<close>: frames of a four byte big-endian length and a serialised envelope.

  Protobuf is generated code, so a \<open>platform\<close> carries \<^verbatim>\<open>SerializeToString\<close> and
  \<^verbatim>\<open>ParseFromArray\<close> as parameters, and the byte order of the host that \<^verbatim>\<open>htonl\<close>, \<^verbatim>\<open>ntohl\<close> and the
  two \<^verbatim>\<open>memcpy\<close> calls see.  What the codec relies on is \<open>protobuf_ok\<close>: parsing inverts
  serialising, and \<^verbatim>\<open>ParseFromArray(data, size)\<close> looks at the first \<^verbatim>\<open>size\<close> bytes only.
\<close>

datatype endian = LittleEndian | BigEndian

record platform =
  SerializeToString :: "Envelope \<Rightarrow> string option"
  ParseFromArray :: "string \<Rightarrow> int \<Rightarrow> Envelope option"
  host_order :: endian

definition protobuf_ok :: "platform \<Rightarrow> bool" where
  "protobuf_ok p \<longleftrightarrow>
     (\<forall>e b. SerializeToString p e = Some b \<longrightarrow> ParseFromArray p b (int (length b)) = Some e) \<and>
     (\<forall>s t n. 0 \<le> n \<longrightarrow> n \<le> int (length s) \<longrightarrow> ParseFromArray p (s @ t) n = ParseFromArray p s n)"

section \<open>Words in memory and on the wire\<close>

fun le_bytes :: "nat \<Rightarrow> nat \<Rightarrow> string" where
  "le_bytes 0 n = []"
| "le_bytes (Suc k) n = char_of n # le_bytes k (n div 256)"

fun le_value :: "string \<Rightarrow> nat" where
  "le_value [] = 0"
| "le_value (c # cs) = of_char c + 256 * le_value cs"

definition mem_bytes :: "endian \<Rightarrow> u32 \<Rightarrow> string" where
  "mem_bytes ord w = (case ord of
      LittleEndian \<Rightarrow> le_bytes 4 (unat w) | BigEndian \<Rightarrow> rev (le_bytes 4 (unat w)))"

definition mem_read :: "endian \<Rightarrow> string \<Rightarrow> u32" where
  "mem_read ord s = word_of_nat (le_value (case ord of LittleEndian \<Rightarrow> s | BigEndian \<Rightarrow> rev s))"

definition bswap32 :: "u32 \<Rightarrow> u32" where
  "bswap32 w = word_of_nat (le_value (rev (le_bytes 4 (unat w))))"

definition htonl :: "endian \<Rightarrow> u32 \<Rightarrow> u32" where
  "htonl ord w = (case ord of LittleEndian \<Rightarrow> bswap32 w | BigEndian \<Rightarrow> w)"

definition ntohl :: "endian \<Rightarrow> u32 \<Rightarrow> u32" where
  "ntohl ord w = (case ord of LittleEndian \<Rightarrow> bswap32 w | BigEndian \<Rightarrow> w)"

section \<open>MessageCodec\<close>

datatype DecodeStatus = kOk | kNeedMoreData | kInvalidLength | kParseError

record DecodeResult =
  decode_status :: DecodeStatus
  envelopes :: "Envelope list"
  consumed_bytes :: nat

definition kHeaderLength :: nat where
  "kHeaderLength = 4"

definition kDefaultMaxFrameLength :: nat where
  "kDefaultMaxFrameLength = 1024 * 1024"

definition Encode :: "platform \<Rightarrow> Envelope \<Rightarrow> string" where
  "Encode p envelope = (case SerializeToString p envelope of
      None \<Rightarrow> []
    | Some body \<Rightarrow>
        let body_length = word_of_nat (length body) :: u32;
            network_length = htonl (host_order p) body_length
        in mem_bytes (host_order p) network_length @ body)"

function DecodeLoop ::
    "platform \<Rightarrow> nat \<Rightarrow> string \<Rightarrow> nat \<Rightarrow> Envelope list \<Rightarrow> DecodeResult" where
  "DecodeLoop p max_frame_length data offset envs =
    (if offset < length data then
       let remaining_bytes = length data - offset in
       if remaining_bytes < kHeaderLength then
         \<lparr>decode_status = kNeedMoreData, envelopes = envs, consumed_bytes = offset\<rparr>
       else
         let network_length = mem_read (host_order p) (take kHeaderLength (drop offset data));
             body_length = ntohl (host_order p) network_length in
         if body_length = 0 \<or> max_frame_length < unat body_length then
           \<lparr>decode_status = kInvalidLength, envelopes = envs, consumed_bytes = offset\<rparr>
         else
           let frame_length = kHeaderLength + unat body_length in
           if remaining_bytes < frame_length then
             \<lparr>decode_status = kNeedMoreData, envelopes = envs, consumed_bytes = offset\<rparr>
           else (case ParseFromArray p (drop (offset + kHeaderLength) data) (sint body_length) of
               None \<Rightarrow> \<lparr>decode_status = kParseError, envelopes = envs, consumed_bytes = offset\<rparr>
             | Some envelope \<Rightarrow>
                 DecodeLoop p max_frame_length data (offset + frame_length) (envs @ [envelope]))
     else \<lparr>decode_status = kOk, envelopes = envs, consumed_bytes = offset\<rparr>)"
  by pat_completeness auto
termination
  by (relation "measure (\<lambda>(p, m, data, offset, envs). length data - offset)")
     (auto simp: kHeaderLength_def)

declare DecodeLoop.simps [simp del]

definition DecodeAll :: "platform \<Rightarrow> string \<Rightarrow> nat \<Rightarrow> DecodeResult" where
  "DecodeAll p data max_frame_length = DecodeLoop p max_frame_length data 0 []"

section \<open>Byte order\<close>

lemma length_le_bytes [simp]: "length (le_bytes k n) = k"
  by (induction k arbitrary: n) auto

lemma le_value_le_bytes: "le_value (le_bytes k n) = n mod 256 ^ k"
proof (induction k arbitrary: n)
  case (Suc k)
  then show ?case by (simp add: mod_mult2_eq)
qed simp

lemma le_bytes_le_value: "length s = k \<Longrightarrow> le_bytes k (le_value s) = s"
proof (induction s arbitrary: k)
  case (Cons c s)
  have "(of_char c + 256 * le_value s) mod 256 = (of_char c :: nat)"
    using nat_of_char_less_256 [of c] by simp
  then have "char_of (of_char c + 256 * le_value s :: nat) = c"
    by (metis char_of_mod_256 char_of_char)
  moreover have "(of_char c + 256 * le_value s :: nat) div 256 = le_value s"
    using nat_of_char_less_256 [of c] by simp
  ultimately show ?case using Cons by auto
qed simp

lemma le_value_bound: "le_value s < 256 ^ length s"
proof (induction s)
  case (Cons c s)
  then have "Suc (le_value s) \<le> 256 ^ length s" by simp
  then have "256 * Suc (le_value s) \<le> 256 * 256 ^ length s" by (rule mult_le_mono2)
  with nat_of_char_less_256 [of c] show ?case
    unfolding le_value.simps length_Cons power_Suc mult_Suc_right by linarith
qed simp

lemma le_value_word [simp]: "le_value (le_bytes 4 (unat (w :: u32))) = unat w"
  using unat_u32_bound [of w] by (simp add: le_value_le_bytes)

lemma unat_le_value: "length s = 4 \<Longrightarrow> unat (word_of_nat (le_value s) :: u32) = le_value s"
  using le_value_bound [of s] by (simp add: unat_of_nat_u32)

lemma mem_read_mem_bytes [simp]: "mem_read ord (mem_bytes ord w) = w"
  by (cases ord) (simp_all add: mem_read_def mem_bytes_def)

lemma bswap32_bytes: "le_bytes 4 (unat (bswap32 w)) = rev (le_bytes 4 (unat w))"
  by (simp add: bswap32_def unat_le_value le_bytes_le_value)

lemma bswap32_bswap32 [simp]: "bswap32 (bswap32 w) = w"
  unfolding bswap32_def [of "bswap32 w"] bswap32_bytes by simp

lemma ntohl_htonl [simp]: "ntohl ord (htonl ord w) = w"
  by (cases ord) (simp_all add: ntohl_def htonl_def)

text \<open>The four header bytes are the big-endian length whatever the host's byte order is.\<close>

lemma header_bytes: "mem_bytes ord (htonl ord w) = rev (le_bytes 4 (unat w))"
  by (cases ord) (simp_all add: mem_bytes_def htonl_def bswap32_bytes)

section \<open>The loop, one frame at a time\<close>

definition header_length :: "platform \<Rightarrow> string \<Rightarrow> u32" where
  "header_length p s = ntohl (host_order p) (mem_read (host_order p) (take kHeaderLength s))"

definition prepend :: "nat \<Rightarrow> Envelope list \<Rightarrow> DecodeResult \<Rightarrow> DecodeResult" where
  "prepend n envs r = \<lparr>decode_status = decode_status r, envelopes = envs @ envelopes r,
     consumed_bytes = n + consumed_bytes r\<rparr>"

lemma prepend_simps [simp]:
  "decode_status (prepend n es r) = decode_status r"
  "envelopes (prepend n es r) = es @ envelopes r"
  "consumed_bytes (prepend n es r) = n + consumed_bytes r"
  by (simp_all add: prepend_def)

lemma prepend_prepend [simp]: "prepend m es (prepend n fs r) = prepend (m + n) (es @ fs) r"
  by (simp add: prepend_def)

lemma prepend_record [simp]:
  "prepend n es \<lparr>decode_status = st, envelopes = fs, consumed_bytes = k\<rparr> =
   \<lparr>decode_status = st, envelopes = es @ fs, consumed_bytes = n + k\<rparr>"
  by (simp add: prepend_def)

lemma DecodeLoop_drop:
  "offset \<le> length data \<Longrightarrow>
   DecodeLoop p m data offset envs = prepend offset envs (DecodeLoop p m (drop offset data) 0 [])"
proof (induction "length data - offset" arbitrary: data offset envs rule: less_induct)
  case less
  let ?d = "drop offset data"
  let ?bl = "header_length p ?d"
  let ?fl = "kHeaderLength + unat ?bl"
  show ?case
  proof (cases "kHeaderLength \<le> length ?d \<and> ?bl \<noteq> 0 \<and> unat ?bl \<le> m \<and> ?fl \<le> length ?d")
    case False
    then show ?thesis
      by (auto simp: DecodeLoop.simps [of p m data offset] DecodeLoop.simps [of p m ?d 0]
          Let_def header_length_def)
  next
    case True
    show ?thesis
    proof (cases "ParseFromArray p (drop (offset + kHeaderLength) data) (sint ?bl)")
      case None
      with True show ?thesis
        by (auto simp: DecodeLoop.simps [of p m data offset] DecodeLoop.simps [of p m ?d 0]
            Let_def header_length_def add.commute)
    next
      case (Some e)
      have "DecodeLoop p m data (offset + ?fl) (envs @ [e]) =
            prepend (offset + ?fl) (envs @ [e]) (DecodeLoop p m (drop (offset + ?fl) data) 0 [])"
        using True less.prems by (intro less.hyps) (auto simp: kHeaderLength_def)
      moreover have "DecodeLoop p m ?d ?fl [e] =
            prepend ?fl [e] (DecodeLoop p m (drop ?fl ?d) 0 [])"
        using True less.prems by (intro less.hyps) (auto simp: kHeaderLength_def)
      ultimately show ?thesis using True Some
        by (auto simp: DecodeLoop.simps [of p m data offset] DecodeLoop.simps [of p m ?d 0]
            Let_def header_length_def add.commute add.left_commute)
    qed
  qed
qed

lemma DecodeAll_unfold:
  "DecodeAll p s m =
    (if s = [] then \<lparr>decode_status = kOk, envelopes = [], consumed_bytes = 0\<rparr>
     else if length s < 4 then \<lparr>decode_status = kNeedMoreData, envelopes = [], consumed_bytes = 0\<rparr>
     else if header_length p s = 0 \<or> m < unat (header_length p s)
       then \<lparr>decode_status = kInvalidLength, envelopes = [], consumed_bytes = 0\<rparr>
     else if length s < 4 + unat (header_length p s)
       then \<lparr>decode_status = kNeedMoreData, envelopes = [], consumed_bytes = 0\<rparr>
     else case ParseFromArray p (drop 4 s) (sint (header_length p s)) of
         None \<Rightarrow> \<lparr>decode_status = kParseError, envelopes = [], consumed_bytes = 0\<rparr>
       | Some e \<Rightarrow> prepend (4 + unat (header_length p s)) [e]
           (DecodeAll p (drop (4 + unat (header_length p s)) s) m))"
  unfolding DecodeAll_def
  by (subst DecodeLoop.simps)
     (auto simp: Let_def header_length_def kHeaderLength_def split: option.split
      intro!: DecodeLoop_drop)

lemma DecodeAll_Nil [simp]:
  "DecodeAll p [] m = \<lparr>decode_status = kOk, envelopes = [], consumed_bytes = 0\<rparr>"
  by (subst DecodeAll_unfold) simp

text \<open>
  Induction over the frames of a buffer: in the step the whole first frame is present.
\<close>

lemma frame_induct [case_names step]:
  assumes "\<And>s. (\<And>n. 4 < n \<Longrightarrow> n \<le> length s \<Longrightarrow> P (drop n s)) \<Longrightarrow> P s"
  shows "P (s :: string)"
proof (induction "length s" arbitrary: s rule: less_induct)
  case less
  show ?case by (rule assms) (auto intro!: less)
qed

section \<open>Frames\<close>

definition wire_frame :: "string \<Rightarrow> string" where
  "wire_frame body = rev (le_bytes 4 (length body)) @ body"

lemma length_wire_frame [simp]: "length (wire_frame b) = 4 + length b"
  by (simp add: wire_frame_def)

lemma wire_frame_nonempty [simp]: "wire_frame b \<noteq> []"
  by (metis length_wire_frame add_is_0 length_0_conv zero_neq_numeral)

lemma Encode_wire_frame:
  "SerializeToString p e = Some b \<Longrightarrow> length b < 2 ^ 32 \<Longrightarrow> Encode p e = wire_frame b"
  by (simp add: Encode_def Let_def wire_frame_def header_bytes unat_of_nat_u32)

lemma header_length_take: "header_length p (take n s) = header_length p s" if "4 \<le> n"
  using that by (simp add: header_length_def kHeaderLength_def min_def)

lemma header_length_wire_frame [simp]:
  "length b < 2 ^ 32 \<Longrightarrow> header_length p (wire_frame b @ s) = word_of_nat (length b)"
proof -
  assume "length b < 2 ^ 32"
  then have "rev (le_bytes 4 (length b)) =
      mem_bytes (host_order p) (htonl (host_order p) (word_of_nat (length b)))"
    by (simp add: header_bytes unat_of_nat_u32)
  moreover have "take 4 (wire_frame b @ s) = rev (le_bytes 4 (length b))"
    by (simp add: wire_frame_def)
  ultimately show ?thesis by (simp add: header_length_def kHeaderLength_def)
qed

lemma sint_word_of_nat_small: "n < 2 ^ 31 \<Longrightarrow> sint (word_of_nat n :: u32) = int n"
  by (metis One_nat_def cast_int_def cast_int_small of_int_of_nat_eq of_nat_0_le_iff
      of_nat_less_numeral_power_cancel_iff neg_le_0_iff_le order_trans zero_le_numeral zero_le_power)

text \<open>An envelope the codec can carry: it serialises to a body of legal length.\<close>

definition sendable :: "platform \<Rightarrow> nat \<Rightarrow> Envelope \<Rightarrow> bool" where
  "sendable p m e \<longleftrightarrow> (case SerializeToString p e of
      None \<Rightarrow> False | Some b \<Rightarrow> b \<noteq> [] \<and> length b \<le> m \<and> length b < 2 ^ 31)"

lemma protobuf_roundtrip:
  "protobuf_ok p \<Longrightarrow> SerializeToString p e = Some b \<Longrightarrow> ParseFromArray p b (int (length b)) = Some e"
  by (simp add: protobuf_ok_def)

lemma protobuf_local:
  "protobuf_ok p \<Longrightarrow> 0 \<le> n \<Longrightarrow> n \<le> int (length s) \<Longrightarrow>
   ParseFromArray p (s @ t) n = ParseFromArray p s n"
  by (simp add: protobuf_ok_def)

lemma sendableE:
  assumes "sendable p m e"
  obtains b where "SerializeToString p e = Some b" "b \<noteq> []" "length b \<le> m" "length b < 2 ^ 31"
  using assms by (auto simp: sendable_def split: option.splits)

lemma DecodeAll_Encode:
  assumes "protobuf_ok p" "sendable p m e"
  shows "DecodeAll p (Encode p e @ s) m = prepend (length (Encode p e)) [e] (DecodeAll p s m)"
proof -
  obtain b where b: "SerializeToString p e = Some b" "b \<noteq> []" "length b \<le> m" "length b < 2 ^ 31"
    using assms(2) by (rule sendableE)
  have "unat (word_of_nat (length b) :: u32) = length b" "(word_of_nat (length b) :: u32) \<noteq> 0"
    using b by (simp_all add: unat_of_nat_u32 word_of_nat_eq_0_iff_u32)
  moreover have "ParseFromArray p (b @ s) (int (length b)) = Some e"
    using protobuf_local [OF assms(1), of "int (length b)" b s] protobuf_roundtrip [OF assms(1) b(1)]
    by simp
  moreover have "drop 4 (wire_frame b @ s) = b @ s" by (simp add: wire_frame_def)
  ultimately show ?thesis
    using b by (subst DecodeAll_unfold) (simp add: Encode_wire_frame sint_word_of_nat_small)
qed

lemma header_length_append: "4 \<le> length s \<Longrightarrow> header_length p (s @ t) = header_length p s"
  by (simp add: header_length_def kHeaderLength_def)

lemma header_length_bytes:
  assumes "4 \<le> length s"
  shows "take 4 s = rev (le_bytes 4 (unat (header_length p s)))"
proof -
  have len: "length (take 4 s) = 4" using assms by simp
  have "le_bytes 4 (unat (mem_read ord (take 4 s))) =
        (case ord of LittleEndian \<Rightarrow> take 4 s | BigEndian \<Rightarrow> rev (take 4 s))" for ord
    using len by (cases ord) (simp_all add: mem_read_def unat_le_value le_bytes_le_value)
  then show ?thesis
    by (cases "host_order p")
       (simp_all add: header_length_def kHeaderLength_def ntohl_def bswap32_bytes)
qed

lemma first_frame:
  assumes "4 + unat (header_length p s) \<le> length s"
  shows "s = wire_frame (take (unat (header_length p s)) (drop 4 s)) @ drop (4 + unat (header_length p s)) s"
proof -
  let ?n = "unat (header_length p s)"
  have "wire_frame (take ?n (drop 4 s)) = take 4 s @ take ?n (drop 4 s)"
    using assms header_length_bytes [of s p] by (simp add: wire_frame_def min_absorb2)
  also have "\<dots> = take (4 + ?n) s" by (simp add: take_add)
  finally show ?thesis by simp
qed

text \<open>What a decoded buffer looks like: whole legal frames, then a rest that explains the status.\<close>

definition decodes_as ::
    "platform \<Rightarrow> nat \<Rightarrow> string \<Rightarrow> DecodeResult \<Rightarrow> string list \<Rightarrow> string \<Rightarrow> bool" where
  "decodes_as p m s r bodies rest \<longleftrightarrow>
     s = concat (map wire_frame bodies) @ rest \<and>
     consumed_bytes r = length (concat (map wire_frame bodies)) \<and>
     list_all2 (\<lambda>b e. b \<noteq> [] \<and> length b \<le> m \<and> ParseFromArray p b (int (length b)) = Some e)
       bodies (envelopes r) \<and>
     (case decode_status r of
        kOk \<Rightarrow> rest = []
      | kNeedMoreData \<Rightarrow> rest \<noteq> [] \<and> (length rest < 4 \<or>
          0 < unat (header_length p rest) \<and> unat (header_length p rest) \<le> m \<and>
          length rest < 4 + unat (header_length p rest))
      | kInvalidLength \<Rightarrow> 4 \<le> length rest \<and>
          (unat (header_length p rest) = 0 \<or> m < unat (header_length p rest))
      | kParseError \<Rightarrow> (\<exists>b rest'. rest = wire_frame b @ rest' \<and> b \<noteq> [] \<and> length b \<le> m \<and>
          ParseFromArray p b (int (length b)) = None))"

lemma decodes_as_frame:
  assumes "decodes_as p m s r bodies rest" "b \<noteq> []" "length b \<le> m"
    "ParseFromArray p b (int (length b)) = Some e"
  shows "decodes_as p m (wire_frame b @ s) (prepend (4 + length b) [e] r) (b # bodies) rest"
  using assms by (auto simp: decodes_as_def)

lemma DecodeAll_decodes:
  assumes "protobuf_ok p" "m < 2 ^ 31"
  shows "\<exists>bodies rest. decodes_as p m s (DecodeAll p s m) bodies rest"
proof (induction s rule: frame_induct)
  case (step s)
  let ?n = "unat (header_length p s)"
  let ?b = "take ?n (drop 4 s)"
  have whole: "\<exists>bodies rest. decodes_as p m s (DecodeAll p s m) bodies rest"
    if "\<exists>rest. decodes_as p m s (DecodeAll p s m) [] rest" using that by blast
  show ?case
  proof (cases "4 \<le> length s \<and> ?n \<noteq> 0 \<and> ?n \<le> m \<and> 4 + ?n \<le> length s")
    case False
    then show ?thesis
      by (intro whole exI [of _ s], subst DecodeAll_unfold)
         (auto simp: decodes_as_def unat_eq_0)
  next
    case True
    then have s: "s = wire_frame ?b @ drop (4 + ?n) s" by (intro first_frame) simp
    have b: "?b \<noteq> []" "length ?b = ?n" "length ?b \<le> m" using True by auto
    have "sint (header_length p s) = int ?n"
      using sint_word_of_nat_small [of ?n] True assms(2) by simp
    moreover have "ParseFromArray p (drop 4 s) (int ?n) = ParseFromArray p ?b (int ?n)"
      using protobuf_local [OF assms(1), of "int ?n" ?b "drop ?n (drop 4 s)"] b
      unfolding append_take_drop_id by simp
    ultimately have D: "DecodeAll p s m = (case ParseFromArray p ?b (int ?n) of
        None \<Rightarrow> \<lparr>decode_status = kParseError, envelopes = [], consumed_bytes = 0\<rparr>
      | Some e \<Rightarrow> prepend (4 + ?n) [e] (DecodeAll p (drop (4 + ?n) s) m))"
      using True by (subst DecodeAll_unfold) (auto simp: unat_eq_0 split: option.splits)
    show ?thesis
    proof (cases "ParseFromArray p ?b (int ?n)")
      case None
      then have "\<exists>b rest. s = wire_frame b @ rest \<and> b \<noteq> [] \<and> length b \<le> m \<and>
          ParseFromArray p b (int (length b)) = None"
        using b s by (intro exI [of _ ?b] exI [of _ "drop (4 + ?n) s"]) simp
      then show ?thesis using D None by (intro whole exI [of _ s]) (simp add: decodes_as_def)
    next
      case (Some e)
      obtain bodies rest where
        "decodes_as p m (drop (4 + ?n) s) (DecodeAll p (drop (4 + ?n) s) m) bodies rest"
        using step [of "4 + ?n"] True by auto
      from decodes_as_frame [OF this b(1,3)] have
        "decodes_as p m (wire_frame ?b @ drop (4 + ?n) s) (DecodeAll p s m) (?b # bodies) rest"
        using Some D b(2) by simp
      then show ?thesis using s by metis
    qed
  qed
qed

section \<open>Splitting the stream\<close>

lemma DecodeAll_append:
  assumes "protobuf_ok p" "m < 2 ^ 31"
  shows "DecodeAll p (s @ t) m = prepend (consumed_bytes (DecodeAll p s m)) (envelopes (DecodeAll p s m))
       (DecodeAll p (drop (consumed_bytes (DecodeAll p s m)) s @ t) m)"
proof (induction s rule: frame_induct)
  case (step s)
  let ?n = "unat (header_length p s)"
  show ?case
  proof (cases "4 \<le> length s \<and> ?n \<noteq> 0 \<and> ?n \<le> m \<and> 4 + ?n \<le> length s \<and>
      ParseFromArray p (drop 4 s) (sint (header_length p s)) \<noteq> None")
    case False
    then have "consumed_bytes (DecodeAll p s m) = 0" "envelopes (DecodeAll p s m) = []"
      by (subst DecodeAll_unfold; auto simp: unat_eq_0 split: option.split)+
    then show ?thesis by (simp add: prepend_def)
  next
    case True
    then obtain e where e: "ParseFromArray p (drop 4 s) (sint (header_length p s)) = Some e" by blast
    have "sint (header_length p s) = int ?n"
      using sint_word_of_nat_small [of ?n] True assms(2) by simp
    moreover have "?n \<le> length (drop 4 s)" unfolding length_drop using True by linarith
    then have "int ?n \<le> int (length (drop 4 s))" by (simp only: of_nat_le_iff)
    ultimately have loc: "ParseFromArray p (drop 4 s @ t) (sint (header_length p s)) =
        ParseFromArray p (drop 4 s) (sint (header_length p s))"
      by (simp only: protobuf_local [OF assms(1)] of_nat_0_le_iff)
    let ?D = "DecodeAll p (drop (4 + ?n) s) m"
    have D: "DecodeAll p s m = prepend (4 + ?n) [e] ?D"
      using True e by (subst DecodeAll_unfold) (auto simp: unat_eq_0)
    have "DecodeAll p (s @ t) m = prepend (4 + ?n) [e] (DecodeAll p (drop (4 + ?n) s @ t) m)"
      using True e loc by (subst DecodeAll_unfold) (auto simp: unat_eq_0 header_length_append)
    also have "DecodeAll p (drop (4 + ?n) s @ t) m = prepend (consumed_bytes ?D) (envelopes ?D)
        (DecodeAll p (drop (consumed_bytes ?D) (drop (4 + ?n) s) @ t) m)"
      using True by (intro step) auto
    finally show ?thesis by (simp add: D add.commute)
  qed
qed

lemma DecodeAll_cases:
  obtains (stop) st where
      "DecodeAll p s m = \<lparr>decode_status = st, envelopes = [], consumed_bytes = 0\<rparr>" "st = kOk \<longleftrightarrow> s = []"
  | (frame) n e where "4 < n" "n \<le> length s"
      "DecodeAll p s m = prepend n [e] (DecodeAll p (drop n s) m)"
proof (cases "4 \<le> length s \<and> header_length p s \<noteq> 0 \<and> unat (header_length p s) \<le> m \<and>
    4 + unat (header_length p s) \<le> length s \<and>
    ParseFromArray p (drop 4 s) (sint (header_length p s)) \<noteq> None")
  case True
  then show thesis
    by (intro frame [of "4 + unat (header_length p s)"
          "the (ParseFromArray p (drop 4 s) (sint (header_length p s)))"])
       (auto simp: DecodeAll_unfold [of p s] unat_gt_0)
next
  case False
  then show thesis
    by (intro stop [of "decode_status (DecodeAll p s m)"]) (auto simp: DecodeAll_unfold [of p s] split: option.split)
qed

lemma consumed_le: "consumed_bytes (DecodeAll p s m) \<le> length s"
proof (induction s rule: frame_induct)
  case (step s)
  show ?case
  proof (cases rule: DecodeAll_cases [of p s m])
    case (frame n e)
    then show ?thesis using step [of n] by simp
  qed simp
qed

lemma kOk_consumed: "decode_status (DecodeAll p s m) = kOk \<longleftrightarrow> consumed_bytes (DecodeAll p s m) = length s"
proof (induction s rule: frame_induct)
  case (step s)
  show ?case
  proof (cases rule: DecodeAll_cases [of p s m])
    case (frame n e)
    then show ?thesis using step [of n] by auto
  qed auto
qed

lemma DecodeAll_incomplete:
  assumes "k < 4 + length b" "0 < k" "b \<noteq> []" "length b \<le> m" "length b < 2 ^ 31"
  shows "DecodeAll p (take k (wire_frame b)) m =
    \<lparr>decode_status = kNeedMoreData, envelopes = [], consumed_bytes = 0\<rparr>"
proof (cases "k < 4")
  case False
  then have "header_length p (take k (wire_frame b)) = word_of_nat (length b)"
    using assms header_length_wire_frame [of b p "[]"] by (simp add: header_length_take)
  moreover have "(word_of_nat (length b) :: u32) \<noteq> 0" "unat (word_of_nat (length b) :: u32) = length b"
    using assms by (simp_all add: unat_of_nat_u32 word_of_nat_eq_0_iff_u32)
  ultimately show ?thesis using assms False by (subst DecodeAll_unfold) simp
qed (use assms in \<open>subst DecodeAll_unfold, simp\<close>)

lemma DecodeAll_frames:
  assumes "protobuf_ok p" "\<forall>e \<in> set es. sendable p m e"
  shows "DecodeAll p (concat (map (Encode p) es) @ s) m =
     prepend (length (concat (map (Encode p) es))) es (DecodeAll p s m)"
  using assms(2) by (induction es) (simp_all add: DecodeAll_Encode [OF assms(1)] prepend_def)

section \<open>Tabulated serialisers\<close>

text \<open>
  A platform whose protobuf functions are given by a finite table of bodies and envelopes.  It
  satisfies \<open>protobuf_ok\<close>, so the statements about the codec are not empty, and it runs.
\<close>

definition table_platform :: "endian \<Rightarrow> (string \<times> Envelope) list \<Rightarrow> platform" where
  "table_platform ord tbl = \<lparr>
     SerializeToString = (\<lambda>e. map_of (map prod.swap tbl) e),
     ParseFromArray = (\<lambda>s n. if 0 \<le> n then map_of tbl (take (nat n) s) else None),
     host_order = ord\<rparr>"

lemma table_platform_ok:
  assumes "distinct (map fst tbl)"
  shows "protobuf_ok (table_platform ord tbl)"
  using assms by (auto simp: protobuf_ok_def table_platform_def map_of_eq_Some_iff dest!: map_of_SomeD)

section \<open>Properties of the codec\<close>

text \<open>
  C12: every sequence of envelopes that fit a frame is recovered from the concatenation
  of their frames, in order and to the last byte, on a host of either byte order.
\<close>

theorem codec_roundtrip:
  assumes "protobuf_ok p" "\<forall>e \<in> set es. sendable p m e"
  shows "DecodeAll p (concat (map (Encode p) es)) m =
    \<lparr>decode_status = kOk, envelopes = es, consumed_bytes = length (concat (map (Encode p) es))\<rparr>"
  using DecodeAll_frames [OF assms, of "[]"] by simp

definition demo_ack :: "nat \<Rightarrow> Envelope" where
  "demo_ack n = CreateAck 7 (word_of_nat n) 1 True []"

definition demo_platform :: platform where
  "demo_platform = table_platform LittleEndian [(''A'', demo_ack 2), (''BC'', demo_ack 3)]"

lemma demo_platform_ok [simp]: "protobuf_ok demo_platform"
  by (simp add: demo_platform_def table_platform_ok)

lemma demo_serialize [simp]:
  "SerializeToString demo_platform (demo_ack 2) = Some ''A''"
  "SerializeToString demo_platform (demo_ack 3) = Some ''BC''"
  by (simp_all add: demo_platform_def table_platform_def demo_ack_def CreateAck_def)

theorem codec_roundtrip_witness:
  "DecodeAll demo_platform (concat (map (Encode demo_platform) [demo_ack 2, demo_ack 3])) 1024 =
    \<lparr>decode_status = kOk, envelopes = [demo_ack 2, demo_ack 3], consumed_bytes = 11\<rparr>"
proof -
  have "\<forall>e \<in> set [demo_ack 2, demo_ack 3]. sendable demo_platform 1024 e"
    by (simp add: sendable_def)
  from codec_roundtrip [OF demo_platform_ok this] show ?thesis
    by (simp add: Encode_wire_frame)
qed

text \<open>
  C19: decoding does not depend on how TCP cuts the stream.  Decoding \<open>s\<close> followed by \<open>t\<close>
  gives the envelopes of \<open>s\<close> and then what decoding the bytes left over from \<open>s\<close> together with \<open>t\<close> gives, with the consumed bytes added up.
\<close>

theorem decode_split:
  assumes "protobuf_ok p" "m < 2 ^ 31"
    and "r = DecodeAll p s m" "r' = DecodeAll p (drop (consumed_bytes r) s @ t) m"
  shows "DecodeAll p (s @ t) m =
    \<lparr>decode_status = decode_status r', envelopes = envelopes r @ envelopes r',
     consumed_bytes = consumed_bytes r + consumed_bytes r'\<rparr>"
  using DecodeAll_append [of p m s t] assms by (simp add: prepend_def)

theorem decode_split_witness:
  "DecodeAll demo_platform (Encode demo_platform (demo_ack 3) @ ''x'') 1024 =
    \<lparr>decode_status = kNeedMoreData, envelopes = [demo_ack 3], consumed_bytes = 6\<rparr>"
proof -
  have "sendable demo_platform 1024 (demo_ack 3)" by (simp add: sendable_def)
  from DecodeAll_Encode [OF demo_platform_ok this, of "[]"]
  have r: "DecodeAll demo_platform (Encode demo_platform (demo_ack 3)) 1024 =
      \<lparr>decode_status = kOk, envelopes = [demo_ack 3], consumed_bytes = 6\<rparr>"
    by (simp add: Encode_wire_frame)
  have "DecodeAll demo_platform (drop 6 (Encode demo_platform (demo_ack 3)) @ ''x'') 1024 =
      \<lparr>decode_status = kNeedMoreData, envelopes = [], consumed_bytes = 0\<rparr>"
    by (subst DecodeAll_unfold) (simp add: Encode_wire_frame)
  then show ?thesis
    using decode_split [OF demo_platform_ok _ r [symmetric] refl, of "''x''"] by simp
qed

text \<open>
  A frame cut off anywhere before its last byte is neither consumed nor reported as an
  error: the decoder asks for more data.
\<close>

lemma decode_partial:
  assumes "sendable p m e" "0 < k" "k < length (Encode p e)"
  shows "DecodeAll p (take k (Encode p e)) m =
    \<lparr>decode_status = kNeedMoreData, envelopes = [], consumed_bytes = 0\<rparr>"
proof -
  obtain b where b: "SerializeToString p e = Some b" "b \<noteq> []" "length b \<le> m" "length b < 2 ^ 31"
    using assms(1) by (rule sendableE)
  then have E: "Encode p e = wire_frame b" by (simp add: Encode_wire_frame)
  show ?thesis using assms(2,3) b unfolding E by (intro DecodeAll_incomplete) simp_all
qed

text \<open>
  C20: whatever bytes arrive, the decoder consumes a whole number of frames of legal length
  from the front of the buffer, the envelopes it returns are the parsed bodies of exactly these
  frames, and its status says why it stopped: nothing is left, the rest is the beginning of a
  legal frame, the rest starts with an illegal length, or the next whole frame does not parse.
\<close>

theorem decode_sound:
  assumes "protobuf_ok p" "m < 2 ^ 31"
  shows "\<exists>bodies rest. decodes_as p m s (DecodeAll p s m) bodies rest"
  by (rule DecodeAll_decodes [OF assms])

theorem decode_sound_witness:
  "\<exists>bodies rest. decodes_as demo_platform 1024 ''ab''
     (DecodeAll demo_platform ''ab'' 1024) bodies rest"
  by (rule decode_sound) simp_all

text \<open>
  C40: \<^verbatim>\<open>Encode\<close> does not check the frame limit that \<^verbatim>\<open>DecodeAll\<close> enforces.  A body that
  is empty or longer than the limit is framed all the same, and the peer rejects that frame as a
  protocol error instead of delivering it or what follows it.
\<close>

theorem encode_unchecked:
  assumes "SerializeToString p e = Some b" "b = [] \<or> m < length b" "length b < 2 ^ 32"
  shows "Encode p e \<noteq> [] \<and> DecodeAll p (Encode p e @ s) m =
    \<lparr>decode_status = kInvalidLength, envelopes = [], consumed_bytes = 0\<rparr>"
  using assms by (subst DecodeAll_unfold)
    (auto simp: Encode_wire_frame unat_of_nat_u32 word_of_nat_eq_0_iff_u32)

theorem encode_unchecked_witness:
  "Encode demo_platform (demo_ack 3) \<noteq> [] \<and>
   DecodeAll demo_platform (Encode demo_platform (demo_ack 3) @ ''rest'') 1 =
    \<lparr>decode_status = kInvalidLength, envelopes = [], consumed_bytes = 0\<rparr>"
  by (rule encode_unchecked [of _ _ "''BC''"]) simp_all

end
