(* ===== verification/Thread_Pool.thy ===== *)
theory Thread_Pool
  imports Prelude
begin

unbundle bit_operations_syntax

text \<open>
  \<^verbatim>\<open>server/include/ShardedThreadPool.h\<close>: a fixed set of workers, each with its own queue; a task goes to
  the worker its key hashes to.

  The pool is a state machine whose steps are what one thread does between two points where another
  can get in: a critical section of a worker's mutex, a change of the atomic \<^verbatim>\<open>stopped_\<close>, a
  notification, a blocking \<^verbatim>\<open>wait\<close>.  Waiting on a condition variable is two steps, as in the C++ memory
  model: the predicate is evaluated with the mutex held (\<open>Checked\<close>), and only then does the worker
  release the mutex and block (\<open>Waiting\<close>).  A notification wakes a worker that blocks and is lost
  otherwise; a worker that blocks may also wake up for no reason (\<open>spurious\<close>).  \<open>accepted\<close> and \<open>finished\<close> are history variables: the tasks for which \<^verbatim>\<open>submit\<close>
  returned true, and the tasks a worker has executed.
\<close>

section \<open>The shard of a key\<close>

definition mix_key :: "u64 \<Rightarrow> u64" where
  "mix_key key =
    (let k1 = key XOR drop_bit 33 key;
         k2 = k1 * 0xff51afd7ed558ccd;
         k3 = k2 XOR drop_bit 33 k2;
         k4 = k3 * 0xc4ceb9fe1a85ec53
     in k4 XOR drop_bit 33 k4)"

definition shard_of :: "nat \<Rightarrow> u64 \<Rightarrow> nat" where
  "shard_of worker_count key = unat (mix_key key) mod worker_count"

section \<open>State\<close>

datatype 't WorkerThread =
    NotStarted
  | AtLock
  | Checked
  | Waiting
  | Running 't
  | Exited

record 't Worker =
  tasks :: "'t list"
  thread :: "'t WorkerThread"
  finished :: "'t list"

datatype StopCall = NotStopping | Notifying nat | Joining nat

record 't ShardedThreadPool =
  workers :: "'t Worker list"
  stopped :: bool
  unnotified :: "nat list"
  stop_call :: StopCall
  accepted :: "'t list"

type_synonym 'a task = "u64 \<times> 'a"

definition new_Worker :: "'t Worker" where
  "new_Worker = \<lparr>tasks = [], thread = NotStarted, finished = []\<rparr>"

definition new_ShardedThreadPool :: "nat \<Rightarrow> 't ShardedThreadPool" where
  "new_ShardedThreadPool worker_count =
     \<lparr>workers = replicate worker_count new_Worker, stopped = True, unnotified = [],
      stop_call = NotStopping, accepted = []\<rparr>"

definition upd_worker ::
    "nat \<Rightarrow> ('t Worker \<Rightarrow> 't Worker) \<Rightarrow> 't ShardedThreadPool \<Rightarrow> 't ShardedThreadPool" where
  "upd_worker i f p = p\<lparr>workers := (workers p)[i := f (workers p ! i)]\<rparr>"

section \<open>Operations\<close>

text \<open>\<^verbatim>\<open>start()\<close>: from the stopped state only; every worker gets a thread at the top of its loop.\<close>

definition start :: "'t ShardedThreadPool \<Rightarrow> 't ShardedThreadPool" where
  "start p = (if \<not> stopped p then p
     else p\<lparr>stopped := False, workers := map (\<lambda>w. w\<lparr>thread := AtLock\<rparr>) (workers p)\<rparr>)"

text \<open>
  The critical section of \<^verbatim>\<open>submit()\<close>, with both of its checks; \<^verbatim>\<open>None\<close> while the chosen worker holds
  its own mutex.  The notification after it is the step \<open>notify_one\<close>.
\<close>

definition submit :: "'a task \<Rightarrow> 'a task ShardedThreadPool \<Rightarrow> (bool \<times> 'a task ShardedThreadPool) option"
where
  "submit t p =
    (if stopped p \<or> workers p = [] then Some (False, p)
     else let i = shard_of (length (workers p)) (fst t) in
       if thread (workers p ! i) = Checked then None
       else Some (True, (upd_worker i (\<lambda>w. w\<lparr>tasks := tasks w @ [t]\<rparr>) p)
              \<lparr>unnotified := unnotified p @ [i], accepted := accepted p @ [t]\<rparr>))"

definition wake :: "'t Worker \<Rightarrow> 't Worker" where
  "wake w = (if thread w = Waiting then w\<lparr>thread := AtLock\<rparr> else w)"

definition getQueueSizes :: "'t ShardedThreadPool \<Rightarrow> nat list" where
  "getQueueSizes p = map (\<lambda>w. length (tasks w)) (workers p)"

text \<open>One step of a worker's loop; \<open>None\<close> where the thread cannot move by itself.\<close>

definition worker_step :: "bool \<Rightarrow> 't Worker \<Rightarrow> 't Worker option" where
  "worker_step stop_flag w = (case thread w of
      AtLock \<Rightarrow>
        (case tasks w of
           t # ts \<Rightarrow> Some (w\<lparr>tasks := ts, thread := Running t\<rparr>)
         | [] \<Rightarrow> Some (w\<lparr>thread := (if stop_flag then Exited else Checked)\<rparr>))
    | Checked \<Rightarrow> Some (w\<lparr>thread := Waiting\<rparr>)
    | Running t \<Rightarrow> Some (w\<lparr>thread := AtLock, finished := finished w @ [t]\<rparr>)
    | _ \<Rightarrow> None)"

text \<open>\<^verbatim>\<open>join()\<close> does not wait for a thread that has ended or was never started.\<close>

definition halted :: "'t Worker \<Rightarrow> bool" where
  "halted w \<longleftrightarrow> thread w = Exited \<or> thread w = NotStarted"

text \<open>
  \<^verbatim>\<open>stop()\<close>: store the flag, notify the workers one after the other, join them one after the other.
\<close>

definition stop_step :: "'t ShardedThreadPool \<Rightarrow> 't ShardedThreadPool option" where
  "stop_step p = (case stop_call p of
      NotStopping \<Rightarrow> Some (p\<lparr>stopped := True, stop_call := Notifying 0\<rparr>)
    | Notifying i \<Rightarrow>
        if i < length (workers p) then Some ((upd_worker i wake p)\<lparr>stop_call := Notifying (Suc i)\<rparr>)
        else Some (p\<lparr>stop_call := Joining 0\<rparr>)
    | Joining i \<Rightarrow>
        if i < length (workers p) then
          (if halted (workers p ! i) then Some (p\<lparr>stop_call := Joining (Suc i)\<rparr>)
           else None)
        else Some (p\<lparr>stop_call := NotStopping\<rparr>))"

inductive pool_step :: "'a task ShardedThreadPool \<Rightarrow> 'a task ShardedThreadPool \<Rightarrow> bool" where
  start: "stop_call p = NotStopping \<Longrightarrow> pool_step p (start p)"
| submit: "submit t p = Some (ok, p') \<Longrightarrow> pool_step p p'"
| notify_one: "i \<in> set (unnotified p) \<Longrightarrow> pool_step p ((upd_worker i wake p)\<lparr>unnotified := remove1 i (unnotified p)\<rparr>)"
| worker: "i < length (workers p) \<Longrightarrow> worker_step (stopped p) (workers p ! i) = Some w \<Longrightarrow>
    pool_step p (p\<lparr>workers := (workers p)[i := w]\<rparr>)"
| stop: "stop_step p = Some p' \<Longrightarrow> pool_step p p'"

inductive pool_reachable :: "nat \<Rightarrow> 'a task ShardedThreadPool \<Rightarrow> bool" for n where
  init: "pool_reachable n (new_ShardedThreadPool n)"
| step: "pool_reachable n p \<Longrightarrow> pool_step p p' \<Longrightarrow> pool_reachable n p'"
| spurious: "pool_reachable n p \<Longrightarrow> pool_reachable n (upd_worker i wake p)"

section \<open>The invariant\<close>

definition in_hand :: "'t Worker \<Rightarrow> 't list" where
  "in_hand w = (case thread w of Running t \<Rightarrow> [t] | _ \<Rightarrow> [])"

definition worker_log :: "'t Worker \<Rightarrow> 't list" where
  "worker_log w = finished w @ in_hand w @ tasks w"

text \<open>
  Each worker's history is the accepted tasks of its shard, in order; a thread that has ended has an
  empty queue and the pool is stopped; \<^verbatim>\<open>stop()\<close> has passed only ended threads; a stopped pool with no
  \<^verbatim>\<open>stop()\<close> in progress has no live thread.
\<close>

definition pool_inv :: "nat \<Rightarrow> 'a task ShardedThreadPool \<Rightarrow> bool" where
  "pool_inv n p \<longleftrightarrow> length (workers p) = n \<and>
     (\<forall>i < n. worker_log (workers p ! i) = filter (\<lambda>t. shard_of n (fst t) = i) (accepted p)) \<and>
     (\<forall>i < n. halted (workers p ! i) \<longrightarrow> stopped p \<and> tasks (workers p ! i) = []) \<and>
     (stop_call p \<noteq> NotStopping \<longrightarrow> stopped p) \<and>
     (\<forall>j i. stop_call p = Joining j \<longrightarrow> i < j \<longrightarrow> i < n \<longrightarrow> halted (workers p ! i)) \<and>
     (stopped p \<longrightarrow> stop_call p = NotStopping \<longrightarrow> (\<forall>i < n. halted (workers p ! i)))"

lemma wake_simps [simp]:
  "worker_log (wake w) = worker_log w" "tasks (wake w) = tasks w" "finished (wake w) = finished w"
  "halted (wake w) = halted w"
  by (simp_all add: wake_def worker_log_def in_hand_def halted_def)

lemma upd_worker_simps [simp]:
  "stopped (upd_worker i f p) = stopped p" "stop_call (upd_worker i f p) = stop_call p"
  "accepted (upd_worker i f p) = accepted p" "unnotified (upd_worker i f p) = unnotified p"
  "length (workers (upd_worker i f p)) = length (workers p)"
  by (simp_all add: upd_worker_def)

lemma workers_upd_worker:
  "j < length (workers p) \<Longrightarrow>
   workers (upd_worker i f p) ! j = (if j = i then f (workers p ! i) else workers p ! j)"
  by (auto simp: upd_worker_def nth_list_update)

lemma worker_step_log: "worker_step b w = Some w' \<Longrightarrow> worker_log w' = worker_log w"
  by (auto simp: worker_step_def worker_log_def in_hand_def
      split: WorkerThread.splits list.splits if_splits)

lemma worker_step_live: "worker_step b w = Some w' \<Longrightarrow> \<not> halted w"
  by (auto simp: worker_step_def halted_def split: WorkerThread.splits)

lemma worker_step_halts: "worker_step b w = Some w' \<Longrightarrow> halted w' \<Longrightarrow> b \<and> tasks w' = []"
  by (auto simp: worker_step_def halted_def split: WorkerThread.splits list.splits if_splits)

lemma pool_inv_init: "pool_inv n (new_ShardedThreadPool n)"
  by (simp add: pool_inv_def new_ShardedThreadPool_def new_Worker_def worker_log_def in_hand_def halted_def)

lemma halted_log: "halted w \<Longrightarrow> worker_log w = finished w @ tasks w"
  by (auto simp: halted_def worker_log_def in_hand_def)

lemma pool_inv_start:
  assumes "pool_inv n p" "stop_call p = NotStopping"
  shows "pool_inv n (start p)"
proof (cases "stopped p")
  case True
  have "worker_log (w\<lparr>thread := AtLock\<rparr>) = worker_log w" "\<not> halted (w\<lparr>thread := AtLock\<rparr>)"
    if "halted w" for w :: "'a task Worker"
    using halted_log [OF that] by (simp_all add: worker_log_def in_hand_def halted_def)
  then show ?thesis using assms True by (simp add: pool_inv_def start_def)
qed (use assms in \<open>simp add: start_def\<close>)

lemma pool_inv_wake: "pool_inv n p \<Longrightarrow> pool_inv n (upd_worker i wake p)"
  by (auto simp: pool_inv_def workers_upd_worker)

lemma pool_inv_worker:
  assumes "pool_inv n p" "i < length (workers p)" "worker_step (stopped p) (workers p ! i) = Some w"
  shows "pool_inv n (p\<lparr>workers := (workers p)[i := w]\<rparr>)"
  using assms worker_step_log [OF assms(3)] worker_step_live [OF assms(3)] worker_step_halts [OF assms(3)]
  by (auto simp: pool_inv_def nth_list_update)

lemma pool_inv_submit:
  assumes "pool_inv n p" "submit t p = Some (ok, p')"
  shows "pool_inv n p'"
proof (cases "stopped p \<or> workers p = []")
  case False
  let ?i = "shard_of (length (workers p)) (fst t)"
  let ?f = "\<lambda>w. w\<lparr>tasks := tasks w @ [t]\<rparr>"
  have p': "p' = (upd_worker ?i ?f p)\<lparr>unnotified := unnotified p @ [?i], accepted := accepted p @ [t]\<rparr>"
    using assms(2) False by (auto simp: submit_def Let_def split: if_splits)
  have "worker_log (?f w) = worker_log w @ [t]" "halted (?f w) = halted w" for w
    by (simp_all add: worker_log_def in_hand_def halted_def)
  then show ?thesis using assms(1) False unfolding p'
    by (auto simp: pool_inv_def workers_upd_worker)
qed (use assms in \<open>auto simp: submit_def\<close>)

lemma pool_inv_stop:
  assumes "pool_inv n p" "stop_step p = Some p'"
  shows "pool_inv n p'"
proof (cases "stop_call p")
  case NotStopping
  then show ?thesis using assms by (auto simp: stop_step_def pool_inv_def)
next
  case (Notifying i)
  then show ?thesis using assms pool_inv_wake [OF assms(1), of i]
    by (auto simp: stop_step_def pool_inv_def split: if_splits)
next
  case (Joining i)
  then show ?thesis using assms
    by (auto simp: stop_step_def pool_inv_def less_Suc_eq split: if_splits)
qed

lemma pool_step_inv: "pool_step p p' \<Longrightarrow> pool_inv n p \<Longrightarrow> pool_inv n p'"
proof (induction rule: pool_step.induct)
  case (notify_one i p)
  then have "pool_inv n (upd_worker i wake p)" by (intro pool_inv_wake)
  then show ?case by (simp add: pool_inv_def)
qed (rule pool_inv_start pool_inv_submit pool_inv_worker pool_inv_stop; assumption)+

lemma reachable_pool_inv: "pool_reachable n p \<Longrightarrow> pool_inv n p"
  by (induction rule: pool_reachable.induct) (auto intro: pool_inv_init pool_step_inv pool_inv_wake)

section \<open>Properties of the pool\<close>

lemma worker_log_key:
  assumes "pool_reachable n p" "0 < n"
  shows "filter (\<lambda>t. fst t = key) (worker_log (workers p ! shard_of n key)) =
         filter (\<lambda>t. fst t = key) (accepted p)"
proof -
  have "shard_of n key < n" using assms(2) by (simp add: shard_of_def)
  then have "worker_log (workers p ! shard_of n key) =
      filter (\<lambda>t. shard_of n (fst t) = shard_of n key) (accepted p)"
    using reachable_pool_inv [OF assms(1)] by (simp add: pool_inv_def)
  then show ?thesis by (auto intro: filter_cong)
qed

text \<open>
  C15: tasks with the same key run in the order in which they were submitted.  In every reachable
  state the tasks of a key that its worker has finished, the one it is running and those in its
  queue are, in this order, exactly the accepted tasks of that key.
\<close>

theorem shard_fifo:
  assumes "pool_reachable n p" "0 < n"
  shows "filter (\<lambda>t. fst t = key) (worker_log (workers p ! shard_of n key)) =
         filter (\<lambda>t. fst t = key) (accepted p)"
  by (rule worker_log_key [OF assms])

text \<open>
  C23: when \<^verbatim>\<open>stop()\<close> has joined all workers, every task that was ever accepted has been
  executed, by the worker of its shard and in the order of submission.
\<close>

theorem stop_drains:
  assumes "pool_reachable n p" "stop_call p = Joining n" "i < n"
  shows "finished (workers p ! i) = filter (\<lambda>t. shard_of n (fst t) = i) (accepted p)"
proof -
  have "halted (workers p ! i)" using reachable_pool_inv [OF assms(1)] assms(2,3) by (simp add: pool_inv_def)
  then have "worker_log (workers p ! i) = finished (workers p ! i) @ tasks (workers p ! i)" by (rule halted_log)
  moreover have "tasks (workers p ! i) = []"
    using reachable_pool_inv [OF assms(1)] \<open>halted _\<close> assms(3) by (simp add: pool_inv_def)
  ultimately show ?thesis
    using reachable_pool_inv [OF assms(1)] assms(3) by (simp add: pool_inv_def)
qed

section \<open>Concrete runs\<close>

text \<open>One worker: it takes the first of two tasks of a key, and is stopped with both executed.\<close>

definition run_pool :: "'a task Worker \<Rightarrow> bool \<Rightarrow> nat list \<Rightarrow> StopCall \<Rightarrow> 'a task list \<Rightarrow> 'a task ShardedThreadPool"
where
  "run_pool w b ns s ts = \<lparr>workers = [w], stopped = b, unnotified = ns, stop_call = s, accepted = ts\<rparr>"

definition run_worker :: "'t list \<Rightarrow> 't WorkerThread \<Rightarrow> 't list \<Rightarrow> 't Worker" where
  "run_worker ts h fin = \<lparr>tasks = ts, thread = h, finished = fin\<rparr>"

lemma run_pool_fields [simp]:
  "workers (run_pool w b ns s ts) = [w]" "stopped (run_pool w b ns s ts) = b"
  "unnotified (run_pool w b ns s ts) = ns" "stop_call (run_pool w b ns s ts) = s"
  "accepted (run_pool w b ns s ts) = ts"
  by (simp_all add: run_pool_def)

lemma run_worker_fields [simp]:
  "tasks (run_worker ts h fin) = ts" "thread (run_worker ts h fin) = h"
  "finished (run_worker ts h fin) = fin"
  by (simp_all add: run_worker_def)

lemma run_start: "pool_reachable 1 (run_pool (run_worker [] AtLock []) False [] NotStopping [])"
proof -
  have "start (new_ShardedThreadPool 1) = run_pool (run_worker [] AtLock []) False [] NotStopping []"
    by (simp add: start_def new_ShardedThreadPool_def new_Worker_def run_pool_def run_worker_def)
  moreover have "pool_step (new_ShardedThreadPool 1) (start (new_ShardedThreadPool 1))"
    by (rule pool_step.start) (simp add: new_ShardedThreadPool_def)
  ultimately show ?thesis using pool_reachable.step [OF pool_reachable.init] by metis
qed

lemma run_submit:
  assumes "pool_reachable 1 (run_pool (run_worker q h fin) False ns s ts)" "h \<noteq> Checked"
  shows "pool_reachable 1 (run_pool (run_worker (q @ [t]) h fin) False (ns @ [0]) s (ts @ [t]))"
proof -
  have "submit t (run_pool (run_worker q h fin) False ns s ts) =
      Some (True, run_pool (run_worker (q @ [t]) h fin) False (ns @ [0]) s (ts @ [t]))"
    using assms(2)
    by (simp add: submit_def shard_of_def upd_worker_def run_pool_def run_worker_def)
  from pool_reachable.step [OF assms(1) pool_step.submit [OF this]] show ?thesis .
qed

lemma run_work:
  assumes "pool_reachable 1 (run_pool w b ns s ts)" "worker_step b w = Some w'"
  shows "pool_reachable 1 (run_pool w' b ns s ts)"
proof -
  have "pool_step (run_pool w b ns s ts) ((run_pool w b ns s ts)\<lparr>workers := (workers (run_pool w b ns s ts))[0 := w']\<rparr>)"
    by (rule pool_step.worker) (use assms(2) in simp_all)
  then have "pool_step (run_pool w b ns s ts) (run_pool w' b ns s ts)" by (simp add: run_pool_def)
  with assms(1) show ?thesis by (rule pool_reachable.step)
qed

lemma run_stop:
  assumes "pool_reachable 1 p" "stop_step p = Some p'"
  shows "pool_reachable 1 p'"
  using pool_reachable.step [OF assms(1) pool_step.stop [OF assms(2)]] .

lemma run_two_tasks:
  "pool_reachable 1 (run_pool (run_worker [(7, ''b'')] (Running (7, ''a'')) []) False [0, 0] NotStopping
     [(7, ''a''), (7, ''b'')])"
proof -
  have "pool_reachable 1 (run_pool (run_worker [(7, ''a''), (7, ''b'')] AtLock []) False [0, 0] NotStopping
     [(7, ''a''), (7, ''b'')])"
    using run_submit [OF run_submit [OF run_start], of "(7, ''a'')" "(7, ''b'')"] by simp
  then show ?thesis by (rule run_work) (simp add: worker_step_def run_worker_def)
qed

theorem shard_fifo_witness:
  "\<exists>p :: string task ShardedThreadPool. accepted p = [(7, ''a''), (7, ''b'')] \<and>
     filter (\<lambda>t. fst t = 7) (worker_log (workers p ! shard_of 1 7)) = [(7, ''a''), (7, ''b'')]"
  using shard_fifo [OF run_two_tasks, of 7]
  by (intro exI [of _ "run_pool (run_worker [(7, ''b'')] (Running (7, ''a'')) []) False [0, 0] NotStopping
     [(7, ''a''), (7, ''b'')]"]) simp

lemma run_joined:
  "pool_reachable 1 (run_pool (run_worker [] Exited [(7, ''a'')]) True [0] (Joining 1) [(7, ''a'')])"
proof -
  have 1: "pool_reachable 1 (run_pool (run_worker [(7, ''a'')] AtLock []) False [0] NotStopping [(7, ''a'')])"
    using run_submit [OF run_start, of "(7, ''a'')"] by simp
  have 2: "pool_reachable 1 (run_pool (run_worker [(7, ''a'')] AtLock []) True [0] (Notifying 0) [(7, ''a'')])"
    by (rule run_stop [OF 1]) (simp add: stop_step_def run_pool_def)
  have 3: "pool_reachable 1 (run_pool (run_worker [] (Running (7, ''a'')) []) True [0] (Notifying 0) [(7, ''a'')])"
    by (rule run_work [OF 2]) (simp add: worker_step_def run_worker_def)
  have 4: "pool_reachable 1 (run_pool (run_worker [] AtLock [(7, ''a'')]) True [0] (Notifying 0) [(7, ''a'')])"
    by (rule run_work [OF 3]) (simp add: worker_step_def run_worker_def)
  have 5: "pool_reachable 1 (run_pool (run_worker [] Exited [(7, ''a'')]) True [0] (Notifying 0) [(7, ''a'')])"
    by (rule run_work [OF 4]) (simp add: worker_step_def run_worker_def)
  have 6: "pool_reachable 1 (run_pool (run_worker [] Exited [(7, ''a'')]) True [0] (Notifying 1) [(7, ''a'')])"
    by (rule run_stop [OF 5]) (simp add: stop_step_def upd_worker_def run_pool_def wake_def)
  have 7: "pool_reachable 1 (run_pool (run_worker [] Exited [(7, ''a'')]) True [0] (Joining 0) [(7, ''a'')])"
    by (rule run_stop [OF 6]) (simp add: stop_step_def run_pool_def)
  show ?thesis
    by (rule run_stop [OF 7]) (simp add: stop_step_def run_pool_def halted_def)
qed

theorem stop_drains_witness:
  "\<exists>p :: string task ShardedThreadPool. accepted p = [(7, ''a'')] \<and> finished (workers p ! 0) = [(7, ''a'')]"
  using stop_drains [OF run_joined, of 0]
  by (intro exI [of _ "run_pool (run_worker [] Exited [(7, ''a'')]) True [0] (Joining 1) [(7, ''a'')]"])
    (simp add: shard_of_def)

text \<open>
  The worker evaluates the predicate of its \<^verbatim>\<open>wait\<close> just before \<^verbatim>\<open>stop()\<close> stores the flag and notifies:
  the notification finds nobody blocked, the worker then blocks, and \<^verbatim>\<open>join()\<close> waits for it.
\<close>

lemma run_lost_wakeup:
  "pool_reachable 1 (run_pool (run_worker [] Waiting []) True [] (Joining 0) [])"
proof -
  have 1: "pool_reachable 1 (run_pool (run_worker [] Checked []) False [] NotStopping [])"
    by (rule run_work [OF run_start]) (simp add: worker_step_def run_worker_def)
  have 2: "pool_reachable 1 (run_pool (run_worker [] Checked []) True [] (Notifying 0) [])"
    by (rule run_stop [OF 1]) (simp add: stop_step_def run_pool_def)
  have 3: "pool_reachable 1 (run_pool (run_worker [] Checked []) True [] (Notifying 1) [])"
    by (rule run_stop [OF 2]) (simp add: stop_step_def upd_worker_def run_pool_def wake_def)
  have 4: "pool_reachable 1 (run_pool (run_worker [] Checked []) True [] (Joining 0) [])"
    by (rule run_stop [OF 3]) (simp add: stop_step_def run_pool_def)
  show ?thesis
    by (rule run_work [OF 4]) (simp add: worker_step_def run_worker_def)
qed

inductive_cases pool_stepE: "pool_step p p'"

lemma lost_wakeup_stuck:
  assumes "pool_step (run_pool (run_worker [] Waiting []) True [] (Joining 0) []) p'"
  shows "p' = run_pool (run_worker [] Waiting []) True [] (Joining 0) []"
  using assms
  by (rule pool_stepE) (auto simp: submit_def stop_step_def worker_step_def halted_def)

lemma rtranclp_stuck:
  assumes "\<And>y. r x y \<Longrightarrow> y = x"
  shows "{y. r\<^sup>*\<^sup>* x y} = {x}"
proof -
  have "y = x" if "r\<^sup>*\<^sup>* x y" for y using that by induction (auto dest: assms)
  then show ?thesis by auto
qed

text \<open>
  C35: \<^verbatim>\<open>stop()\<close> can wait forever.  It stores \<^verbatim>\<open>stopped_\<close> and notifies without holding the
  worker's mutex, so both may fall between the worker's evaluation of the wait predicate and its
  blocking.  The state reached has an idle worker that blocks, a \<^verbatim>\<open>stop()\<close> that joins it, and no step of
  any thread that changes anything; only a spurious wake-up, on which no program can count, would end the wait.
\<close>

theorem stop_may_hang:
  "\<exists>p :: 'a task ShardedThreadPool. pool_reachable 1 p \<and> stopped p \<and> stop_call p = Joining 0 \<and>
     thread (workers p ! 0) = Waiting \<and> {p'. pool_step\<^sup>*\<^sup>* p p'} = {p}"
  by (rule exI [of _ "run_pool (run_worker [] Waiting []) True [] (Joining 0) []"])
    (simp add: run_lost_wakeup [simplified] rtranclp_stuck [OF lost_wakeup_stuck])

end
