(* ===== verification/Dispatcher.thy ===== *)
theory Dispatcher
  imports Store_Theorems Codec Thread_Pool
begin

text \<open>
  \<^verbatim>\<open>server/src/ServerEventDispatcher.cpp\<close>: the handlers of the business events.  A handler is the tree of
  its accesses to the session table, the message store, the clock and the connections, in the order
  of the code; the handlers run on the thread pool's workers and the delivery scan on a thread of its own.
  The platform \<open>p\<close> carries what \<^verbatim>\<open>sendEnvelope\<close> needs of protobuf.  Log lines are left out.
\<close>

section \<open>Constants and events\<close>

definition kAckTimeoutMs :: u64 where "kAckTimeoutMs = 10000"
definition kMaxDeliveryRetryCount :: int where "kMaxDeliveryRetryCount = 3"
definition kLoginRecentMessageLimit :: nat where "kLoginRecentMessageLimit = 100"
definition kBusinessWorkerCount :: nat where "kBusinessWorkerCount = 8"

definition EventShardKey :: "TcpConnectionPtr \<Rightarrow> u64" where
  "EventShardKey conn = conn"

datatype EventType = EnvelopeEvent | ConnectionClosed

record ServerEvent =
  ev_type :: EventType
  ev_conn :: TcpConnectionPtr
  ev_envelope :: Envelope

section \<open>Sending\<close>

definition sendEnvelope :: "platform \<Rightarrow> TcpConnectionPtr \<Rightarrow> Envelope \<Rightarrow> unit proc" where
  "sendEnvelope p conn envelope =
    (let frame = Encode p envelope in
     if frame = [] then Conn_shutdown conn (Return ())
     else Conn_send conn frame (Return ()))"

definition sendErrorAck :: "platform \<Rightarrow> TcpConnectionPtr \<Rightarrow> u64 \<Rightarrow> string \<Rightarrow> unit proc" where
  "sendErrorAck p conn seq reason = NowMs (\<lambda>now. sendEnvelope p conn (CreateAck now seq 0 False reason))"

text \<open>\<^verbatim>\<open>CreateChatPush\<close> with its one or two readings of the clock.\<close>

definition push_of :: "MessageRecord \<Rightarrow> bool \<Rightarrow> Envelope proc" where
  "push_of r history = NowMs (\<lambda>now.
     if created_at_ms r = 0 then NowMs (\<lambda>now'. Return
       (CreateChatPush now now' (msg_id r) (msg_id r) (from_uid r) (to_uid r) (content r) (created_at_ms r) history))
     else Return
       (CreateChatPush now 0 (msg_id r) (msg_id r) (from_uid r) (to_uid r) (content r) (created_at_ms r) history))"

section \<open>Delivering\<close>

definition tryDeliverMessage :: "platform \<Rightarrow> MessageRecord \<Rightarrow> bool proc" where
  "tryDeliverMessage p r =
    (if status r = Acked \<or> status r = Failed then Return False
     else Users_getConnByUid (to_uid r) (\<lambda>target.
       bind (if target = 0 then Return False else Conn_connected target Return) (\<lambda>online.
       if \<not> online then bind (markPending (msg_id r)) (\<lambda>_. Return False)
       else bind (push_of r False) (\<lambda>push.
         bind (sendEnvelope p target push) (\<lambda>_.
         bind (markDelivered (msg_id r)) (\<lambda>_. Return True))))))"

definition retryDeliverMessage :: "platform \<Rightarrow> MessageRecord \<Rightarrow> bool proc" where
  "retryDeliverMessage p r =
    (if status r = Acked \<or> status r = Failed then Return False
     else Users_getConnByUid (to_uid r) (\<lambda>target.
       bind (if target = 0 then Return False else Conn_connected target Return) (\<lambda>online.
       if \<not> online then bind (markPending (msg_id r)) (\<lambda>_. Return False)
       else bind (incrementRetryCount (msg_id r)) (\<lambda>_.
         bind (push_of r False) (\<lambda>push.
         bind (sendEnvelope p target push) (\<lambda>_.
         bind (markDelivered (msg_id r)) (\<lambda>_. Return True)))))))"

definition deliverPendingMessages :: "platform \<Rightarrow> u64 \<Rightarrow> bool proc" where
  "deliverPendingMessages p uid =
    bind (getPendingMessages uid) (\<lambda>pending_records.
    bind (for_each pending_records (tryDeliverMessage p)) (\<lambda>_.
    Return (pending_records \<noteq> [])))"

definition sendRecentMessages :: "platform \<Rightarrow> u64 \<Rightarrow> nat \<Rightarrow> unit proc" where
  "sendRecentMessages p uid limit =
    bind (getRecentMessages uid limit) (\<lambda>recent_records.
    Users_getConnByUid uid (\<lambda>target.
    bind (if target = 0 then Return False else Conn_connected target Return) (\<lambda>online.
    if \<not> online then Return ()
    else for_each recent_records (\<lambda>r. bind (push_of r True) (sendEnvelope p target)))))"

definition deliverLoginMessages :: "platform \<Rightarrow> u64 \<Rightarrow> unit proc" where
  "deliverLoginMessages p uid =
    bind (deliverPendingMessages p uid) (\<lambda>delivered.
    if delivered then Return () else sendRecentMessages p uid kLoginRecentMessageLimit)"

text \<open>One round of \<^verbatim>\<open>deliveryLoop\<close>, between two sleeps.\<close>

definition delivery_scan :: "platform \<Rightarrow> unit proc" where
  "delivery_scan p = NowMs (\<lambda>now.
    bind (getTimeoutDeliveredMessages now kAckTimeoutMs) (\<lambda>timeout_records.
    for_each timeout_records (\<lambda>r.
      if retry_count r \<ge> kMaxDeliveryRetryCount then markFailed (msg_id r)
      else retryDeliverMessage p r)))"

section \<open>Handlers\<close>

definition handleLogin :: "platform \<Rightarrow> ServerEvent \<Rightarrow> unit proc" where
  "handleLogin p event =
    (let conn = ev_conn event; seq = env_seq (ev_envelope event) in
     bind (case env_payload (ev_envelope event) of
         kLoginReq req \<Rightarrow>
           if login_uid req \<noteq> 0 then
             Users_bindUser conn (login_uid req) (\<lambda>bound.
               Return (if bound then (True, [], login_uid req) else (False, ''bind user failed'', login_uid req)))
           else Return (False, ''invalid login request'', 0)
       | _ \<Rightarrow> Return (False, ''invalid login request'', 0))
     (\<lambda>(ok, reason, uid).
       NowMs (\<lambda>now.
       bind (sendEnvelope p conn (CreateLoginResponse now seq ok reason)) (\<lambda>_.
       if ok then deliverLoginMessages p uid else Return ()))))"

definition handleChat :: "platform \<Rightarrow> ServerEvent \<Rightarrow> unit proc" where
  "handleChat p event =
    (let conn = ev_conn event; seq = env_seq (ev_envelope event) in
     case env_payload (ev_envelope event) of
       kChatReq request \<Rightarrow>
         Users_getUidByConn conn (\<lambda>uid.
         if uid = 0 then sendErrorAck p conn seq ''please login first''
         else if req_from_uid request \<noteq> uid then sendErrorAck p conn seq ''from_uid does not match session''
         else
           bind (createMessage (req_from_uid request) (req_to_uid request) (req_content request)
               (req_client_msg_id request)) (\<lambda>create_result.
           if \<not> result_ok create_result then sendErrorAck p conn seq ''message store unavailable''
           else let r = result_record create_result in
             if \<not> result_created create_result then
               NowMs (\<lambda>now. sendEnvelope p conn (CreateAck now seq (msg_id r) True ''duplicate message''))
             else bind (tryDeliverMessage p r) (\<lambda>_.
               NowMs (\<lambda>now. sendEnvelope p conn (CreateAck now seq (msg_id r) True [])))))
     | _ \<Rightarrow> sendErrorAck p conn seq ''invalid chat request'')"

definition handleAck :: "ServerEvent \<Rightarrow> unit proc" where
  "handleAck event =
    (case env_payload (ev_envelope event) of
       kAck ack \<Rightarrow>
         if ack_msg_id ack = 0 then Return ()
         else Users_getUidByConn (ev_conn event) (\<lambda>uid.
           if uid = 0 then Return ()
           else bind (markAcked (ack_msg_id ack) uid) (\<lambda>_. Return ()))
     | _ \<Rightarrow> Return ())"

definition handleHeartbeat :: "ServerEvent \<Rightarrow> unit proc" where
  "handleHeartbeat event = Users_updateHeartbeat (ev_conn event) (Return ())"

definition handleConnectionClosed :: "ServerEvent \<Rightarrow> unit proc" where
  "handleConnectionClosed event = Users_removeConnection (ev_conn event) (Return ())"

definition handle :: "platform \<Rightarrow> ServerEvent \<Rightarrow> unit proc" where
  "handle p event =
    (if ev_type event = ConnectionClosed then handleConnectionClosed event
     else case env_type (ev_envelope event) of
       LOGIN_REQ \<Rightarrow> handleLogin p event
     | CHAT_REQ \<Rightarrow> handleChat p event
     | ACK \<Rightarrow> handleAck event
     | HEARTBEAT \<Rightarrow> handleHeartbeat event
     | _ \<Rightarrow> sendErrorAck p (ev_conn event) (env_seq (ev_envelope event)) ''unsupported message type'')"

section \<open>Life cycle and queueing\<close>

record ServerEventDispatcher =
  disp_stopped :: bool
  pool :: "ServerEvent task ShardedThreadPool"
  delivery_worker :: bool

definition new_ServerEventDispatcher :: ServerEventDispatcher where
  "new_ServerEventDispatcher = \<lparr>disp_stopped = True, pool = new_ShardedThreadPool kBusinessWorkerCount,
     delivery_worker = False\<rparr>"

definition start_dispatcher :: "ServerEventDispatcher \<Rightarrow> ServerEventDispatcher" where
  "start_dispatcher d = (if \<not> disp_stopped d then d
     else d\<lparr>disp_stopped := False, pool := start (pool d), delivery_worker := True\<rparr>)"

text \<open>
  \<^verbatim>\<open>stop()\<close> up to \<^verbatim>\<open>pool_.stop()\<close>, whose steps are those of \<open>stop_step\<close>; false when it returns at once.
\<close>

definition begin_stop :: "ServerEventDispatcher \<Rightarrow> bool \<times> ServerEventDispatcher" where
  "begin_stop d = (if disp_stopped d then (False, d) else (True, d\<lparr>disp_stopped := True\<rparr>))"

text \<open>
  The delivery thread: it looks at \<^verbatim>\<open>stopped_\<close>, sleeps for \<^verbatim>\<open>kDeliveryScanIntervalMs\<close>, and executes a scan access by access.
\<close>

datatype delivery_thread = LoopCheck | LoopSleep | LoopScan "unit proc" | LoopExited

fun deliveryLoop ::
    "command_table \<Rightarrow> platform \<Rightarrow> bool \<Rightarrow> delivery_thread \<Rightarrow> world \<Rightarrow> (delivery_thread \<times> world) option" where
  "deliveryLoop call p stop_flag LoopCheck w = Some (if stop_flag then LoopExited else LoopSleep, w)"
| "deliveryLoop call p stop_flag LoopSleep w = Some (LoopScan (delivery_scan p), w)"
| "deliveryLoop call p stop_flag (LoopScan t) w = (case proc_step call t w of
     None \<Rightarrow> Some (LoopCheck, w)
   | Some (t', w') \<Rightarrow> Some (LoopScan t', w'))"
| "deliveryLoop call p stop_flag LoopExited w = None"

text \<open>The end of \<^verbatim>\<open>stop()\<close>, after \<^verbatim>\<open>pool_.stop()\<close>: \<open>None\<close> while \<^verbatim>\<open>join\<close> waits for the delivery thread.\<close>

definition end_stop :: "delivery_thread \<Rightarrow> ServerEventDispatcher \<Rightarrow> ServerEventDispatcher option" where
  "end_stop th d = (if delivery_worker d then
     (case th of LoopExited \<Rightarrow> Some (d\<lparr>delivery_worker := False\<rparr>) | _ \<Rightarrow> None)
   else Some d)"

text \<open>
  Queueing an event: the look at \<^verbatim>\<open>stopped_\<close> with the mutex held, and the submission after it, between which other threads may run.  The
  submission is \<open>None\<close> while the worker of the connection's shard holds its queue's mutex.
\<close>

definition enqueue_check :: "ServerEventDispatcher \<Rightarrow> bool" where
  "enqueue_check d \<longleftrightarrow> \<not> disp_stopped d"

definition enqueue_submit :: "ServerEvent \<Rightarrow> ServerEventDispatcher \<Rightarrow> (bool \<times> ServerEventDispatcher) option" where
  "enqueue_submit event d =
    map_option (\<lambda>(ok, q). (ok, d\<lparr>pool := q\<rparr>)) (submit (EventShardKey (ev_conn event), event) (pool d))"

definition enqueue :: "ServerEvent \<Rightarrow> ServerEventDispatcher \<Rightarrow> (bool \<times> ServerEventDispatcher) option" where
  "enqueue event d = (if \<not> enqueue_check d then Some (False, d) else enqueue_submit event d)"

definition enqueueEnvelope ::
    "TcpConnectionPtr \<Rightarrow> Envelope \<Rightarrow> ServerEventDispatcher \<Rightarrow> (bool \<times> ServerEventDispatcher) option" where
  "enqueueEnvelope conn envelope = enqueue \<lparr>ev_type = EnvelopeEvent, ev_conn = conn, ev_envelope = envelope\<rparr>"

definition empty_Envelope :: Envelope where
  "empty_Envelope = \<lparr>env_type = UNKNOWN, env_seq = 0, env_timestamp_ms = 0, env_payload = PAYLOAD_NOT_SET\<rparr>"

definition enqueueConnectionClosed ::
    "TcpConnectionPtr \<Rightarrow> ServerEventDispatcher \<Rightarrow> (bool \<times> ServerEventDispatcher) option" where
  "enqueueConnectionClosed conn =
     enqueue \<lparr>ev_type = ConnectionClosed, ev_conn = conn, ev_envelope = empty_Envelope\<rparr>"

record StatusMetric =
  metric_key :: string
  metric_numbers :: "u64 list"

type_synonym ServerStatus = "StatusMetric list"

definition addMetric :: "StatusMetric \<Rightarrow> ServerStatus \<Rightarrow> ServerStatus" where
  "addMetric metric status' = status' @ [metric]"

definition getStatus :: "ServerEventDispatcher \<Rightarrow> ServerStatus" where
  "getStatus d = addMetric \<lparr>metric_key = ''ThreadTaskNums'',
     metric_numbers = map word_of_nat (getQueueSizes (pool d))\<rparr> []"


section \<open>Stopping the delivery thread\<close>

text \<open>A tree has no infinite execution, whatever other threads do to the shared state between its accesses.\<close>

fun children :: "'a proc \<Rightarrow> 'a proc set" where
  "children (Return x) = {}"
| "children (NowMs k) = range k"
| "children (RedisCommand argv k) = range k"
| "children (Users_bindUser c u k) = range k"
| "children (Users_removeConnection c k) = {k}"
| "children (Users_updateHeartbeat c k) = {k}"
| "children (Users_getUidByConn c k) = range k"
| "children (Users_getConnByUid u k) = range k"
| "children (Conn_connected c k) = range k"
| "children (Conn_send c bytes k) = {k}"
| "children (Conn_shutdown c k) = {k}"

lemma proc_step_child: "proc_step call t w = Some (t', w') \<Longrightarrow> t' \<in> children t"
  by (cases t) (auto split: prod.splits)

definition child_of :: "('a proc \<times> 'a proc) set" where
  "child_of = {(t', t). t' \<in> children t}"

lemma child_of_iff: "(t', t) \<in> child_of \<longleftrightarrow> t' \<in> children t"
  by (simp add: child_of_def)

lemma child_of_wf: "wf child_of"
proof -
  have "t \<in> Wellfounded.acc child_of" for t :: "'a proc"
    by (induction t) (rule Wellfounded.acc.accI, force simp: child_of_iff)+
  then show ?thesis by (simp add: acc_wfI)
qed

text \<open>
  Once \<^verbatim>\<open>stopped_\<close> is set, the delivery thread can always go on until it has returned, and it does return: there is no
  infinite run of it, even when other threads change the shared state between its steps.  So \<^verbatim>\<open>join\<close> comes back.
\<close>

definition loop_rank :: "delivery_thread \<Rightarrow> nat" where
  "loop_rank th = (case th of LoopExited \<Rightarrow> 0 | LoopCheck \<Rightarrow> 1 | LoopScan _ \<Rightarrow> 2 | LoopSleep \<Rightarrow> 3)"

definition loop_tree :: "delivery_thread \<Rightarrow> unit proc" where
  "loop_tree th = (case th of LoopScan t \<Rightarrow> t | _ \<Rightarrow> Return ())"

lemma delivery_join:
  "wf {(th', th). \<exists>w w'. deliveryLoop call p True th w = Some (th', w')}"
  "(\<exists>s. deliveryLoop call p True th w = Some s) \<or> end_stop th d = Some (d\<lparr>delivery_worker := False\<rparr>)"
proof -
  have "(th', th) \<in> inv_image (less_than <*lex*> child_of) (\<lambda>th. (loop_rank th, loop_tree th))"
    if "deliveryLoop call p True th w = Some (th', w')" for th th' w w'
    using that by (cases th) (auto simp: loop_rank_def loop_tree_def child_of_def dest: proc_step_child split: option.splits)
  then show "wf {(th', th). \<exists>w w'. deliveryLoop call p True th w = Some (th', w')}"
    by (intro wf_subset [OF wf_inv_image [OF wf_lex_prod [OF wf_less_than child_of_wf], of "\<lambda>th. (loop_rank th, loop_tree th)"]]) blast
  show "(\<exists>s. deliveryLoop call p True th w = Some s) \<or> end_stop th d = Some (d\<lparr>delivery_worker := False\<rparr>)"
    by (cases th) (auto simp: end_stop_def split: option.split)
qed

end
