(* ===== verification/Delivery.thy ===== *)
theory Delivery
  imports Dispatcher
begin

text \<open>
  What the handlers of \<open>Dispatcher\<close> do: the frames they send, and what becomes of the ledger.
\<close>

section \<open>Sending\<close>

text \<open>What \<^verbatim>\<open>sendEnvelope\<close> puts on a connection: the frame, or nothing when the envelope cannot be serialised.\<close>

definition frames :: "platform \<Rightarrow> TcpConnectionPtr \<Rightarrow> Envelope \<Rightarrow> (TcpConnectionPtr \<times> string) list" where
  "frames p conn e = (if Encode p e = [] then [] else [(conn, Encode p e)])"

definition sent :: "platform \<Rightarrow> TcpConnectionPtr \<Rightarrow> Envelope \<Rightarrow> world \<Rightarrow> world" where
  "sent p conn e w = w\<lparr>outbox := outbox w @ frames p conn e,
     shut := shut w @ (if Encode p e = [] then [conn] else [])\<rparr>"

lemma run_sendEnvelope [simp]: "run call (sendEnvelope p conn e) w = ((), sent p conn e w)"
  by (cases w) (simp add: sendEnvelope_def sent_def frames_def)

lemma sent_fields [simp]:
  "outbox (sent p conn e w) = outbox w @ frames p conn e" "redis (sent p conn e w) = redis w"
  "users (sent p conn e w) = users w" "clock (sent p conn e w) = clock w" "ticks (sent p conn e w) = ticks w"
  "link_of (sent p conn e w) = link_of w" "requests (sent p conn e w) = requests w" "up (sent p conn e w) = up w"
  by (simp_all add: sent_def)

lemma store_ok_sent [simp]: "store_ok (sent p conn e w) L = store_ok w L"
  by (simp add: store_ok_def)

lemma store_ok_ticks [simp]: "store_ok (w\<lparr>ticks := n\<rparr>) L = store_ok w L"
  by (simp add: store_ok_def)

lemma run_sendErrorAck [simp]:
  "run call (sendErrorAck p conn seq reason) w =
    ((), sent p conn (CreateAck (this_time w) seq 0 False reason) (w\<lparr>ticks := Suc (ticks w)\<rparr>))"
  by (simp add: sendErrorAck_def read_clock_def)

definition push_env :: "world \<Rightarrow> MessageRecord \<Rightarrow> bool \<Rightarrow> Envelope" where
  "push_env w r history = CreateChatPush (this_time w) (clock w (Suc (ticks w))) (msg_id r) (msg_id r) (from_uid r)
     (to_uid r) (content r) (created_at_ms r) history"

definition push_ticks :: "MessageRecord \<Rightarrow> nat" where
  "push_ticks r = (if created_at_ms r = 0 then 2 else 1)"

lemma run_push_of [simp]:
  "run call (push_of r history) w = (push_env w r history, w\<lparr>ticks := ticks w + push_ticks r\<rparr>)"
  by (simp add: push_of_def push_env_def push_ticks_def read_clock_def CreateChatPush_def)

definition online :: "world \<Rightarrow> u64 \<Rightarrow> bool" where
  "online w uid \<longleftrightarrow> getConnByUid (users w) uid \<noteq> 0 \<and> up w (getConnByUid (users w) uid)"

lemma run_online [simp]:
  "run call (if target = 0 then Return False else Conn_connected target Return) w = (target \<noteq> 0 \<and> up w target, w)"
  by simp

section \<open>Delivering one message\<close>

text \<open>What stays the same while a handler talks to Redis and to connections; the clock is only read on.\<close>

definition same_env :: "world \<Rightarrow> world \<Rightarrow> bool" where
  "same_env w w' \<longleftrightarrow> users w' = users w \<and> up w' = up w \<and> clock w' = clock w \<and> link_of w' = link_of w \<and>
     ticks w \<le> ticks w'"

lemma same_env_refl [simp]: "same_env w w"
  by (simp add: same_env_def)

lemma same_env_trans: "same_env w w' \<Longrightarrow> same_env w' w'' \<Longrightarrow> same_env w w''"
  by (simp add: same_env_def)

lemma same_env_online: "same_env w w' \<Longrightarrow> online w' u = online w u"
  by (simp add: same_env_def online_def)

lemma same_env_step: "store_step t w L w' \<Longrightarrow> same_env w w'"
  using store_step_frame by (simp add: same_env_def)

context redis_server
begin

lemma run_tryDeliver_offline:
  assumes ok: "store_ok w L" and r: "status r \<noteq> Acked" "status r \<noteq> Failed" and off: "\<not> online w (to_uid r)"
  shows "\<exists>w'. run call (tryDeliverMessage p r) w = (False, w') \<and>
    store_step 1 w (after (this_link w) L (snd (ledger_pend (msg_id r) L))) w'"
proof -
  obtain w' where "run call (markPending (msg_id r)) w = (this_link w = Answered \<and> fst (ledger_pend (msg_id r) L), w')"
    "store_step 1 w (after (this_link w) L (snd (ledger_pend (msg_id r) L))) w'"
    using run_markPending [OF ok] by blast
  then show ?thesis using r off by (auto simp: tryDeliverMessage_def online_def)
qed

lemma run_tryDeliver_online:
  assumes ok: "store_ok w L" and r: "status r \<noteq> Acked" "status r \<noteq> Failed" and on: "online w (to_uid r)"
  shows "\<exists>w'. run call (tryDeliverMessage p r) w = (True, w') \<and>
    outbox w' = outbox w @ frames p (getConnByUid (users w) (to_uid r)) (push_env w r False) \<and> same_env w w' \<and>
    store_ok w' (after (this_link w) L (snd (ledger_deliver (msg_id r) (clock w (ticks w + push_ticks r)) L)))"
proof -
  let ?w = "sent p (getConnByUid (users w) (to_uid r)) (push_env w r False) (w\<lparr>ticks := ticks w + push_ticks r\<rparr>)"
  have "store_ok ?w L" using ok by simp
  then obtain w' where m: "run call (markDelivered (msg_id r)) ?w =
      (this_link ?w = Answered \<and> fst (ledger_deliver (msg_id r) (this_time ?w) L), w')"
    and s: "store_step 1 ?w (after (this_link ?w) L (snd (ledger_deliver (msg_id r) (this_time ?w) L))) w'"
    using run_markDelivered by blast
  have "same_env w ?w" by (simp add: same_env_def)
  then show ?thesis
    using r on m store_step_frame [OF s] same_env_trans [OF _ same_env_step [OF s]]
    by (auto simp: tryDeliverMessage_def online_def)
qed

end

section \<open>Chat requests\<close>

abbreviation "chat_event conn env \<equiv> \<lparr>ev_type = EnvelopeEvent, ev_conn = conn, ev_envelope = env\<rparr>"

lemma handle_chat:
  assumes "env_type env = CHAT_REQ" "env_payload env = kChatReq req"
  shows "run call (handle p (chat_event conn env)) w =
    (if getUidByConn (users w) conn = 0 then run call (sendErrorAck p conn (env_seq env) ''please login first'') w
     else if req_from_uid req \<noteq> getUidByConn (users w) conn then
       run call (sendErrorAck p conn (env_seq env) ''from_uid does not match session'') w
     else case run call (createMessage (req_from_uid req) (req_to_uid req) (req_content req) (req_client_msg_id req)) w of
       (res, w1) \<Rightarrow>
         if \<not> result_ok res then run call (sendErrorAck p conn (env_seq env) ''message store unavailable'') w1
         else if \<not> result_created res then
           ((), sent p conn (CreateAck (this_time w1) (env_seq env) (msg_id (result_record res)) True ''duplicate message'')
                  (w1\<lparr>ticks := Suc (ticks w1)\<rparr>))
         else case run call (tryDeliverMessage p (result_record res)) w1 of (_, w2) \<Rightarrow>
           ((), sent p conn (CreateAck (this_time w2) (env_seq env) (msg_id (result_record res)) True [])
                  (w2\<lparr>ticks := Suc (ticks w2)\<rparr>)))"
  using assms by (simp add: handle_def handleChat_def Let_def read_clock_def split: prod.split)

text \<open>
  C28: a chat request from a connection that is not logged in, or in the name of a user other than the one
  logged in there, is refused with an error acknowledgement and has no other effect: no Redis command
  is sent, nobody gets a push.
\<close>

theorem chat_rejected:
  assumes "env_type env = CHAT_REQ" "env_payload env = kChatReq req"
    and "getUidByConn (users w) conn = 0 \<or> req_from_uid req \<noteq> getUidByConn (users w) conn"
    and "run call (handle p (chat_event conn env)) w = (u, w')"
  shows "outbox w' = outbox w @ frames p conn (CreateAck (this_time w) (env_seq env) 0 False
        (if getUidByConn (users w) conn = 0 then ''please login first'' else ''from_uid does not match session'')) \<and>
    redis w' = redis w \<and> requests w' = requests w \<and> users w' = users w"
  using assms by (auto simp: handle_chat)

definition echo_platform :: platform where
  "echo_platform = \<lparr>SerializeToString = (\<lambda>e. Some (ToString e)), ParseFromArray = (\<lambda>_ _. None),
     host_order = LittleEndian\<rparr>"

theorem chat_rejected_witness:
  "outbox (snd (run redis_call (handle echo_platform (chat_event 7
        (CreateChatRequest 5 9 1 2 ''hi'' ''c1''))) (demo_world 0 1000))) =
      frames echo_platform 7 (CreateAck 1000 9 0 False ''please login first'')"
  using chat_rejected [of "CreateChatRequest 5 9 1 2 ''hi'' ''c1''" _ "demo_world 0 1000" 7 redis_call echo_platform,
      OF _ _ _ prod.collapse [symmetric]]
  by (simp add: CreateChatRequest_def empty_UserStateService_def getUidByConn_def)

context redis_server
begin

lemma chat_created:
  assumes ok: "store_ok w L" and links: "\<forall>k. link_of w k = Answered" and r: "status r = Pending"
    and i: "msgs L (msg_id r) = Some r"
  shows "\<exists>w' t. snd (run call (tryDeliverMessage p r) w) = w' \<and> same_env w w' \<and>
    (if online w (to_uid r) then
       store_ok w' (snd (ledger_deliver (msg_id r) t L)) \<and>
       outbox w' = outbox w @ frames p (getConnByUid (users w) (to_uid r)) (push_env w r False)
     else store_ok w' L \<and> outbox w' = outbox w)"
proof (cases "online w (to_uid r)")
  case True
  then show ?thesis using run_tryDeliver_online [OF ok _ _ True, of p] r links by (auto simp: after_def)
next
  case False
  have "snd (ledger_pend (msg_id r) L) = L"
    using r i by (cases L) (auto simp: ledger_pend_def ledger_update_def)
  then show ?thesis
    using run_tryDeliver_offline [OF ok _ _ False, of p] r links False store_step_frame same_env_step
    by (fastforce simp: after_def)
qed

end

text \<open>
  C6: a chat request of a logged-in sender, with Redis answering.  A request whose client message
  identifier was used before is acknowledged again with the identifier of the first message, and
  nothing else happens.  Otherwise the message is in the ledger; when the recipient is online it is
  pushed to the recipient's connection and then Delivered, else it stays Pending and is not pushed; and
  in both cases the sender gets a positive acknowledgement that names the message.
\<close>

theorem chat_accepted:
  assumes server: "redis_server call" and ok: "store_ok w L" and n: "next_id L + 1 < 10 ^ 14"
    and links: "\<forall>k. link_of w k = Answered"
    and env: "env_type env = CHAT_REQ" "env_payload env = kChatReq req"
    and login: "getUidByConn (users w) conn = req_from_uid req" "req_from_uid req \<noteq> 0"
    and run: "run call (handle p (chat_event conn env)) w = (u, w')"
    and create: "ledger_create (req_from_uid req) (req_to_uid req) (req_content req) (req_client_msg_id req)
      (this_time w) L = (res, L1)"
  shows "\<exists>t t1 t2 t3. if \<not> result_created res then
      store_ok w' L \<and> outbox w' = outbox w @
        frames p conn (CreateAck t (env_seq env) (msg_id (result_record res)) True ''duplicate message'')
    else if online w (req_to_uid req) then
      store_ok w' (snd (ledger_deliver (msg_id (result_record res)) t3 L1)) \<and>
      outbox w' = outbox w @
        frames p (getConnByUid (users w) (req_to_uid req))
          (CreateChatPush t1 t2 (msg_id (result_record res)) (msg_id (result_record res)) (req_from_uid req)
            (req_to_uid req) (req_content req) (this_time w) False) @
        frames p conn (CreateAck t (env_seq env) (msg_id (result_record res)) True [])
    else
      store_ok w' L1 \<and> outbox w' = outbox w @
        frames p conn (CreateAck t (env_seq env) (msg_id (result_record res)) True [])"
proof -
  obtain w1 where c: "run call (createMessage (req_from_uid req) (req_to_uid req) (req_content req) (req_client_msg_id req)) w =
      (res, w1)" and s: "store_step 1 w L1 w1"
    using redis_server.run_createMessage [OF server ok n, of "req_from_uid req" "req_to_uid req" "req_content req"
        "req_client_msg_id req"] links create
    by (auto simp: after_def)
  note f = store_step_frame [OF s]
  have res: "result_ok res" using create ledger_create_result(1) [OF store_okD(2) [OF ok]] by (metis fst_conv)
  show ?thesis
  proof (cases "result_created res")
    case False
    then have "L1 = L" using create by (auto simp: ledger_create_def Let_def split: option.splits)
    moreover have "w' = sent p conn (CreateAck (this_time w1) (env_seq env) (msg_id (result_record res)) True
        ''duplicate message'') (w1\<lparr>ticks := Suc (ticks w1)\<rparr>)"
      using run handle_chat [OF env, of call p conn w] login c res False by simp
    ultimately show ?thesis using False f by auto
  next
    case True
    let ?r = "result_record res" and ?to = "req_to_uid req"
    have r: "status ?r = Pending" "msgs L1 (msg_id ?r) = Some ?r" "to_uid ?r = ?to" "from_uid ?r = req_from_uid req"
      "content ?r = req_content req" "created_at_ms ?r = this_time w"
      using create True by (auto simp: ledger_create_def Let_def new_record_def split: option.splits)
    have links1: "\<forall>k. link_of w1 k = Answered" using links f(3) by simp
    obtain w2 t3 where d: "snd (run call (tryDeliverMessage p ?r) w1) = w2"
      and w2: "if online w1 ?to then store_ok w2 (snd (ledger_deliver (msg_id ?r) t3 L1)) \<and>
          outbox w2 = outbox w1 @ frames p (getConnByUid (users w1) ?to) (push_env w1 ?r False)
        else store_ok w2 L1 \<and> outbox w2 = outbox w1"
      using redis_server.chat_created [OF server f(1) links1 r(1,2), of p] unfolding r(3) by blast
    have on: "online w1 ?to = online w ?to" using same_env_step [OF s] by (rule same_env_online)
    have "w' = sent p conn (CreateAck (this_time w2) (env_seq env) (msg_id ?r) True []) (w2\<lparr>ticks := Suc (ticks w2)\<rparr>)"
      using run handle_chat [OF env, of call p conn w] login c res True d by (auto split: prod.splits)
    then show ?thesis
      using True w2 on f r
      by (intro exI [of _ "this_time w2"] exI [of _ "this_time w1"] exI [of _ "clock w1 (Suc (ticks w1))"] exI [of _ t3])
        (simp add: push_env_def split: if_splits)
  qed
qed

text \<open>User 1 is logged in on connection 7 and user 2 on connection 8.\<close>

definition demo_login :: "nat \<Rightarrow> u64 \<Rightarrow> world" where
  "demo_login n t = (demo_world n t)\<lparr>users := user_history [BindUser 5 7 1, BindUser 6 8 2]\<rparr>"

lemma demo_login_users [simp]:
  "getUidByConn (users (demo_login n t)) 7 = 1" "getUidByConn (users (demo_login n t)) 8 = 2"
  "getConnByUid (users (demo_login n t)) 1 = 7" "getConnByUid (users (demo_login n t)) 2 = 8"
  by (simp_all add: demo_login_def user_history_def empty_UserStateService_def user_defs Let_def getUidByConn_def
      getConnByUid_def new_UserState_def)

lemma demo_login_fields [simp]:
  "clock (demo_login n t) = (\<lambda>_. t)" "link_of (demo_login n t) = (\<lambda>_. Answered)" "requests (demo_login n t) = 0"
  "up (demo_login n t) = (\<lambda>_. True)" "outbox (demo_login n t) = []" "ticks (demo_login n t) = 0"
  by (simp_all add: demo_login_def demo_world_def)

lemma demo_login_ok: "n < 10 ^ 14 \<Longrightarrow> unat t \<le> 2 ^ 53 \<Longrightarrow> store_ok (demo_login n t) (counted_ledger n)"
  using demo_store_ok by (simp add: store_ok_def demo_login_def)

theorem chat_accepted_witness:
  "\<exists>t t1 t2. outbox (snd (run redis_call (handle echo_platform (chat_event 7
        (CreateChatRequest 5 9 1 2 ''hi'' ''c1''))) (demo_login 0 1000))) =
      frames echo_platform 8 (CreateChatPush t1 t2 1 1 1 2 ''hi'' 1000 False) @
      frames echo_platform 7 (CreateAck t 9 1 True [])"
proof -
  let ?e = "CreateChatRequest 5 9 1 2 ''hi'' ''c1''" and ?w = "demo_login 0 1000"
  let ?L1 = "snd (ledger_create 1 2 ''hi'' ''c1'' 1000 (counted_ledger 0))"
  let ?req = "\<lparr>req_from_uid = 1, req_to_uid = 2, req_content = ''hi'', req_client_msg_id = ''c1''\<rparr>"
  have c: "ledger_create 1 2 ''hi'' ''c1'' 1000 (counted_ledger 0) = (\<lparr>result_record = new_record 1 1 2 ''hi'' ''c1'' 1000,
      result_created = True, result_ok = True\<rparr>, ?L1)"
    by (simp add: ledger_create_def counted_ledger_def Let_def)
  have "store_ok ?w (counted_ledger 0)" by (rule demo_login_ok) simp_all
  from chat_accepted [OF reference.redis_server_axioms this, of ?e ?req 7 echo_platform "()" "snd (run redis_call (handle echo_platform (chat_event 7 ?e)) ?w)"
      "\<lparr>result_record = new_record 1 1 2 ''hi'' ''c1'' 1000, result_created = True, result_ok = True\<rparr>" ?L1]
  show ?thesis
    using c by (auto simp: CreateChatRequest_def online_def new_record_def counted_ledger_def prod_eq_iff)
qed

section \<open>Acknowledged means stored\<close>

lemma ledger_update_keeps:
  assumes "msgs L j = Some r" "\<And>q. from_uid (f q) = from_uid q" "\<And>q. client_msg_id (f q) = client_msg_id q"
  shows "\<exists>r'. msgs (snd (ledger_update i f L)) j = Some r' \<and> from_uid r' = from_uid r \<and>
    client_msg_id r' = client_msg_id r"
  using assms by (auto simp: ledger_update_def split: option.split)

text \<open>The frames that may precede the acknowledgement of message \<open>m\<close>: none, or the one push of the new message to its recipient.\<close>

definition chat_pushes :: "platform \<Rightarrow> world \<Rightarrow> ChatRequest \<Rightarrow> u64 \<Rightarrow> (TcpConnectionPtr \<times> string) list \<Rightarrow> bool" where
  "chat_pushes p w req m pushes \<longleftrightarrow> pushes = [] \<or> online w (req_to_uid req) \<and> (\<exists>t1 t2. pushes =
     frames p (getConnByUid (users w) (req_to_uid req))
       (CreateChatPush t1 t2 m m (req_from_uid req) (req_to_uid req) (req_content req) (this_time w) False))"

context redis_server
begin

lemma tryDeliver_keeps:
  assumes ok: "store_ok w L" and r: "status r = Pending" and i: "msgs L i = Some q"
  shows "\<exists>w' L' q' pushes. snd (run call (tryDeliverMessage p r) w) = w' \<and> store_ok w' L' \<and> msgs L' i = Some q' \<and>
    from_uid q' = from_uid q \<and> client_msg_id q' = client_msg_id q \<and> outbox w' = outbox w @ pushes \<and>
    pushes = (if online w (to_uid r) then frames p (getConnByUid (users w) (to_uid r)) (push_env w r False) else [])"
proof (cases "online w (to_uid r)")
  case True
  have "\<exists>q'. msgs (snd (ledger_deliver (msg_id r) t L)) i = Some q' \<and> from_uid q' = from_uid q \<and>
      client_msg_id q' = client_msg_id q" for t
    unfolding ledger_deliver_def by (rule ledger_update_keeps [OF i]) simp_all
  then show ?thesis
    using run_tryDeliver_online [OF ok _ _ True, of p] r i True unfolding after_def
    by (cases "this_link w = RequestLost") fastforce+
next
  case False
  have "\<exists>q'. msgs (snd (ledger_pend (msg_id r) L)) i = Some q' \<and> from_uid q' = from_uid q \<and>
      client_msg_id q' = client_msg_id q"
    unfolding ledger_pend_def by (rule ledger_update_keeps [OF i]) simp_all
  moreover obtain w' where "run call (tryDeliverMessage p r) w = (False, w')"
    "store_step 1 w (after (this_link w) L (snd (ledger_pend (msg_id r) L))) w'"
    using run_tryDeliver_offline [OF ok _ _ False, of p] r by auto
  ultimately show ?thesis
    using store_step_frame i False unfolding after_def
    by (cases "this_link w = RequestLost") (fastforce intro!: exI [of _ "[]"])+
qed

lemma chat_answered:
  assumes ok: "store_ok w L" and n: "next_id L + 1 < 10 ^ 14"
    and env: "env_type env = CHAT_REQ" "env_payload env = kChatReq req"
    and login: "getUidByConn (users w) conn = req_from_uid req" "req_from_uid req \<noteq> 0"
    and answered: "this_link w = Answered"
    and run: "run call (handle p (chat_event conn env)) w = (u, w')"
  shows "\<exists>L' pushes t m good reason. store_ok w' L' \<and>
    outbox w' = outbox w @ pushes @ frames p conn (CreateAck t (env_seq env) m good reason) \<and>
    chat_pushes p w req m pushes \<and> (\<not> good \<longrightarrow> pushes = []) \<and>
    (good \<longrightarrow> (\<exists>r. msgs L' m = Some r \<and> from_uid r = req_from_uid req \<and> client_msg_id r = req_client_msg_id req))"
proof -
  let ?from = "req_from_uid req" and ?cid = "req_client_msg_id req"
  let ?c = "ledger_create ?from (req_to_uid req) (req_content req) ?cid (this_time w) L"
  let ?m = "msg_id (result_record (fst ?c))"
  obtain w1 where c: "run call (createMessage ?from (req_to_uid req) (req_content req) ?cid) w = (fst ?c, w1)"
    and s: "store_step 1 w (snd ?c) w1"
    using run_createMessage [OF ok n, of ?from "req_to_uid req" "req_content req" ?cid] answered
    by (auto simp: after_def)
  note f = store_step_frame [OF s]
  note res = ledger_create_result [OF store_okD(2) [OF ok], of ?from "req_to_uid req" "req_content req" ?cid "this_time w"]
  obtain r where r: "msgs (snd ?c) ?m = Some r" "from_uid r = ?from" "client_msg_id r = ?cid"
    by (rule ledger_ok_idem [OF store_okD(2) [OF f(1)] res(2)])
  show ?thesis
  proof (cases "result_created (fst ?c)")
    case False
    then have "w' = sent p conn (CreateAck (this_time w1) (env_seq env) ?m True ''duplicate message'') (w1\<lparr>ticks := Suc (ticks w1)\<rparr>)"
      using run handle_chat [OF env, of call p conn w] c res(1) login by simp
    then show ?thesis using r f by (intro exI [of _ "snd ?c"] exI [of _ "[]"]) (auto simp: chat_pushes_def)
  next
    case True
    let ?r = "result_record (fst ?c)" and ?to = "req_to_uid req"
    have new: "status ?r = Pending" "to_uid ?r = ?to" "from_uid ?r = ?from" "content ?r = req_content req"
      "created_at_ms ?r = this_time w"
      using True by (auto simp: ledger_create_def Let_def new_record_def split: option.splits)
    then obtain w2 L2 q pushes where d: "snd (run call (tryDeliverMessage p ?r) w1) = w2"
      and w2: "store_ok w2 L2" "msgs L2 ?m = Some q" "from_uid q = ?from" "client_msg_id q = ?cid" "outbox w2 = outbox w1 @ pushes"
      and pushes: "pushes = (if online w1 ?to then frames p (getConnByUid (users w1) ?to) (push_env w1 ?r False) else [])"
      using tryDeliver_keeps [OF f(1) _ r(1), of _ p] r(2,3) by metis
    have "online w1 ?to = online w ?to" "users w1 = users w"
      using same_env_online [OF same_env_step [OF s]] same_env_step [OF s] by (simp_all add: same_env_def)
    then have one: "chat_pushes p w req ?m pushes"
      using pushes new by (auto simp: chat_pushes_def push_env_def)
    have "w' = sent p conn (CreateAck (this_time w2) (env_seq env) ?m True []) (w2\<lparr>ticks := Suc (ticks w2)\<rparr>)"
      using run handle_chat [OF env, of call p conn w] c res(1) login True d by (auto split: prod.splits)
    then show ?thesis using w2 f one by (intro exI [of _ L2] exI [of _ pushes]) auto
  qed
qed

end

text \<open>
  C5: whatever happens to the Redis commands of a chat request, it is answered with exactly one
  acknowledgement, the last frame that is sent; the only other frame there can be is one push of the acknowledged message, with the content of the
  request, to the connection of its recipient.  A positive acknowledgement is given only for a message that is in the ledger,
  sent by this user under this client message identifier; with a negative one nothing is pushed; and the store is left in good order.
\<close>

theorem chat_ack_durable:
  assumes server: "redis_server call" and ok: "store_ok w L" and n: "next_id L + 1 < 10 ^ 14"
    and env: "env_type env = CHAT_REQ" "env_payload env = kChatReq req"
    and run: "run call (handle p (chat_event conn env)) w = (u, w')"
  shows "\<exists>L' pushes t m good reason. store_ok w' L' \<and>
    outbox w' = outbox w @ pushes @ frames p conn (CreateAck t (env_seq env) m good reason) \<and>
    (pushes = [] \<or> good \<and> online w (req_to_uid req) \<and> (\<exists>t1 t2. pushes =
       frames p (getConnByUid (users w) (req_to_uid req))
         (CreateChatPush t1 t2 m m (req_from_uid req) (req_to_uid req) (req_content req) (this_time w) False))) \<and>
    (good \<longrightarrow> (\<exists>r. msgs L' m = Some r \<and> from_uid r = req_from_uid req \<and> client_msg_id r = req_client_msg_id req))"
proof (cases "getUidByConn (users w) conn = 0 \<or> req_from_uid req \<noteq> getUidByConn (users w) conn")
  case True
  then have "outbox w' = outbox w @ frames p conn (CreateAck (this_time w) (env_seq env) 0 False
      (if getUidByConn (users w) conn = 0 then ''please login first'' else ''from_uid does not match session'')) \<and>
      store_ok w' L"
    using run handle_chat [OF env, of call p conn w] ok by auto
  then show ?thesis by (metis append_Nil)
next
  case False
  let ?from = "req_from_uid req" and ?cid = "req_client_msg_id req"
  let ?c = "ledger_create ?from (req_to_uid req) (req_content req) ?cid (this_time w) L"
  obtain w1 where c: "run call (createMessage ?from (req_to_uid req) (req_content req) ?cid) w =
      (if this_link w = Answered then fst ?c else empty_CreateMessageResult, w1)"
    and s: "store_step 1 w (after (this_link w) L (snd ?c)) w1"
    using redis_server.run_createMessage [OF server ok n] by blast
  note f = store_step_frame [OF s]
  show ?thesis
  proof (cases "this_link w = Answered")
    case lost: False
    then have "outbox w' = outbox w @ frames p conn (CreateAck (this_time w1) (env_seq env) 0 False ''message store unavailable'')"
      "store_ok w' (after (this_link w) L (snd ?c))"
      using run handle_chat [OF env, of call p conn w] c f False by (auto simp: empty_CreateMessageResult_def)
    then show ?thesis by (metis append_Nil)
  next
    case True
    have login: "getUidByConn (users w) conn = ?from" "?from \<noteq> 0" using False by auto
    from True obtain L' pushes t m good reason where "store_ok w' L'"
      "outbox w' = outbox w @ pushes @ frames p conn (CreateAck t (env_seq env) m good reason)"
      "chat_pushes p w req m pushes" "\<not> good \<longrightarrow> pushes = []"
      "good \<longrightarrow> (\<exists>r. msgs L' m = Some r \<and> from_uid r = ?from \<and> client_msg_id r = ?cid)"
      using redis_server.chat_answered [OF server ok n env login _ run] by metis
    then show ?thesis unfolding chat_pushes_def by blast
  qed
qed

theorem chat_ack_durable_witness:
  "\<exists>L' pushes t m good reason.
    store_ok (snd (run redis_call (handle echo_platform (chat_event 7 (CreateChatRequest 5 9 1 2 ''hi'' ''c1'')))
      ((demo_login 0 1000)\<lparr>link_of := \<lambda>_. ReplyLost\<rparr>))) L' \<and>
    outbox (snd (run redis_call (handle echo_platform (chat_event 7 (CreateChatRequest 5 9 1 2 ''hi'' ''c1'')))
      ((demo_login 0 1000)\<lparr>link_of := \<lambda>_. ReplyLost\<rparr>))) =
        pushes @ frames echo_platform 7 (CreateAck t 9 m good reason) \<and>
    (good \<longrightarrow> (\<exists>r. msgs L' m = Some r \<and> from_uid r = 1 \<and> client_msg_id r = ''c1''))"
proof -
  let ?e = "CreateChatRequest 5 9 1 2 ''hi'' ''c1''" and ?w = "(demo_login 0 1000)\<lparr>link_of := \<lambda>_. ReplyLost\<rparr>"
  let ?req = "\<lparr>req_from_uid = 1, req_to_uid = 2, req_content = ''hi'', req_client_msg_id = ''c1''\<rparr>"
  have e: "env_type ?e = CHAT_REQ" "env_payload ?e = kChatReq ?req" "env_seq ?e = 9" by (simp_all add: CreateChatRequest_def)
  have "store_ok (demo_login 0 1000) (counted_ledger 0)" by (rule demo_login_ok) simp_all
  then have "store_ok ?w (counted_ledger 0)" by (simp add: store_ok_def)
  moreover have "next_id (counted_ledger 0) + 1 < 10 ^ 14" by (simp add: counted_ledger_def)
  ultimately show ?thesis
    using chat_ack_durable [OF reference.redis_server_axioms _ _ e(1,2), of ?w "counted_ledger 0" echo_platform 7, OF _ _ prod.collapse [symmetric]]
    unfolding e(3) by fastforce
qed

end
