(* ===== verification/Redelivery.thy ===== *)
theory Redelivery
  imports Delivery
begin

text \<open>
  The loops over messages: replaying a user's Pending messages at login, and the delivery thread's round
  over the messages whose acknowledgement is overdue; and the handler of acknowledgements.
\<close>

section \<open>A loop over messages of the ledger\<close>

text \<open>
  A loop body that changes only its own message.  \<open>Q r r' fs\<close> relates the record before, the record
  after and the frames sent.
\<close>

definition settles :: "command_table \<Rightarrow> world \<Rightarrow> (MessageRecord \<Rightarrow> 'a proc) \<Rightarrow> MessageRecord \<Rightarrow>
    (MessageRecord \<Rightarrow> MessageRecord \<Rightarrow> (TcpConnectionPtr \<times> string) list \<Rightarrow> bool) \<Rightarrow> bool" where
  "settles call w0 body r Q \<longleftrightarrow> (\<forall>w L. store_ok w L \<longrightarrow> room L \<longrightarrow> same_env w0 w \<longrightarrow> msgs L (msg_id r) = Some r \<longrightarrow>
     (\<exists>w' r' fs. snd (run call (body r) w) = w' \<and> same_env w w' \<and> outbox w' = outbox w @ fs \<and>
        store_ok w' (L\<lparr>msgs := (msgs L)(msg_id r \<mapsto> r')\<rparr>) \<and> room (L\<lparr>msgs := (msgs L)(msg_id r \<mapsto> r')\<rparr>) \<and> Q r r' fs))"

lemma run_settles:
  assumes "\<And>r. r \<in> set rs \<Longrightarrow> settles call w0 body r Q" "\<And>r. r \<in> set rs \<Longrightarrow> msgs L (msg_id r) = Some r"
    "distinct (map msg_id rs)" "store_ok w L" "room L" "same_env w0 w"
  shows "\<exists>w' L' fss. run call (for_each rs body) w = ((), w') \<and> same_env w w' \<and> store_ok w' L' \<and>
    outbox w' = outbox w @ concat fss \<and>
    list_all2 (\<lambda>r fs. \<exists>r'. msgs L' (msg_id r) = Some r' \<and> Q r r' fs) rs fss \<and>
    (\<forall>i. i \<notin> msg_id ` set rs \<longrightarrow> msgs L' i = msgs L i)"
  using assms
proof (induction rs arbitrary: w L)
  case Nil
  then show ?case by (intro exI [of _ w] exI [of _ L] exI [of _ "[]"]) simp
next
  case (Cons r rs)
  have "settles call w0 body r Q" "msgs L (msg_id r) = Some r" using Cons.prems(1,2) by simp_all
  then obtain w1 r' fs where b: "snd (run call (body r) w) = w1" "same_env w w1" "outbox w1 = outbox w @ fs" "Q r r' fs"
    and w1: "store_ok w1 (L\<lparr>msgs := (msgs L)(msg_id r \<mapsto> r')\<rparr>)" "room (L\<lparr>msgs := (msgs L)(msg_id r \<mapsto> r')\<rparr>)"
    using Cons.prems(4-6) unfolding settles_def by metis
  let ?L = "L\<lparr>msgs := (msgs L)(msg_id r \<mapsto> r')\<rparr>"
  have other: "msgs ?L (msg_id q) = Some q" if "q \<in> set rs" for q
    using that Cons.prems(2) [of q] Cons.prems(3) by (auto simp: image_iff)
  have "\<exists>w' L' fss. run call (for_each rs body) w1 = ((), w') \<and> same_env w1 w' \<and> store_ok w' L' \<and>
    outbox w' = outbox w1 @ concat fss \<and>
    list_all2 (\<lambda>r fs. \<exists>r'. msgs L' (msg_id r) = Some r' \<and> Q r r' fs) rs fss \<and>
    (\<forall>i. i \<notin> msg_id ` set rs \<longrightarrow> msgs L' i = msgs ?L i)"
    using Cons.prems(1,3) other w1 same_env_trans [OF Cons.prems(6) b(2)] by (intro Cons.IH) auto
  then obtain w' L' fss where i: "run call (for_each rs body) w1 = ((), w')" "same_env w1 w'" "store_ok w' L'"
    "outbox w' = outbox w1 @ concat fss" "list_all2 (\<lambda>r fs. \<exists>r'. msgs L' (msg_id r) = Some r' \<and> Q r r' fs) rs fss"
    "\<forall>i. i \<notin> msg_id ` set rs \<longrightarrow> msgs L' i = msgs ?L i"
    by blast
  have "msgs L' (msg_id r) = Some r'" using i(6) Cons.prems(3) by (auto simp: image_iff)
  then show ?case
    using b i same_env_trans [OF b(2) i(2)]
    by (intro exI [of _ w'] exI [of _ L'] exI [of _ "fs # fss"]) (auto split: prod.splits)
qed

section \<open>The bodies of the loops\<close>

definition chat_push :: "u64 \<Rightarrow> u64 \<Rightarrow> MessageRecord \<Rightarrow> bool \<Rightarrow> Envelope" where
  "chat_push t t' r history = CreateChatPush t t' (msg_id r) (msg_id r) (from_uid r) (to_uid r) (content r)
     (created_at_ms r) history"

lemma push_env_chat_push: "push_env w r history = chat_push (this_time w) (clock w (Suc (ticks w))) r history"
  by (simp add: push_env_def chat_push_def)

text \<open>A push to the recipient's connection that leaves the message Delivered.\<close>

definition pushed :: "platform \<Rightarrow> world \<Rightarrow> MessageRecord \<Rightarrow> (TcpConnectionPtr \<times> string) list \<Rightarrow> bool" where
  "pushed p w r fs \<longleftrightarrow> (\<exists>t t'. fs = frames p (getConnByUid (users w) (to_uid r)) (chat_push t t' r False))"

text \<open>The record of a message delivered at a reading of the clock that was taken in or after the world \<open>w\<close>.\<close>

definition delivered_in :: "world \<Rightarrow> MessageRecord \<Rightarrow> MessageRecord \<Rightarrow> bool" where
  "delivered_in w r r' \<longleftrightarrow> (\<exists>k \<ge> ticks w. r' = r\<lparr>status := Delivered, delivered_at_ms := clock w k\<rparr>)"

definition replayed :: "platform \<Rightarrow> world \<Rightarrow> MessageRecord \<Rightarrow> MessageRecord \<Rightarrow> (TcpConnectionPtr \<times> string) list \<Rightarrow> bool" where
  "replayed p w r r' fs \<longleftrightarrow> pushed p w r fs \<and> delivered_in w r r'"

text \<open>What a round of the delivery thread does to an overdue message: the record it leaves and what it sends.\<close>

definition rescheduled :: "platform \<Rightarrow> world \<Rightarrow> MessageRecord \<Rightarrow> MessageRecord \<Rightarrow> (TcpConnectionPtr \<times> string) list \<Rightarrow> bool" where
  "rescheduled p w r r' fs \<longleftrightarrow>
    (if retry_count r \<ge> kMaxDeliveryRetryCount then r' = r\<lparr>status := Failed\<rparr> \<and> fs = []
     else if online w (to_uid r) then delivered_in w (r\<lparr>retry_count := retry_count r + 1\<rparr>) r' \<and> pushed p w r fs
     else r' = r\<lparr>status := Pending\<rparr> \<and> fs = [])"

lemma pushed_env: "same_env w0 w \<Longrightarrow> pushed p w r fs = pushed p w0 r fs"
  by (simp add: pushed_def same_env_def)

lemma delivered_env: "same_env w0 w \<Longrightarrow> delivered_in w r r' \<Longrightarrow> delivered_in w0 r r'"
  unfolding delivered_in_def same_env_def by (metis order_trans)

lemma rescheduled_env:
  assumes "same_env w0 w" "rescheduled p w r r' fs"
  shows "rescheduled p w0 r r' fs"
  using assms delivered_env [OF assms(1)] unfolding rescheduled_def same_env_online [OF assms(1)] pushed_env [OF assms(1)]
  by (simp split: if_splits)

lemma room_update:
  assumes "room L" "retry_count r' + 1 < 2 ^ 62"
  shows "room (L\<lparr>msgs := (msgs L)(i \<mapsto> r')\<rparr>)"
  using assms by (simp add: room_def)

context redis_server
begin

lemma tryDeliver_settles:
  assumes links: "\<forall>k. link_of w0 k = Answered" and on: "online w0 (to_uid r)" and r: "status r = Pending"
  shows "settles call w0 (tryDeliverMessage p) r (replayed p w0)"
  unfolding settles_def
proof (intro allI impI)
  fix w L
  assume ok: "store_ok w L" and room: "room L" and env: "same_env w0 w" and i: "msgs L (msg_id r) = Some r"
  have "online w (to_uid r)" using same_env_online [OF env] on by simp
  from run_tryDeliver_online [OF ok _ _ this, of p] r
  obtain w' where w': "run call (tryDeliverMessage p r) w = (True, w')" "same_env w w'"
    "outbox w' = outbox w @ frames p (getConnByUid (users w) (to_uid r)) (push_env w r False)"
    "store_ok w' (after (this_link w) L (snd (ledger_deliver (msg_id r) (clock w (ticks w + push_ticks r)) L)))"
    by auto
  let ?r' = "r\<lparr>status := Delivered, delivered_at_ms := clock w (ticks w + push_ticks r)\<rparr>"
  have "this_link w = Answered" using links env by (simp add: same_env_def)
  then have "store_ok w' (L\<lparr>msgs := (msgs L)(msg_id r \<mapsto> ?r')\<rparr>)"
    using w'(4) i by (simp add: after_def ledger_deliver_def ledger_update_def)
  moreover have "room (L\<lparr>msgs := (msgs L)(msg_id r \<mapsto> ?r')\<rparr>)"
    by (rule room_update [OF room]) (use room i in \<open>simp add: room_def\<close>)
  moreover have "replayed p w0 r ?r' (frames p (getConnByUid (users w) (to_uid r)) (push_env w r False))"
    using env unfolding replayed_def pushed_def push_env_chat_push same_env_def delivered_in_def
    by (auto intro!: exI [of _ "ticks w + push_ticks r"])
  ultimately show "\<exists>w' r' fs. snd (run call (tryDeliverMessage p r) w) = w' \<and> same_env w w' \<and>
      outbox w' = outbox w @ fs \<and> store_ok w' (L\<lparr>msgs := (msgs L)(msg_id r \<mapsto> r')\<rparr>) \<and>
      room (L\<lparr>msgs := (msgs L)(msg_id r \<mapsto> r')\<rparr>) \<and> replayed p w0 r r' fs"
    using w'(1-3) by (metis snd_conv)
qed

lemma run_retryDeliver_online:
  assumes ok: "store_ok w L" and room: "room L" and r: "status r \<noteq> Acked" "status r \<noteq> Failed" and on: "online w (to_uid r)"
    and links: "\<forall>k. link_of w k = Answered"
  shows "\<exists>w'. run call (retryDeliverMessage p r) w = (True, w') \<and> same_env w w' \<and>
    outbox w' = outbox w @ frames p (getConnByUid (users w) (to_uid r)) (push_env w r False) \<and>
    store_ok w' (snd (ledger_deliver (msg_id r) (clock w (ticks w + push_ticks r)) (snd (ledger_retry (msg_id r) L))))"
proof -
  let ?L = "snd (ledger_retry (msg_id r) L)"
  obtain b w1 where i: "run call (incrementRetryCount (msg_id r)) w = (b, w1)" and s: "store_step 0 w ?L w1"
    using run_incrementRetryCount [OF ok room, of "msg_id r"] links by (auto simp: after_def)
  note f = store_step_frame [OF s]
  let ?w = "sent p (getConnByUid (users w) (to_uid r)) (push_env w r False) (w1\<lparr>ticks := ticks w1 + push_ticks r\<rparr>)"
  have "store_ok ?w ?L" using f(1) by simp
  then obtain b' w' where m: "run call (markDelivered (msg_id r)) ?w = (b', w')"
    and s': "store_step 1 ?w (snd (ledger_deliver (msg_id r) (this_time ?w) ?L)) w'"
    using run_markDelivered links f by (fastforce simp: after_def)
  have "push_env w1 r False = push_env w r False" using f by (simp add: push_env_def)
  then show ?thesis
    using r on i m f store_step_frame [OF s'] same_env_trans [OF same_env_step [OF s]] same_env_step [OF s']
    by (auto simp: retryDeliverMessage_def online_def same_env_def)
qed

lemma run_retryDeliver_offline:
  assumes ok: "store_ok w L" and r: "status r \<noteq> Acked" "status r \<noteq> Failed" and off: "\<not> online w (to_uid r)"
    and links: "\<forall>k. link_of w k = Answered"
  shows "\<exists>w'. run call (retryDeliverMessage p r) w = (False, w') \<and> store_step 1 w (snd (ledger_pend (msg_id r) L)) w'"
proof -
  obtain b w' where "run call (markPending (msg_id r)) w = (b, w')" "store_step 1 w (snd (ledger_pend (msg_id r) L)) w'"
    using run_markPending [OF ok, of "msg_id r"] links by (auto simp: after_def)
  then show ?thesis using r off by (auto simp: retryDeliverMessage_def online_def)
qed

end

definition scan_body :: "platform \<Rightarrow> MessageRecord \<Rightarrow> bool proc" where
  "scan_body p r = (if retry_count r \<ge> kMaxDeliveryRetryCount then markFailed (msg_id r) else retryDeliverMessage p r)"

context redis_server
begin

lemma run_scan_body:
  assumes ok: "store_ok w L" and room: "room L" and i: "msgs L (msg_id r) = Some r" and r: "status r = Delivered"
    and links: "\<forall>k. link_of w k = Answered"
  shows "\<exists>w' r' fs. snd (run call (scan_body p r) w) = w' \<and> same_env w w' \<and> outbox w' = outbox w @ fs \<and>
    store_ok w' (L\<lparr>msgs := (msgs L)(msg_id r \<mapsto> r')\<rparr>) \<and> rescheduled p w r r' fs"
proof (cases "retry_count r \<ge> kMaxDeliveryRetryCount")
  case True
  obtain b w' where m: "run call (markFailed (msg_id r)) w = (b, w')" and s: "store_step 1 w (snd (ledger_fail (msg_id r) L)) w'"
    using run_markFailed [OF ok, of "msg_id r"] links by (auto simp: after_def)
  then show ?thesis
    using True i store_step_frame [OF s] same_env_step [OF s]
    by (auto simp: scan_body_def rescheduled_def ledger_fail_def ledger_update_def intro!: exI [of _ "r\<lparr>status := Failed\<rparr>"])
next
  case low: False
  show ?thesis
  proof (cases "online w (to_uid r)")
    case True
    obtain w' where w': "run call (retryDeliverMessage p r) w = (True, w')" "same_env w w'"
      "outbox w' = outbox w @ frames p (getConnByUid (users w) (to_uid r)) (push_env w r False)"
      "store_ok w' (snd (ledger_deliver (msg_id r) (clock w (ticks w + push_ticks r)) (snd (ledger_retry (msg_id r) L))))"
      using run_retryDeliver_online [OF ok room _ _ True links, of p] r by auto
    let ?r' = "r\<lparr>retry_count := retry_count r + 1, status := Delivered, delivered_at_ms := clock w (ticks w + push_ticks r)\<rparr>"
    have "store_ok w' (L\<lparr>msgs := (msgs L)(msg_id r \<mapsto> ?r')\<rparr>)"
      using w'(4) i by (simp add: ledger_deliver_def ledger_retry_def ledger_update_def)
    then show ?thesis
      using low True w'(1-3)
      by (auto simp: scan_body_def rescheduled_def delivered_in_def pushed_def push_env_chat_push intro!: exI [of _ ?r']
          exI [of _ "ticks w + push_ticks r"])
  next
    case False
    obtain w' where "run call (retryDeliverMessage p r) w = (False, w')" and s: "store_step 1 w (snd (ledger_pend (msg_id r) L)) w'"
      using run_retryDeliver_offline [OF ok _ _ False links, of p] r by auto
    then show ?thesis
      using low False i store_step_frame [OF s] same_env_step [OF s]
      by (auto simp: scan_body_def rescheduled_def ledger_pend_def ledger_update_def intro!: exI [of _ "r\<lparr>status := Pending\<rparr>"])
  qed
qed

lemma scan_settles:
  assumes links: "\<forall>k. link_of w0 k = Answered" and r: "status r = Delivered"
  shows "settles call w0 (scan_body p) r (rescheduled p w0)"
  unfolding settles_def
proof (intro allI impI)
  fix w L
  assume ok: "store_ok w L" and room: "room L" and env: "same_env w0 w" and i: "msgs L (msg_id r) = Some r"
  have "\<forall>k. link_of w k = Answered" using links env by (simp add: same_env_def)
  then obtain w' r' fs where w': "snd (run call (scan_body p r) w) = w'" "same_env w w'" "outbox w' = outbox w @ fs"
      "store_ok w' (L\<lparr>msgs := (msgs L)(msg_id r \<mapsto> r')\<rparr>)" "rescheduled p w r r' fs"
    using run_scan_body [OF ok room i r, of p] by blast
  have resched: "rescheduled p w0 r r' fs" by (rule rescheduled_env [OF env w'(5)])
  have "retry_count r' + 1 < 2 ^ 62"
    using resched room i
    by (auto simp: rescheduled_def delivered_in_def kMaxDeliveryRetryCount_def room_def split: if_splits)
  then have "room (L\<lparr>msgs := (msgs L)(msg_id r \<mapsto> r')\<rparr>)" by (rule room_update [OF room])
  with w' resched show "\<exists>w' r' fs. snd (run call (scan_body p r) w) = w' \<and> same_env w w' \<and>
      outbox w' = outbox w @ fs \<and> store_ok w' (L\<lparr>msgs := (msgs L)(msg_id r \<mapsto> r')\<rparr>) \<and>
      room (L\<lparr>msgs := (msgs L)(msg_id r \<mapsto> r')\<rparr>) \<and> rescheduled p w0 r r' fs"
    by blast
qed

end

text \<open>Retry counters within the range of \<^verbatim>\<open>int\<close>, so that a reader sees the record that is stored.\<close>

definition small_counts :: "ledger \<Rightarrow> bool" where
  "small_counts L \<longleftrightarrow> (\<forall>i r. msgs L i = Some r \<longrightarrow> retry_count r < 2 ^ 31)"

lemma small_parsed: "ledger_ok L \<Longrightarrow> small_counts L \<Longrightarrow> msgs L i = Some r \<Longrightarrow> parsed r = r"
  using ledger_okD(7) by (auto simp: small_counts_def intro!: parsed_small)

lemma small_room: "small_counts L \<Longrightarrow> next_id L + 1 < 10 ^ 14 \<Longrightarrow> room L"
  by (force simp: small_counts_def room_def)

lemma small_records:
  assumes "ledger_ok L" "small_counts L"
  shows "{parsed r | r i. msgs L i = Some r \<and> P r} = {r. msgs L (msg_id r) = Some r \<and> P r}"
proof (intro set_eqI iffI)
  fix x assume "x \<in> {parsed r | r i. msgs L i = Some r \<and> P r}"
  then obtain r i where "x = parsed r" "msgs L i = Some r" "P r" by blast
  then show "x \<in> {r. msgs L (msg_id r) = Some r \<and> P r}"
    using small_parsed [OF assms] ledger_okD(1) [OF assms(1)] by simp
next
  fix x assume x: "x \<in> {r. msgs L (msg_id r) = Some r \<and> P r}"
  then have "x = parsed x" using small_parsed [OF assms, of "msg_id x" x] by simp
  then show "x \<in> {parsed r | r i. msgs L i = Some r \<and> P r}" using x by blast
qed

text \<open>
  C11: a round of the delivery thread, with Redis answering, treats every overdue message exactly once
  and no other: one that has had its retries becomes Failed without a push; one whose recipient is online is
  pushed again, Delivered with its retry counter raised by one and a reading of the clock taken in this round as
  its new delivery time; one whose recipient is offline goes back to Pending.  No other field of such a message
  changes, nothing else is sent and no other message changes.
\<close>

theorem scan_reschedules:
  assumes server: "redis_server call" and ok: "store_ok w L" and counts: "small_counts L" "next_id L + 1 < 10 ^ 14"
    and links: "\<forall>k. link_of w k = Answered" and run: "run call (delivery_scan p) w = (u, w')"
  shows "\<exists>rs fss L'. set rs = {r. msgs L (msg_id r) = Some r \<and> timed_out (this_time w) kAckTimeoutMs r} \<and>
    distinct (map msg_id rs) \<and> store_ok w' L' \<and> outbox w' = outbox w @ concat fss \<and>
    list_all2 (\<lambda>r fs. \<exists>r'. msgs L' (msg_id r) = Some r' \<and> rescheduled p w r r' fs) rs fss \<and>
    (\<forall>i. i \<notin> msg_id ` set rs \<longrightarrow> msgs L' i = msgs L i)"
proof -
  let ?w = "w\<lparr>ticks := Suc (ticks w)\<rparr>" and ?P = "timed_out (this_time w) kAckTimeoutMs"
  have ok1: "store_ok ?w L" and lok: "ledger_ok L" using ok store_okD(2) by simp_all
  have "\<exists>rs n. run call (getTimeoutDeliveredMessages (this_time w) kAckTimeoutMs) ?w = (rs, ?w\<lparr>requests := n\<rparr>) \<and>
      listing L ?P delivered_at_ms rs"
    by (rule redis_server.run_getTimeoutDeliveredMessages [OF server ok1 store_okD(3) [OF ok], of "ticks w" kAckTimeoutMs])
      (use links in auto)
  then obtain rs n where q: "run call (getTimeoutDeliveredMessages (this_time w) kAckTimeoutMs) ?w = (rs, ?w\<lparr>requests := n\<rparr>)"
    and list: "listing L ?P delivered_at_ms rs" by blast
  let ?w1 = "?w\<lparr>requests := n\<rparr>"
  have rs: "set rs = {r. msgs L (msg_id r) = Some r \<and> ?P r}" "distinct (map msg_id rs)"
    using list small_records [OF lok counts(1), of ?P] by (simp_all add: listing_def)
  have settle: "settles call w (scan_body p) r (rescheduled p w)" if "r \<in> set rs" for r
    by (rule redis_server.scan_settles [OF server links]) (use that rs(1) in \<open>auto simp: timed_out_def\<close>)
  have raw: "msgs L (msg_id r) = Some r" if "r \<in> set rs" for r using that rs(1) by simp
  have w1: "store_ok ?w1 L" "same_env w ?w1" using ok by (simp_all add: same_env_def)
  obtain w2 L' fss where "run call (for_each rs (scan_body p)) ?w1 = ((), w2)" "store_ok w2 L'"
    "outbox w2 = outbox ?w1 @ concat fss" "\<forall>i. i \<notin> msg_id ` set rs \<longrightarrow> msgs L' i = msgs L i"
    "list_all2 (\<lambda>r fs. \<exists>r'. msgs L' (msg_id r) = Some r' \<and> rescheduled p w r r' fs) rs fss"
    using run_settles [OF settle raw rs(2) w1(1) small_room [OF counts] w1(2)] by blast
  moreover have "delivery_scan p = NowMs (\<lambda>now. bind (getTimeoutDeliveredMessages now kAckTimeoutMs) (\<lambda>rs. for_each rs (scan_body p)))"
    by (simp add: delivery_scan_def scan_body_def [abs_def])
  ultimately show ?thesis
    using run q rs by (intro exI [of _ rs] exI [of _ fss] exI [of _ L']) (simp add: read_clock_def)
qed

text \<open>A message that was delivered at time 1000 to a user who has since gone, seen at time 20000.\<close>

lemma demo_overdue:
  obtains w L where "store_ok w L" "small_counts L" "next_id L + 1 < 10 ^ 14" "\<forall>k. link_of w k = Answered"
    "\<forall>k. clock w k = 20000" "users w = empty_UserStateService"
    "msgs L = [1 \<mapsto> new_record 1 1 2 ''hi'' ''c1'' 1000\<lparr>status := Delivered, delivered_at_ms := 1000\<rparr>]"
proof -
  obtain res w L where c: "run redis_call (createMessage 1 2 ''hi'' ''c1'') (demo_world 0 1000) = (res, w)"
    and w: "store_ok w L" "\<forall>k. link_of w k = Answered" "\<forall>k. clock w k = 1000"
    and L: "msgs L = [1 \<mapsto> new_record 1 1 2 ''hi'' ''c1'' 1000]" "next_id L = 0 + 1"
    by (rule demo_message [of 0 1000 1]) simp_all
  let ?L = "snd (ledger_deliver 1 1000 L)"
  obtain w1 where s: "store_step 1 w ?L w1"
    using reference.run_markDelivered [OF w(1), of 1] w(2,3) by (auto simp: after_def)
  have u: "users w = empty_UserStateService"
    using demo_create [of 0 1000] c store_step_frame(6) by fastforce
  have m: "msgs ?L = [1 \<mapsto> new_record 1 1 2 ''hi'' ''c1'' 1000\<lparr>status := Delivered, delivered_at_ms := 1000\<rparr>]"
    "next_id ?L = 1"
    using L by (simp_all add: ledger_deliver_def ledger_update_def)
  let ?w = "w1\<lparr>clock := \<lambda>_. 20000\<rparr>"
  have "store_ok ?w ?L" using store_step_frame(1) [OF s] by (simp add: store_ok_def)
  then show ?thesis
    by (rule that) (use m w(2) u store_step_frame [OF s] in \<open>simp_all add: small_counts_def new_record_def\<close>)
qed

theorem scan_reschedules_witness:
  "\<exists>w w' L'. run redis_call (delivery_scan echo_platform) w = ((), w') \<and> store_ok w' L' \<and>
     msgs L' 1 = Some (new_record 1 1 2 ''hi'' ''c1'' 1000\<lparr>status := Pending, delivered_at_ms := 1000\<rparr>)"
proof -
  obtain w L where w: "store_ok w L" "small_counts L" "next_id L + 1 < 10 ^ 14" "\<forall>k. link_of w k = Answered"
    "\<forall>k. clock w k = 20000" "users w = empty_UserStateService"
    and L: "msgs L = [1 \<mapsto> new_record 1 1 2 ''hi'' ''c1'' 1000\<lparr>status := Delivered, delivered_at_ms := 1000\<rparr>]"
    by (rule demo_overdue)
  let ?r = "new_record 1 1 2 ''hi'' ''c1'' 1000\<lparr>status := Delivered, delivered_at_ms := 1000\<rparr>"
  obtain w' where run: "run redis_call (delivery_scan echo_platform) w = ((), w')" by (metis old.unit.exhaust surj_pair)
  have "timed_out (this_time w) kAckTimeoutMs ?r" "msgs L (msg_id ?r) = Some ?r"
    using w(5) L by (simp_all add: timed_out_def kAckTimeoutMs_def new_record_def)
  moreover obtain rs fss L' where s: "set rs = {r. msgs L (msg_id r) = Some r \<and> timed_out (this_time w) kAckTimeoutMs r}"
    "store_ok w' L'" "list_all2 (\<lambda>r fs. \<exists>r'. msgs L' (msg_id r) = Some r' \<and> rescheduled echo_platform w r r' fs) rs fss"
    using scan_reschedules [OF reference.redis_server_axioms w(1-4) run] by (elim exE conjE) (rule that; assumption)
  ultimately have "?r \<in> set rs" by simp
  then obtain r' fs where "msgs L' (msg_id ?r) = Some r'" "rescheduled echo_platform w ?r r' fs"
    using list_all2_memD [OF s(3)] by blast
  then have "msgs L' 1 = Some (new_record 1 1 2 ''hi'' ''c1'' 1000\<lparr>status := Pending, delivered_at_ms := 1000\<rparr>)"
    using w(6) by (simp add: rescheduled_def kMaxDeliveryRetryCount_def new_record_def online_def getConnByUid_def
        empty_UserStateService_def)
  then show ?thesis using run s(2) by blast
qed

end
