(* ===== verification/Login.thy ===== *)
theory Login
  imports Redelivery
begin

text \<open>
  What a user gets on logging in: the Pending messages, or, when there are none, the recent history; and
  what the acknowledgement of a message does.
\<close>

section \<open>Logging in\<close>

text \<open>The world in which the login's deliveries start.\<close>

definition logged_in :: "platform \<Rightarrow> TcpConnectionPtr \<Rightarrow> u64 \<Rightarrow> u64 \<Rightarrow> world \<Rightarrow> world" where
  "logged_in p conn seq uid w =
    sent p conn (CreateLoginResponse (clock w (Suc (ticks w))) seq True [])
      (w\<lparr>users := snd (bindUser (this_time w) conn uid (users w)), ticks := Suc (Suc (ticks w))\<rparr>)"

lemma run_login:
  assumes "env_type env = LOGIN_REQ" "env_payload env = kLoginReq \<lparr>login_uid = uid\<rparr>" "uid \<noteq> 0" "conn \<noteq> 0"
  shows "run call (handle p (chat_event conn env)) w =
    run call (deliverLoginMessages p uid) (logged_in p conn (env_seq env) uid w)"
proof -
  obtain s where "bindUser (this_time w) conn uid (users w) = (True, s)"
    using users.bind_valid [of "this_time w" conn uid "users w"] assms(3,4) by (metis prod.collapse)
  then show ?thesis
    using assms by (simp add: handle_def handleLogin_def Let_def bind_user_def read_clock_def logged_in_def)
qed

lemma logged_in_fields [simp]:
  "redis (logged_in p conn seq uid w) = redis w" "clock (logged_in p conn seq uid w) = clock w"
  "link_of (logged_in p conn seq uid w) = link_of w" "up (logged_in p conn seq uid w) = up w"
  "outbox (logged_in p conn seq uid w) = outbox w @ frames p conn (CreateLoginResponse (clock w (Suc (ticks w))) seq True [])"
  "users (logged_in p conn seq uid w) = snd (bindUser (this_time w) conn uid (users w))"
  by (simp_all add: logged_in_def)

lemma store_ok_logged_in [simp]: "store_ok (logged_in p conn seq uid w) L = store_ok w L"
  by (simp add: store_ok_def)

lemma logged_in_conn:
  assumes "user_inv (users w)" "uid \<noteq> 0" "conn \<noteq> 0"
  shows "getConnByUid (users (logged_in p conn seq uid w)) uid = conn"
  using users.conn_of_bind [OF assms(1), of "this_time w" conn uid] users.bind_valid assms(2,3) by simp

lemma delivered_logged_in: "delivered_in (logged_in p conn seq uid w) r r' \<Longrightarrow> delivered_in w r r'"
proof -
  assume "delivered_in (logged_in p conn seq uid w) r r'"
  then obtain k where "Suc (Suc (ticks w)) \<le> k" "r' = r\<lparr>status := Delivered, delivered_at_ms := clock w k\<rparr>"
    by (auto simp: delivered_in_def logged_in_def)
  then show "delivered_in w r r'" unfolding delivered_in_def by (metis Suc_leD)
qed

abbreviation "pending_for uid r \<equiv> to_uid r = uid \<and> status r = Pending"

lemma pending_records:
  assumes server: "redis_server call" and ok: "store_ok w L" and counts: "small_counts L"
    and links: "\<forall>k. link_of w k = Answered"
  obtains rs n where "run call (getPendingMessages uid) w = (rs, w\<lparr>requests := n\<rparr>)"
    "set rs = {r. msgs L (msg_id r) = Some r \<and> pending_for uid r}" "distinct (map msg_id rs)"
    "sorted (map (\<lambda>r. (unat (created_at_ms r), to_string (msg_id r))) rs)"
proof -
  have "\<exists>rs n. run call (getPendingMessages uid) w = (rs, w\<lparr>requests := n\<rparr>) \<and> listing L (pending_for uid) created_at_ms rs"
    by (rule redis_server.run_getPendingMessages [OF server ok, of uid]) (use links in auto)
  then show ?thesis
    using that small_records [OF store_okD(2) [OF ok] counts, of "pending_for uid"]
    by (auto simp: listing_def)
qed

text \<open>
  C17: a login with Pending messages waiting, with Redis answering.  The login is confirmed first; then every
  Pending message of the user is pushed on the new connection exactly once, in the order of the creation times,
  messages of one millisecond in the order of the decimal text of their identifiers.  Afterwards each of them is
  Delivered, at a time read during the login, with its other fields kept; no other message changes and nothing
  else is sent.
\<close>

theorem login_replays_pending:
  assumes server: "redis_server call" and ok: "store_ok w L" and counts: "small_counts L" "next_id L + 1 < 10 ^ 14"
    and links: "\<forall>k. link_of w k = Answered" and inv: "user_inv (users w)" and up: "up w conn" "conn \<noteq> 0" "uid \<noteq> 0"
    and env: "env_type env = LOGIN_REQ" "env_payload env = kLoginReq \<lparr>login_uid = uid\<rparr>"
    and some: "\<exists>r. msgs L (msg_id r) = Some r \<and> pending_for uid r"
    and run: "run call (handle p (chat_event conn env)) w = (u, w')"
  shows "\<exists>rs fss L' t. set rs = {r. msgs L (msg_id r) = Some r \<and> pending_for uid r} \<and> distinct (map msg_id rs) \<and>
    sorted (map (\<lambda>r. (unat (created_at_ms r), to_string (msg_id r))) rs) \<and> store_ok w' L' \<and>
    outbox w' = outbox w @ frames p conn (CreateLoginResponse t (env_seq env) True []) @ concat fss \<and>
    list_all2 (\<lambda>r fs. (\<exists>r'. msgs L' (msg_id r) = Some r' \<and> delivered_in w r r') \<and>
      (\<exists>t t'. fs = frames p conn (chat_push t t' r False))) rs fss \<and>
    (\<forall>i. i \<notin> msg_id ` set rs \<longrightarrow> msgs L' i = msgs L i)"
proof -
  let ?w = "logged_in p conn (env_seq env) uid w"
  have conn: "getConnByUid (users ?w) uid = conn" by (rule logged_in_conn [OF inv up(3,2)])
  have w: "store_ok ?w L" "\<forall>k. link_of ?w k = Answered" using ok links by simp_all
  obtain rs n where q: "run call (getPendingMessages uid) ?w = (rs, ?w\<lparr>requests := n\<rparr>)"
    and rs: "set rs = {r. msgs L (msg_id r) = Some r \<and> pending_for uid r}" "distinct (map msg_id rs)"
      "sorted (map (\<lambda>r. (unat (created_at_ms r), to_string (msg_id r))) rs)"
    by (rule pending_records [OF server w(1) counts(1) w(2)])
  let ?w1 = "?w\<lparr>requests := n\<rparr>"
  have settle: "settles call ?w (tryDeliverMessage p) r (replayed p ?w)" if "r \<in> set rs" for r
    by (rule redis_server.tryDeliver_settles [OF server w(2)]) (use that rs(1) conn up in \<open>auto simp: online_def\<close>)
  have raw: "msgs L (msg_id r) = Some r" if "r \<in> set rs" for r using that rs(1) by simp
  have w1: "store_ok ?w1 L" "same_env ?w ?w1" using w(1) by (simp_all add: same_env_def)
  obtain w2 L' fss where loop: "run call (for_each rs (tryDeliverMessage p)) ?w1 = ((), w2)" "store_ok w2 L'"
    "outbox w2 = outbox ?w1 @ concat fss" "\<forall>i. i \<notin> msg_id ` set rs \<longrightarrow> msgs L' i = msgs L i"
    "list_all2 (\<lambda>r fs. \<exists>r'. msgs L' (msg_id r) = Some r' \<and> replayed p ?w r r' fs) rs fss"
    using run_settles [OF settle raw rs(2) w1(1) small_room [OF counts] w1(2)] by blast
  have ne: "rs \<noteq> []" using some rs(1) by (metis (mono_tags, lifting) empty_iff list.set(1) mem_Collect_eq)
  then have w': "w' = w2"
    using run run_login [OF env up(3,2), of call p w] q loop(1) by (simp add: deliverLoginMessages_def deliverPendingMessages_def)
  have "list_all2 (\<lambda>r fs. (\<exists>r'. msgs L' (msg_id r) = Some r' \<and> delivered_in w r r') \<and>
      (\<exists>t t'. fs = frames p conn (chat_push t t' r False))) rs fss"
    using loop(5) by (rule list_all2_mono_set) (use rs(1) conn delivered_logged_in in \<open>auto simp: replayed_def pushed_def\<close>)
  then show ?thesis
    using rs loop(2-4) w' by (intro exI [of _ rs] exI [of _ fss] exI [of _ L'] exI [of _ "clock w (Suc (ticks w))"]) simp
qed

text \<open>A world in which user 1 has sent a message to user 2, who is not logged in.\<close>

lemma demo_waiting:
  obtains w L where "store_ok w L" "small_counts L" "next_id L + 1 < 10 ^ 14" "\<forall>k. link_of w k = Answered"
    "user_inv (users w)" "\<forall>c. up w c" "msgs L = [1 \<mapsto> new_record 1 1 2 ''hi'' ''c1'' 1000]"
proof -
  obtain res w L where c: "run redis_call (createMessage 1 2 ''hi'' ''c1'') (demo_world 0 1000) = (res, w)"
    and w: "store_ok w L" "\<forall>k. link_of w k = Answered"
    and L: "msgs L = [1 \<mapsto> new_record 1 1 2 ''hi'' ''c1'' 1000]" "next_id L = 0 + 1"
    by (rule demo_message [of 0 1000 1]) simp_all
  have u: "user_inv (users w)" "\<forall>c. up w c"
    using demo_create [of 0 1000] c store_step_frame user_inv_empty by fastforce+
  have "small_counts L" "next_id L + 1 < 10 ^ 14" using L by (simp_all add: small_counts_def new_record_def)
  then show ?thesis by (rule that [OF w(1) _ _ w(2) u L(1)])
qed

lemma demo_single:
  assumes "msgs L = [1 \<mapsto> r]" "msg_id r = 1" "P r" "set rs = {r. msgs L (msg_id r) = Some r \<and> P r}" "distinct (map msg_id rs)"
  shows "rs = [r]"
proof (rule list_of_singleton)
  have "x \<in> set rs \<longleftrightarrow> x = r" for x
    unfolding assms(4) mem_Collect_eq assms(1) fun_upd_apply using assms(2,3) by (metis option.distinct(1) option.inject)
  then show "set rs = {r}" by (simp add: set_eq_iff)
  show "distinct rs" using assms(5) by (simp add: distinct_map)
qed

lemma demo_push:
  assumes "list_all2 (\<lambda>r fs. \<exists>t t'. fs = frames p conn (chat_push t t' r h)) [new_record 1 1 2 ''hi'' ''c1'' 1000] fss"
  shows "\<exists>t t'. concat fss = frames p conn (CreateChatPush t t' 1 1 1 2 ''hi'' 1000 h)"
proof -
  obtain t t' where "concat fss = frames p conn (chat_push t t' (new_record 1 1 2 ''hi'' ''c1'' 1000) h)"
    using assms by (auto simp: list_all2_Cons1)
  moreover have "chat_push t t' (new_record 1 1 2 ''hi'' ''c1'' 1000) h = CreateChatPush t t' 1 1 1 2 ''hi'' 1000 h"
    by (simp add: chat_push_def new_record_def)
  ultimately show ?thesis by metis
qed

lemma login_request:
  "env_type (CreateLoginRequest t seq uid) = LOGIN_REQ" "env_seq (CreateLoginRequest t seq uid) = seq"
  "env_payload (CreateLoginRequest t seq uid) = kLoginReq \<lparr>login_uid = uid\<rparr>"
  by (simp_all add: CreateLoginRequest_def)

text \<open>
  The witness: messages 9 and 10 have been stored for user 2 in one millisecond; the login pushes 10, then 9.
\<close>

lemma sorted_pair:
  assumes "set rs = {a, b}" "distinct rs" "sorted (map f rs)" "f a < f b"
  shows "rs = [a, b]"
proof -
  have "card (set rs) = 2" using assms(1,4) by (simp add: card_insert_if order.irrefl) (metis order.irrefl)
  then have "length rs = Suc (Suc 0)" using assms(2) by (simp add: distinct_card)
  then obtain x y where rs: "rs = [x, y]" by (auto simp: length_Suc_conv)
  then show ?thesis using assms by (auto simp: doubleton_eq_iff)
qed

theorem login_replays_pending_witness:
  "\<exists>w w' t t1 t2 t3 t4. run redis_call (handle echo_platform (chat_event 8 (CreateLoginRequest 5 3 2))) w = ((), w') \<and>
     outbox w' = outbox w @ frames echo_platform 8 (CreateLoginResponse t 3 True []) @
       frames echo_platform 8 (CreateChatPush t1 t2 10 10 1 2 ''ho'' 1000 False) @
       frames echo_platform 8 (CreateChatPush t3 t4 9 9 1 2 ''hi'' 1000 False)"
proof -
  let ?r9 = "new_record 9 1 2 ''hi'' ''c1'' 1000" and ?r10 = "new_record 10 1 2 ''ho'' ''c2'' 1000" and ?e = "CreateLoginRequest 5 3 2"
  obtain w L where ok: "store_ok w L" and L: "next_id L = 10" "msgs L = [9 \<mapsto> ?r9, 10 \<mapsto> ?r10]"
    and links: "\<forall>k. link_of w k = Answered" and u: "users w = users (demo_world 8 1000)" "up w = up (demo_world 8 1000)"
    by (rule demo_two)
  have counts: "small_counts L" "next_id L + 1 < 10 ^ 14" using L by (simp_all add: small_counts_def new_record_def)
  have inv: "user_inv (users w)" using u(1) user_inv_empty by simp
  have rec: "{r. msgs L (msg_id r) = Some r \<and> pending_for 2 r} = {?r10, ?r9}"
    using L(2) by (auto simp: new_record_def split: if_splits)
  then have some: "\<exists>r. msgs L (msg_id r) = Some r \<and> pending_for 2 r" by blast
  have conn: "up w 8" "(8 :: TcpConnectionPtr) \<noteq> 0" "(2 :: u64) \<noteq> 0" using u(2) by simp_all
  obtain w' where run: "run redis_call (handle echo_platform (chat_event 8 ?e)) w = ((), w')" by (metis old.unit.exhaust surj_pair)
  obtain rs fss L' t where s: "set rs = {r. msgs L (msg_id r) = Some r \<and> pending_for 2 r}" "distinct (map msg_id rs)"
      "sorted (map (\<lambda>r. (unat (created_at_ms r), to_string (msg_id r))) rs)"
      "outbox w' = outbox w @ frames echo_platform 8 (CreateLoginResponse t (env_seq ?e) True []) @ concat fss" "store_ok w' L'"
    and all: "list_all2 (\<lambda>r fs. (\<exists>r'. msgs L' (msg_id r) = Some r' \<and> delivered_in w r r') \<and>
      (\<exists>t t'. fs = frames echo_platform 8 (chat_push t t' r False))) rs fss"
    using login_replays_pending [OF reference.redis_server_axioms ok counts links inv conn login_request(1,3) some run]
    by (elim exE conjE) (rule that)
  have "rs = [?r10, ?r9]"
    by (rule sorted_pair [OF _ _ s(3)]) (use s(1,2) rec text_order in \<open>simp_all add: distinct_map new_record_def\<close>)
  then obtain t1 t2 t3 t4 where "concat fss = frames echo_platform 8 (chat_push t1 t2 ?r10 False) @ frames echo_platform 8 (chat_push t3 t4 ?r9 False)"
    using all by (auto simp: list_all2_Cons1)
  moreover have "chat_push t t' ?r10 False = CreateChatPush t t' 10 10 1 2 ''ho'' 1000 False"
    "chat_push t t' ?r9 False = CreateChatPush t t' 9 9 1 2 ''hi'' 1000 False" for t t'
    by (simp_all add: chat_push_def new_record_def)
  ultimately show ?thesis using s(4) run unfolding login_request by metis
qed

section \<open>History\<close>

lemma run_history:
  "\<exists>fss n s. run call (for_each rs (\<lambda>r. bind (push_of r True) (sendEnvelope p conn))) w =
      ((), w\<lparr>outbox := outbox w @ concat fss, ticks := ticks w + n, shut := s\<rparr>) \<and>
    list_all2 (\<lambda>r fs. \<exists>t t'. fs = frames p conn (chat_push t t' r True)) rs fss"
proof (induction rs arbitrary: w)
  case Nil
  show ?case by (intro exI [of _ "[]"] exI [of _ 0] exI [of _ "shut w"]) simp
next
  case (Cons r rs)
  let ?w = "sent p conn (push_env w r True) (w\<lparr>ticks := ticks w + push_ticks r\<rparr>)"
  let ?fs = "frames p conn (push_env w r True)"
  obtain fss n s where i: "run call (for_each rs (\<lambda>r. bind (push_of r True) (sendEnvelope p conn))) ?w =
      ((), ?w\<lparr>outbox := outbox ?w @ concat fss, ticks := ticks ?w + n, shut := s\<rparr>)"
    and l: "list_all2 (\<lambda>r fs. \<exists>t t'. fs = frames p conn (chat_push t t' r True)) rs fss"
    using Cons.IH [of ?w] by blast
  have "?w\<lparr>outbox := outbox ?w @ concat fss, ticks := ticks ?w + n, shut := s\<rparr> =
      w\<lparr>outbox := outbox w @ concat (?fs # fss), ticks := ticks w + (push_ticks r + n), shut := s\<rparr>"
    by (simp add: sent_def)
  then have "run call (for_each (r # rs) (\<lambda>r. bind (push_of r True) (sendEnvelope p conn))) w =
      ((), w\<lparr>outbox := outbox w @ concat (?fs # fss), ticks := ticks w + (push_ticks r + n), shut := s\<rparr>)"
    using i by (simp del: concat.simps)
  moreover have "list_all2 (\<lambda>r fs. \<exists>t t'. fs = frames p conn (chat_push t t' r True)) (r # rs) (?fs # fss)"
    using l by (auto simp: push_env_chat_push)
  ultimately show ?case by blast
qed

text \<open>
  C30: a login with nothing Pending.  The login is confirmed and the user's newest messages, at most
  100 of them, sent and received ones, are pushed oldest first, marked as history; the ledger does not change.
\<close>

theorem login_replays_history:
  assumes server: "redis_server call" and ok: "store_ok w L" and counts: "small_counts L"
    and links: "\<forall>k. link_of w k = Answered" and inv: "user_inv (users w)" and up: "up w conn" "conn \<noteq> 0" "uid \<noteq> 0"
    and env: "env_type env = LOGIN_REQ" "env_payload env = kLoginReq \<lparr>login_uid = uid\<rparr>"
    and none: "\<forall>i r. msgs L i = Some r \<longrightarrow> \<not> pending_for uid r"
    and run: "run call (handle p (chat_event conn env)) w = (u, w')"
  shows "\<exists>full fss t. set full = {r. msgs L (msg_id r) = Some r \<and> (from_uid r = uid \<or> to_uid r = uid)} \<and>
    distinct (map msg_id full) \<and> sorted (map (\<lambda>r. unat (created_at_ms r)) full) \<and> store_ok w' L \<and>
    outbox w' = outbox w @ frames p conn (CreateLoginResponse t (env_seq env) True []) @ concat fss \<and>
    list_all2 (\<lambda>r fs. \<exists>t t'. fs = frames p conn (chat_push t t' r True)) (drop (length full - 100) full) fss"
proof -
  let ?w = "logged_in p conn (env_seq env) uid w" and ?P = "\<lambda>r. from_uid r = uid \<or> to_uid r = uid"
  have conn: "getConnByUid (users ?w) uid = conn" by (rule logged_in_conn [OF inv up(3,2)])
  have w: "store_ok ?w L" "\<forall>k. link_of ?w k = Answered" using ok links by simp_all
  obtain ps n where q: "run call (getPendingMessages uid) ?w = (ps, ?w\<lparr>requests := n\<rparr>)"
    and ps: "set ps = {r. msgs L (msg_id r) = Some r \<and> pending_for uid r}"
    by (rule pending_records [OF server w(1) counts w(2)])
  have "ps = []" using ps none by (metis (mono_tags, lifting) list.set_intros(1) mem_Collect_eq neq_Nil_conv)
  let ?w1 = "?w\<lparr>requests := n\<rparr>"
  have w1: "store_ok ?w1 L" "\<forall>k. link_of ?w1 k = Answered" using w by simp_all
  obtain rs m full where h: "run call (getRecentMessages uid 100) ?w1 = (rs, ?w1\<lparr>requests := m\<rparr>)"
    and rs: "rs = drop (length full - 100) full" "listing L ?P created_at_ms full"
    by (rule redis_server.run_getRecentMessages [OF server w1(1) up(3), of 100]) (use w1(2) in auto)
  have full: "set full = {r. msgs L (msg_id r) = Some r \<and> ?P r}" "distinct (map msg_id full)"
      "sorted (map (\<lambda>r. unat (created_at_ms r)) full)"
    using rs(2) small_records [OF store_okD(2) [OF ok] counts, of ?P] by (auto simp: listing_def dest!: sorted_fst)
  let ?w2 = "?w1\<lparr>requests := m\<rparr>" and ?loop = "for_each rs (\<lambda>r. bind (push_of r True) (sendEnvelope p conn))"
  obtain fss k s where r: "run call ?loop ?w2 = ((), ?w2\<lparr>outbox := outbox ?w2 @ concat fss, ticks := ticks ?w2 + k, shut := s\<rparr>)"
    and l: "list_all2 (\<lambda>r fs. \<exists>t t'. fs = frames p conn (chat_push t t' r True)) rs fss"
    using run_history [of call rs p conn ?w2] by blast
  have "run call (handle p (chat_event conn env)) w = run call ?loop ?w2"
    using run_login [OF env up(3,2), of call p w] q h conn up \<open>ps = []\<close>
    by (simp add: deliverLoginMessages_def deliverPendingMessages_def sendRecentMessages_def kLoginRecentMessageLimit_def)
  then have "w' = ?w2\<lparr>outbox := outbox ?w2 @ concat fss, ticks := ticks ?w2 + k, shut := s\<rparr>"
    using run r by simp
  then have "outbox w' = outbox ?w2 @ concat fss" "store_ok w' L" using w(1) by (simp_all add: store_ok_def)
  then show ?thesis
    using full rs(1) l by (intro exI [of _ full] exI [of _ fss] exI [of _ "clock w (Suc (ticks w))"]) simp
qed


theorem login_replays_history_witness:
  "\<exists>w w' t t1 t2. run redis_call (handle echo_platform (chat_event 7 (CreateLoginRequest 5 3 1))) w = ((), w') \<and>
     outbox w' = outbox w @ frames echo_platform 7 (CreateLoginResponse t 3 True []) @
       frames echo_platform 7 (CreateChatPush t1 t2 1 1 1 2 ''hi'' 1000 True)"
proof -
  let ?r = "new_record 1 1 2 ''hi'' ''c1'' 1000" and ?e = "CreateLoginRequest 5 3 1"
  obtain w L where w: "store_ok w L" "small_counts L" "\<forall>k. link_of w k = Answered" "user_inv (users w)"
    and up: "\<forall>c. up w c" and L: "msgs L = [1 \<mapsto> ?r]"
    by (rule demo_waiting)
  have r: "msg_id ?r = 1" "from_uid ?r = 1 \<or> to_uid ?r = 1" "\<not> pending_for 1 ?r" by (simp_all add: new_record_def)
  have none: "\<forall>i q. msgs L i = Some q \<longrightarrow> \<not> pending_for 1 q" using L r(3) by (auto split: if_splits)
  have conn: "up w 7" "(7 :: TcpConnectionPtr) \<noteq> 0" "(1 :: u64) \<noteq> 0" using up by simp_all
  obtain w' where run: "run redis_call (handle echo_platform (chat_event 7 ?e)) w = ((), w')" by (metis old.unit.exhaust surj_pair)
  obtain full fss t where s: "set full = {r. msgs L (msg_id r) = Some r \<and> (from_uid r = 1 \<or> to_uid r = 1)}"
      "distinct (map msg_id full)"
      "outbox w' = outbox w @ frames echo_platform 7 (CreateLoginResponse t (env_seq ?e) True []) @ concat fss"
      "list_all2 (\<lambda>r fs. \<exists>t t'. fs = frames echo_platform 7 (chat_push t t' r True)) (drop (length full - 100) full) fss"
    using login_replays_history [OF reference.redis_server_axioms w conn login_request(1,3) none run]
    by (elim exE conjE) (rule that)
  have "full = [?r]" by (rule demo_single [OF L r(1,2) s(1,2)])
  then have "\<exists>t1 t2. concat fss = frames echo_platform 7 (CreateChatPush t1 t2 1 1 1 2 ''hi'' 1000 True)"
    using s(4) by (intro demo_push) simp
  then show ?thesis using s(3) run unfolding login_request by metis
qed

section \<open>Acknowledgements\<close>

text \<open>
  C29: an acknowledgement is never answered and touches only the acknowledged message.  It marks the message
  Acked when the connection is logged in as the recipient, and has no effect otherwise.  The field
  \<^verbatim>\<open>ok\<close> of the acknowledgement plays no part: a negative one counts like a positive one.
\<close>

theorem ack_handled:
  assumes server: "redis_server call" and ok: "store_ok w L"
    and env: "env_type env = ACK" "env_payload env = kAck a" and run: "run call (handle p (chat_event conn env)) w = (u, w')"
    and link: "this_link w = Answered" and uid: "uid = getUidByConn (users w) conn"
  shows "outbox w' = outbox w \<and> users w' = users w \<and>
    (if ack_msg_id a \<noteq> 0 \<and> uid \<noteq> 0 \<and> (\<exists>r. msgs L (ack_msg_id a) = Some r \<and> to_uid r = uid) then
       store_ok w' (L\<lparr>msgs := (msgs L)(ack_msg_id a \<mapsto> (the (msgs L (ack_msg_id a)))
         \<lparr>status := Acked, acked_at_ms := this_time w\<rparr>)\<rparr>)
     else store_ok w' L)"
proof (cases "ack_msg_id a = 0 \<or> uid = 0")
  case True
  then have "w' = w" using run env uid by (auto simp: handle_def handleAck_def split: if_splits)
  then show ?thesis using True ok by auto
next
  case False
  obtain b w1 where m: "run call (markAcked (ack_msg_id a) uid) w = (b, w1)"
    and s: "store_step 1 w (snd (ledger_ack (ack_msg_id a) uid (this_time w) L)) w1"
    using redis_server.run_markAcked [OF server ok, of "ack_msg_id a" uid] link by (auto simp: after_def)
  have "w' = w1" using run env uid False m by (auto simp: handle_def handleAck_def)
  then show ?thesis
    using False store_step_frame [OF s] by (auto simp: ledger_ack_def ledger_update_def split: option.splits if_splits)
qed

theorem ack_handled_witness:
  "\<exists>w w' L'. run redis_call (handle echo_platform (chat_event 8 (CreateAck 5 3 1 False ''no''))) w = ((), w') \<and>
     store_ok w' L' \<and> status (the (msgs L' 1)) = Acked"
proof -
  let ?r = "new_record 1 1 2 ''hi'' ''c1'' 1000" and ?e = "CreateAck 5 3 1 False ''no''"
  obtain w L where w: "store_ok w L" "\<forall>k. link_of w k = Answered" and L: "msgs L = [1 \<mapsto> ?r]"
    by (rule demo_waiting)
  let ?w = "w\<lparr>users := user_history [BindUser 6 8 2]\<rparr>"
  have u: "2 = getUidByConn (users ?w) 8"
    by (simp add: user_history_def empty_UserStateService_def user_defs Let_def getUidByConn_def new_UserState_def)
  obtain w' where run: "run redis_call (handle echo_platform (chat_event 8 ?e)) ?w = ((), w')" by (metis old.unit.exhaust surj_pair)
  have "store_ok ?w L" "this_link ?w = Answered" using w by (simp_all add: store_ok_def)
  note a = ack_handled [OF reference.redis_server_axioms this(1) _ _ run this(2) u]
  have "store_ok w' (L\<lparr>msgs := (msgs L)(1 \<mapsto> (the (msgs L 1))\<lparr>status := Acked, acked_at_ms := this_time ?w\<rparr>)\<rparr>)"
    using a [of "\<lparr>ack_msg_id = 1, ack_seq = 3, ack_ok = False, ack_reason = ''no''\<rparr>"] L
    by (simp add: CreateAck_def new_record_def split: if_splits)
  then show ?thesis using run by (intro exI [of _ ?w] exI [of _ w'] exI) auto
qed

end
