(* ===== verification/Framing.thy ===== *)
theory Framing
  imports Codec "HOL-Library.Sublist"
begin

text \<open>
  Reassembling frames from the pieces TCP delivers, as both ends do it: append the bytes to the connection's
  buffer, decode, erase what was consumed (\<^verbatim>\<open>ChatServer::onMessage\<close>, \<^verbatim>\<open>Client::receiverLoop\<close>).
\<close>

definition receive :: "platform \<Rightarrow> string \<Rightarrow> string \<Rightarrow> DecodeResult \<times> string" where
  "receive p recv_buffer input =
    (let data = recv_buffer @ input; r = DecodeAll p data kDefaultMaxFrameLength in
     (r, if 0 < consumed_bytes r then drop (consumed_bytes r) data else data))"

definition broken :: "DecodeResult \<Rightarrow> bool" where
  "broken r \<longleftrightarrow> decode_status r = kInvalidLength \<or> decode_status r = kParseError"

text \<open>The decoding of everything a connection has received so far, and what is left of it.\<close>

definition decoded :: "platform \<Rightarrow> string \<Rightarrow> DecodeResult" where
  "decoded p stream = DecodeAll p stream kDefaultMaxFrameLength"

definition leftover :: "platform \<Rightarrow> string \<Rightarrow> string" where
  "leftover p stream = drop (consumed_bytes (decoded p stream)) stream"

lemma receive_decoded: "receive p buf input = (decoded p (buf @ input), leftover p (buf @ input))"
  by (simp add: receive_def Let_def decoded_def leftover_def)

lemma decoded_Nil [simp]: "decoded p [] = \<lparr>decode_status = kOk, envelopes = [], consumed_bytes = 0\<rparr>"
  by (simp add: decoded_def)

lemma leftover_Nil [simp]: "leftover p [] = []"
  by (simp add: leftover_def)

lemma max_frame_small: "kDefaultMaxFrameLength < 2 ^ 31"
  by (simp add: kDefaultMaxFrameLength_def)

lemma decoded_append:
  assumes "protobuf_ok p"
  shows "decoded p (s @ t) =
    prepend (consumed_bytes (decoded p s)) (envelopes (decoded p s)) (decoded p (leftover p s @ t))"
  using DecodeAll_append [OF assms max_frame_small, of s t] by (simp only: decoded_def leftover_def)

text \<open>Nothing of the left-over bytes decodes by itself.\<close>

lemma decoded_leftover:
  "decoded p (leftover p s) = \<lparr>decode_status = decode_status (decoded p s), envelopes = [], consumed_bytes = 0\<rparr>"
  unfolding decoded_def leftover_def
proof (induction s rule: frame_induct)
  case (step s)
  show ?case
  proof (cases rule: DecodeAll_cases [of p s kDefaultMaxFrameLength])
    case (frame n e)
    then show ?thesis using step [of n] by (simp add: add.commute)
  qed simp
qed

lemma leftover_append:
  assumes "protobuf_ok p"
  shows "leftover p (leftover p s @ t) = leftover p (s @ t)"
proof -
  let ?n = "consumed_bytes (decoded p s)" and ?r = "decoded p (leftover p s @ t)"
  have "?n \<le> length s" unfolding decoded_def by (rule consumed_le)
  then have "leftover p s @ t = drop ?n (s @ t)" by (simp add: leftover_def)
  then have "leftover p (leftover p s @ t) = drop (?n + consumed_bytes ?r) (s @ t)"
    by (metis drop_drop add.commute leftover_def)
  then show ?thesis using decoded_append [OF assms, of s t] by (simp add: leftover_def)
qed

lemma DecodeAll_broken:
  assumes "protobuf_ok p" "m < 2 ^ 31"
    and "DecodeAll p s m = \<lparr>decode_status = st, envelopes = [], consumed_bytes = 0\<rparr>" "st = kInvalidLength \<or> st = kParseError"
  shows "DecodeAll p (s @ t) m = DecodeAll p s m"
proof -
  let ?n = "unat (header_length p s)"
  have len: "4 \<le> length s" using assms(3,4) by (subst (asm) DecodeAll_unfold) (auto split: if_splits)
  then have h: "header_length p (s @ t) = header_length p s" "s \<noteq> []"
    by (auto simp: header_length_append)
  show ?thesis
  proof (cases "header_length p s = 0 \<or> m < ?n")
    case True
    then show ?thesis using h len by (auto simp: DecodeAll_unfold [of p "s @ t"] DecodeAll_unfold [of p s])
  next
    case False
    then have n: "4 + ?n \<le> length s" "ParseFromArray p (drop 4 s) (sint (header_length p s)) = None"
      using assms(3,4) len by (subst (asm) DecodeAll_unfold, auto split: if_splits option.splits simp: prepend_def)+
    have "sint (header_length p s) = int ?n" using sint_word_of_nat_small [of ?n] False assms(2) by simp
    moreover have "int ?n \<le> int (length (drop 4 s))" unfolding length_drop of_nat_le_iff using n(1) by linarith
    ultimately have "ParseFromArray p (drop 4 s @ t) (sint (header_length p s)) = None"
      using n(2) protobuf_local [OF assms(1), of "int ?n" "drop 4 s" t] by (simp only: of_nat_0_le_iff)
    then show ?thesis using h len False n by (auto simp: DecodeAll_unfold [of p "s @ t"] DecodeAll_unfold [of p s])
  qed
qed

text \<open>After a protocol error the stream yields nothing more.\<close>

lemma broken_append:
  assumes "protobuf_ok p" "broken (decoded p s)"
  shows "decoded p (s @ t) = decoded p s"
proof -
  have "decoded p (leftover p s @ t) = decoded p (leftover p s)"
    unfolding decoded_def
    by (rule DecodeAll_broken [OF assms(1) max_frame_small decoded_leftover [unfolded decoded_def]])
      (use assms(2) in \<open>simp add: broken_def decoded_def\<close>)
  then show ?thesis using decoded_append [OF assms(1), of s t] decoded_leftover [of p s] by (simp add: prepend_def)
qed

lemma decoded_frames:
  assumes "protobuf_ok p" "\<forall>e \<in> set es. sendable p kDefaultMaxFrameLength e"
  shows "decoded p (concat (map (Encode p) es)) =
    \<lparr>decode_status = kOk, envelopes = es, consumed_bytes = length (concat (map (Encode p) es))\<rparr>"
  using DecodeAll_frames [OF assms, of "[]"] by (simp add: decoded_def)


section \<open>The contract of a framed stream\<close>

text \<open>
  What both ends rely on when they decode a stream piece by piece: the messages of a stream are those of its first part
  and those of the rest with what follows, and a stream that has met an error is dead for good.
\<close>

locale stream_decoder =
  fixes messages :: "'b list \<Rightarrow> 'm list" and rest :: "'b list \<Rightarrow> 'b list" and dead :: "'b list \<Rightarrow> bool"
  assumes messages_append: "messages (s @ t) = messages s @ messages (rest s @ t)"
    and rest_append: "rest (rest s @ t) = rest (s @ t)"
    and dead_rest: "dead (rest s @ t) = dead (s @ t)"
    and dead_stays: "dead s \<Longrightarrow> dead (s @ t) \<and> messages (s @ t) = messages s"
begin

lemma messages_rest: "messages (rest s) = []"
  using messages_append [of s "[]"] by simp

lemma alive_prefix: "\<not> dead (s @ t) \<Longrightarrow> \<not> dead s"
  using dead_stays by blast

text \<open>A reader that drops a piece in which the stream dies has a prefix of the messages, and all while it lives.\<close>

lemma dropping_reader:
  assumes "prefix es (messages s)" "\<not> dead s \<longrightarrow> es = messages s"
    and es': "es' = es @ (if dead (rest s @ t) then [] else messages (rest s @ t))"
  shows "prefix es' (messages (s @ t)) \<and> (\<not> dead (s @ t) \<longrightarrow> es' = messages (s @ t))"
proof (cases "dead (s @ t)")
  case True
  have "prefix (messages s) (messages (s @ t))" unfolding messages_append [of s t] by (rule prefixI) simp
  then have "prefix es (messages (s @ t))" using assms(1) by (rule prefix_order.trans [rotated])
  then show ?thesis using True es' by (simp add: dead_rest)
next
  case False
  then have "es = messages s" using assms(2) alive_prefix by blast
  then show ?thesis using False es' messages_append [of s t] by (simp add: dead_rest)
qed

text \<open>A reader that goes on after a piece: what is left is decoded with the pieces that follow.\<close>

lemma going_on:
  assumes "\<not> dead (rest s @ t)"
  shows "\<not> dead (s @ t)" "messages (rest s @ t @ u) = messages (rest s @ t) @ messages (rest (s @ t) @ u)"
    "dead (rest (s @ t) @ u) = dead (rest s @ t @ u)"
  using assms messages_append [of "rest s @ t" u] dead_rest [of "s @ t" u] dead_rest [of s "t @ u"] dead_rest [of s t]
  by (simp_all add: rest_append)

end

text \<open>Protobuf is the contract's only premise; the frames of the codec then meet it.\<close>

locale protobuf =
  fixes p :: platform
  assumes parses: "protobuf_ok p"
begin

lemma broken_rest: "broken (decoded p (leftover p s @ t)) = broken (decoded p (s @ t))"
  using decoded_append [OF parses, of s t] by (simp add: broken_def)

end

sublocale protobuf \<subseteq> frames: stream_decoder "\<lambda>s. envelopes (decoded p s)" "leftover p" "\<lambda>s. broken (decoded p s)"
proof
  show "envelopes (decoded p (s @ t)) = envelopes (decoded p s) @ envelopes (decoded p (leftover p s @ t))" for s t
    using decoded_append [OF parses, of s t] by simp
qed (simp_all add: leftover_append [OF parses] broken_rest broken_append [OF parses])

text \<open>The facts that the server and the client use.\<close>

context protobuf
begin

lemmas server_reads = frames.dropping_reader
lemmas client_reads = frames.going_on frames.rest_append

end

interpretation demo_protobuf: protobuf demo_platform
  by unfold_locales (rule demo_platform_ok)

end
