(* ===== verification/Chat_Server.thy ===== *)
theory Chat_Server
  imports Framing Dispatcher "HOL-Library.Sublist"
begin

text \<open>
  \<^verbatim>\<open>server/src/ChatServer.cpp\<close>: the connection table and the callbacks of the TCP server.  A callback is its
  critical section followed by calls into the dispatcher, which its IO thread makes one after the
  other; \<open>server_step\<close> interleaves the callbacks of all connections, the calls and the thread pool.
  A connection object is one number, never used again for another connection.
\<close>

section \<open>State and callbacks\<close>

record ClientSession =
  session_conn :: TcpConnectionPtr
  recv_buffer :: string

datatype LogOutput = kFile | kTerminal

record ChatServer =
  port :: "16 word"
  thread_num :: int
  enable_status_output :: bool
  sessionsTable :: "TcpConnectionPtr \<rightharpoonup> ClientSession"
  dispatcher :: ServerEventDispatcher

definition new_ChatServer :: "16 word \<Rightarrow> int \<Rightarrow> LogOutput \<Rightarrow> ChatServer" where
  "new_ChatServer server_port threads log_output =
     \<lparr>port = server_port, thread_num = threads, enable_status_output = (log_output = kFile),
      sessionsTable = Map.empty, dispatcher = new_ServerEventDispatcher\<rparr>"

text \<open>Calls an IO thread makes into the dispatcher.\<close>

datatype IoCall = EnqueueEnvelope TcpConnectionPtr Envelope | EnqueueConnectionClosed TcpConnectionPtr

fun io_call :: "IoCall \<Rightarrow> ServerEventDispatcher \<Rightarrow> (bool \<times> ServerEventDispatcher) option" where
  "io_call (EnqueueEnvelope conn envelope) d = enqueueEnvelope conn envelope d"
| "io_call (EnqueueConnectionClosed conn) d = enqueueConnectionClosed conn d"

text \<open>The event that a call submits.  A call that nobody interrupts is its check followed by its submission.\<close>

fun call_event :: "IoCall \<Rightarrow> ServerEvent" where
  "call_event (EnqueueEnvelope conn envelope) = \<lparr>ev_type = EnvelopeEvent, ev_conn = conn, ev_envelope = envelope\<rparr>"
| "call_event (EnqueueConnectionClosed conn) = \<lparr>ev_type = ConnectionClosed, ev_conn = conn, ev_envelope = empty_Envelope\<rparr>"

lemma io_call_enqueue:
  "io_call call d = (if enqueue_check d then enqueue_submit (call_event call) d else Some (False, d))"
  by (cases call) (simp_all add: enqueueEnvelope_def enqueueConnectionClosed_def enqueue_def)

definition findSessionLocked :: "TcpConnectionPtr \<Rightarrow> ChatServer \<Rightarrow> ClientSession option" where
  "findSessionLocked conn s = sessionsTable s conn"

definition onConnection :: "bool \<Rightarrow> TcpConnectionPtr \<Rightarrow> ChatServer \<Rightarrow> IoCall list \<times> ChatServer" where
  "onConnection connected conn s =
    (if connected then
       ([], s\<lparr>sessionsTable := (sessionsTable s)(conn \<mapsto> \<lparr>session_conn = conn, recv_buffer = []\<rparr>)\<rparr>)
     else ([EnqueueConnectionClosed conn], s\<lparr>sessionsTable := (sessionsTable s)(conn := None)\<rparr>))"

text \<open>The first component tells whether \<^verbatim>\<open>conn->shutdown()\<close> is called.\<close>

definition onMessage :: "platform \<Rightarrow> TcpConnectionPtr \<Rightarrow> string \<Rightarrow> ChatServer \<Rightarrow> bool \<times> IoCall list \<times> ChatServer" where
  "onMessage p conn input s = (case findSessionLocked conn s of
      None \<Rightarrow> (True, [], s)
    | Some ses \<Rightarrow>
        let (decode_result, rest) = receive p (recv_buffer ses) input;
            s' = s\<lparr>sessionsTable := (sessionsTable s)(conn \<mapsto> ses\<lparr>recv_buffer := rest\<rparr>)\<rparr>
        in if broken decode_result then (True, [], s')
           else (False, map (EnqueueEnvelope conn) (envelopes decode_result), s'))"

fun join_numbers :: "u64 list \<Rightarrow> string" where
  "join_numbers [] = []"
| "join_numbers [n] = to_string n"
| "join_numbers (n # ns) = to_string n @ '','' @ join_numbers ns"

definition printStatus :: "ChatServer \<Rightarrow> string" where
  "printStatus s = ''server_status'' @
     concat (map (\<lambda>m. '' '' @ metric_key m @ ''=['' @ join_numbers (metric_numbers m) @ '']'') (getStatus (dispatcher s)))"

section \<open>The running server\<close>

text \<open>
  \<open>io c\<close> is what the IO thread of connection \<open>c\<close> has still to enqueue, and \<open>c \<in> passed\<close> says that the first of these calls has looked at
  \<^verbatim>\<open>stopped_\<close> and goes on to submit its event.  \<open>stream c\<close> and \<open>hung_up\<close> are
  history variables: the bytes received on \<open>c\<close>, and the connections that have been closed.
\<close>

record ServerRun =
  server :: ChatServer
  io :: "TcpConnectionPtr \<Rightarrow> IoCall list"
  passed :: "TcpConnectionPtr set"
  stream :: "TcpConnectionPtr \<rightharpoonup> string"
  hung_up :: "TcpConnectionPtr set"

definition upd_dispatcher :: "(ServerEventDispatcher \<Rightarrow> ServerEventDispatcher) \<Rightarrow> ServerRun \<Rightarrow> ServerRun" where
  "upd_dispatcher f g = g\<lparr>server := (server g)\<lparr>dispatcher := f (dispatcher (server g))\<rparr>\<rparr>"

abbreviation disp :: "ServerRun \<Rightarrow> ServerEventDispatcher" where
  "disp g \<equiv> dispatcher (server g)"

definition start_server :: "ChatServer \<Rightarrow> ServerRun" where
  "start_server s = \<lparr>server = s\<lparr>dispatcher := start_dispatcher (dispatcher s)\<rparr>, io = (\<lambda>_. []), passed = {},
     stream = Map.empty, hung_up = {}\<rparr>"

inductive server_step :: "platform \<Rightarrow> ServerRun \<Rightarrow> ServerRun \<Rightarrow> bool" for p where
  connect: "stream g c = None \<Longrightarrow> onConnection True c (server g) = (calls, s') \<Longrightarrow>
    server_step p g (g\<lparr>server := s', io := (io g)(c := calls), stream := (stream g)(c \<mapsto> [])\<rparr>)"
| message: "stream g c = Some bytes \<Longrightarrow> c \<notin> hung_up g \<Longrightarrow> io g c = [] \<Longrightarrow>
    onMessage p c input (server g) = (shutdown, calls, s') \<Longrightarrow>
    server_step p g (g\<lparr>server := s', io := (io g)(c := calls), stream := (stream g)(c \<mapsto> bytes @ input)\<rparr>)"
| disconnect: "stream g c = Some bytes \<Longrightarrow> c \<notin> hung_up g \<Longrightarrow> io g c = [] \<Longrightarrow>
    onConnection False c (server g) = (calls, s') \<Longrightarrow>
    server_step p g (g\<lparr>server := s', io := (io g)(c := calls), hung_up := insert c (hung_up g)\<rparr>)"
| check: "io g c = call # calls \<Longrightarrow> c \<notin> passed g \<Longrightarrow> enqueue_check (disp g) \<Longrightarrow>
    server_step p g (g\<lparr>passed := insert c (passed g)\<rparr>)"
| refuse: "io g c = call # calls \<Longrightarrow> c \<notin> passed g \<Longrightarrow> \<not> enqueue_check (disp g) \<Longrightarrow>
    server_step p g (g\<lparr>io := (io g)(c := calls)\<rparr>)"
| enqueue: "io g c = call # calls \<Longrightarrow> c \<in> passed g \<Longrightarrow> enqueue_submit (call_event call) (disp g) = Some (ok, d') \<Longrightarrow>
    server_step p g (upd_dispatcher (\<lambda>_. d') (g\<lparr>io := (io g)(c := calls), passed := passed g - {c}\<rparr>))"
| pool: "pool_step (pool (disp g)) q \<Longrightarrow> accepted q = accepted (pool (disp g)) \<Longrightarrow>
    stopped q = stopped (pool (disp g)) \<or> disp_stopped (disp g) \<Longrightarrow>
    server_step p g (upd_dispatcher (\<lambda>d. d\<lparr>pool := q\<rparr>) g)"
| spurious: "server_step p g (upd_dispatcher (\<lambda>d. d\<lparr>pool := upd_worker i wake (pool d)\<rparr>) g)"
| stop: "begin_stop (disp g) = (first, d') \<Longrightarrow> server_step p g (upd_dispatcher (\<lambda>_. d') g)"

inductive server_reachable :: "platform \<Rightarrow> ServerRun \<Rightarrow> bool" for p where
  init: "server_reachable p (start_server (new_ChatServer server_port threads log_output))"
| step: "server_reachable p g \<Longrightarrow> server_step p g g' \<Longrightarrow> server_reachable p g'"

section \<open>The invariant\<close>

fun call_conn :: "IoCall \<Rightarrow> TcpConnectionPtr" where
  "call_conn (EnqueueEnvelope conn envelope) = conn"
| "call_conn (EnqueueConnectionClosed conn) = conn"


lemma call_event_conn [simp]: "ev_conn (call_event call) = call_conn call"
  by (cases call) simp_all

text \<open>The events of a connection that the pool has accepted, in order.\<close>

definition accepted_of :: "ServerRun \<Rightarrow> TcpConnectionPtr \<Rightarrow> ServerEvent list" where
  "accepted_of g c = map snd (filter (\<lambda>t. fst t = c) (accepted (pool (disp g))))"

definition closing :: "ServerRun \<Rightarrow> TcpConnectionPtr \<Rightarrow> IoCall list" where
  "closing g c = (if c \<in> hung_up g then [EnqueueConnectionClosed c] else [])"

text \<open>
  What the server owes a connection: the envelopes of its byte stream, up to the read that meets a
  protocol error, and then the event of its closing.
\<close>

definition owed :: "platform \<Rightarrow> string \<Rightarrow> Envelope list \<Rightarrow> bool" where
  "owed p bytes es \<longleftrightarrow> prefix es (envelopes (decoded p bytes)) \<and>
     (\<not> broken (decoded p bytes) \<longrightarrow> es = envelopes (decoded p bytes))"

definition conn_inv :: "platform \<Rightarrow> ServerRun \<Rightarrow> TcpConnectionPtr \<Rightarrow> bool" where
  "conn_inv p g c \<longleftrightarrow> (\<forall>call \<in> set (io g c). call_conn call = c) \<and> (case stream g c of
      None \<Rightarrow> io g c = [] \<and> accepted_of g c = [] \<and> c \<notin> hung_up g
    | Some bytes \<Rightarrow>
        (c \<notin> hung_up g \<longrightarrow> sessionsTable (server g) c = Some \<lparr>session_conn = c, recv_buffer = leftover p bytes\<rparr>) \<and>
        (\<not> disp_stopped (disp g) \<longrightarrow> (\<exists>es. owed p bytes es \<and>
           accepted_of g c @ map call_event (io g c) = map call_event (map (EnqueueEnvelope c) es @ closing g c))))"

definition server_inv :: "platform \<Rightarrow> ServerRun \<Rightarrow> bool" where
  "server_inv p g \<longleftrightarrow> pool_reachable kBusinessWorkerCount (pool (disp g)) \<and>
     (\<not> disp_stopped (disp g) \<longrightarrow> \<not> stopped (pool (disp g))) \<and> (\<forall>c. conn_inv p g c)"

lemma owed_Nil: "owed p [] []"
  by (simp add: owed_def)

lemma owed_message:
  assumes p: "protobuf_ok p" and owed: "owed p bytes es" and r: "r = decoded p (leftover p bytes @ input)"
  shows "owed p (bytes @ input) (es @ (if broken r then [] else envelopes r))"
  using protobuf.server_reads [OF protobuf.intro [OF p], of es bytes _ input] owed unfolding owed_def r by blast

lemma onMessage_session:
  assumes "sessionsTable s c = Some \<lparr>session_conn = c, recv_buffer = leftover p bytes\<rparr>" "protobuf_ok p"
    "onMessage p c input s = (shutdown, calls, s')" "r = decoded p (leftover p bytes @ input)"
  shows "calls = map (EnqueueEnvelope c) (if broken r then [] else envelopes r)" "dispatcher s' = dispatcher s"
    "sessionsTable s' = (sessionsTable s)(c \<mapsto> \<lparr>session_conn = c, recv_buffer = leftover p (bytes @ input)\<rparr>)"
  using assms leftover_append [of p bytes input]
  by (auto simp: onMessage_def findSessionLocked_def receive_decoded Let_def split: if_splits)

lemma conn_inv_frame:
  assumes "conn_inv p g c" "io g' c = io g c" "stream g' c = stream g c" "c \<in> hung_up g' \<longleftrightarrow> c \<in> hung_up g"
    "sessionsTable (server g') c = sessionsTable (server g) c" "accepted_of g' c = accepted_of g c"
    "disp_stopped (disp g) \<Longrightarrow> disp_stopped (disp g')"
  shows "conn_inv p g' c"
  using assms by (auto simp: conn_inv_def closing_def split: option.splits)

lemma upd_dispatcher_fields [simp]:
  "io (upd_dispatcher f g) = io g" "stream (upd_dispatcher f g) = stream g" "hung_up (upd_dispatcher f g) = hung_up g"
  "disp (upd_dispatcher f g) = f (disp g)" "sessionsTable (server (upd_dispatcher f g)) = sessionsTable (server g)"
  by (simp_all add: upd_dispatcher_def)

lemma accepted_of_same: "accepted (pool (disp g')) = accepted (pool (disp g)) \<Longrightarrow> accepted_of g' c = accepted_of g c"
  by (simp add: accepted_of_def)

lemma submit_step:
  assumes "enqueue_submit ev d = Some (ok, d')"
  shows "pool_step (pool d) (pool d')" "disp_stopped d' = disp_stopped d"
    "accepted (pool d') = accepted (pool d) \<or> accepted (pool d') = accepted (pool d) @ [(ev_conn ev, ev)]"
proof -
  obtain ok' q where s: "submit (ev_conn ev, ev) (pool d) = Some (ok', q)" "d' = d\<lparr>pool := q\<rparr>"
    using assms by (auto simp: enqueue_submit_def EventShardKey_def)
  show "pool_step (pool d) (pool d')" using pool_step.submit [OF s(1)] s(2) by simp
  show "disp_stopped d' = disp_stopped d" using s(2) by simp
  show "accepted (pool d') = accepted (pool d) \<or> accepted (pool d') = accepted (pool d) @ [(ev_conn ev, ev)]"
    using s by (auto simp: submit_def Let_def split: if_splits)
qed

lemma enqueue_running:
  assumes "enqueue_submit ev d = Some (ok, d')" "\<not> stopped (pool d)" "length (workers (pool d)) = n" "0 < n" "\<not> disp_stopped d"
  shows "pool_step (pool d) (pool d')" "accepted (pool d') = accepted (pool d) @ [(ev_conn ev, ev)]"
    "\<not> disp_stopped d'" "\<not> stopped (pool d')"
proof -
  obtain ok' q where s: "submit (ev_conn ev, ev) (pool d) = Some (ok', q)" "d' = d\<lparr>pool := q\<rparr>"
    using assms(1,5) by (auto simp: enqueue_submit_def EventShardKey_def)
  show "pool_step (pool d) (pool d')" using pool_step.submit [OF s(1)] s(2) by simp
  have q: "accepted q = accepted (pool d) @ [(ev_conn ev, ev)]" "\<not> stopped q"
    using s(1) assms(2-4) by (auto simp: submit_def Let_def split: if_splits)
  show "accepted (pool d') = accepted (pool d) @ [(ev_conn ev, ev)]" "\<not> disp_stopped d'" "\<not> stopped (pool d')"
    using q s(2) assms(5) by simp_all
qed


lemma server_inv_init: "server_inv p (start_server (new_ChatServer server_port threads log_output))"
proof -
  have "pool_step (new_ShardedThreadPool kBusinessWorkerCount) (start (new_ShardedThreadPool kBusinessWorkerCount))"
    by (rule pool_step.start) (simp add: new_ShardedThreadPool_def)
  from pool_reachable.step [OF pool_reachable.init this] show ?thesis
    by (simp add: server_inv_def start_server_def new_ChatServer_def new_ServerEventDispatcher_def start_dispatcher_def
        conn_inv_def accepted_of_def start_def new_ShardedThreadPool_def)
qed

text \<open>A callback touches the table and the calls of its own connection.\<close>

lemma server_inv_callback:
  assumes inv: "server_inv p g" and d: "disp g' = disp g"
    and other: "\<And>c'. c' \<noteq> c \<Longrightarrow> io g' c' = io g c' \<and> stream g' c' = stream g c' \<and> (c' \<in> hung_up g' \<longleftrightarrow> c' \<in> hung_up g) \<and>
      sessionsTable (server g') c' = sessionsTable (server g) c'"
    and own: "conn_inv p g c \<Longrightarrow> conn_inv p g' c"
  shows "server_inv p g'"
proof -
  have "conn_inv p g' c'" for c'
  proof (cases "c' = c")
    case True
    then show ?thesis using own inv by (simp add: server_inv_def)
  next
    case False
    have "conn_inv p g c'" using inv by (simp add: server_inv_def)
    then show ?thesis by (rule conn_inv_frame) (use other [OF False] d in \<open>simp_all add: accepted_of_def\<close>)
  qed
  then show ?thesis using inv d by (simp add: server_inv_def)
qed

lemma conn_inv_connect:
  assumes "stream g c = None" "onConnection True c (server g) = (calls, s')" "conn_inv p g c"
  shows "conn_inv p (g\<lparr>server := s', io := (io g)(c := calls), stream := (stream g)(c \<mapsto> [])\<rparr>) c"
  using assms owed_Nil by (auto simp: conn_inv_def onConnection_def accepted_of_def closing_def)

lemma conn_inv_message:
  assumes "stream g c = Some bytes" "c \<notin> hung_up g" "io g c = []" "protobuf_ok p" "conn_inv p g c"
    and m: "onMessage p c input (server g) = (shutdown, calls, s')"
  shows "conn_inv p (g\<lparr>server := s', io := (io g)(c := calls), stream := (stream g)(c \<mapsto> bytes @ input)\<rparr>) c"
proof -
  let ?r = "decoded p (leftover p bytes @ input)"
  have "sessionsTable (server g) c = Some \<lparr>session_conn = c, recv_buffer = leftover p bytes\<rparr>"
    using assms(1,2,5) by (simp add: conn_inv_def)
  note s = onMessage_session [OF this assms(4) m refl]
  let ?g = "g\<lparr>server := s', io := (io g)(c := calls), stream := (stream g)(c \<mapsto> bytes @ input)\<rparr>"
  have "\<exists>es. owed p (bytes @ input) es \<and>
      accepted_of ?g c @ map call_event (io ?g c) = map call_event (map (EnqueueEnvelope c) es @ closing ?g c)"
    if "\<not> disp_stopped (disp g)"
  proof -
    obtain es where "owed p bytes es" "accepted_of g c = map call_event (map (EnqueueEnvelope c) es)"
      using assms(1-3,5) \<open>\<not> disp_stopped (disp g)\<close> by (auto simp: conn_inv_def closing_def)
    then show ?thesis
      using owed_message [OF assms(4) _ refl, of bytes es input] s(1,2) assms(2)
      by (intro exI [of _ "es @ (if broken ?r then [] else envelopes ?r)"]) (simp add: accepted_of_def closing_def)
  qed
  moreover have "\<forall>call \<in> set (io ?g c). call_conn call = c" using s(1) by auto
  ultimately show ?thesis using s(2,3) by (simp add: conn_inv_def)
qed

lemma conn_inv_disconnect:
  assumes "stream g c = Some bytes" "c \<notin> hung_up g" "io g c = []" "onConnection False c (server g) = (calls, s')" "conn_inv p g c"
  shows "conn_inv p (g\<lparr>server := s', io := (io g)(c := calls), hung_up := insert c (hung_up g)\<rparr>) c"
  using assms by (auto simp: conn_inv_def onConnection_def accepted_of_def closing_def)


lemma server_inv_enqueue:
  assumes inv: "server_inv p g" and calls: "io g c = call # calls" and e: "enqueue_submit (call_event call) (disp g) = Some (ok, d')"
  shows "server_inv p (upd_dispatcher (\<lambda>_. d') (g\<lparr>io := (io g)(c := calls), passed := passed g - {c}\<rparr>))" (is "server_inv p ?g")
proof -
  have all: "conn_inv p g c'" for c' using inv by (simp add: server_inv_def)
  have conn: "call_conn call = c" using all [of c] calls by (simp add: conn_inv_def)

  show ?thesis
  proof (cases "disp_stopped (disp g)")
    case True
    note s = submit_step [OF e]
    have stream: "stream g c \<noteq> None" using all [of c] calls by (auto simp: conn_inv_def split: option.splits)
    have "accepted_of ?g c' = accepted_of g c'" if "c' \<noteq> c" for c'
      using s(3) that conn by (auto simp: accepted_of_def)
    then have "conn_inv p ?g c'" for c'
      using all [of c'] calls True s(2) stream by (cases "c' = c") (auto simp: conn_inv_def split: option.splits)
    then show ?thesis using inv True s(1,2) pool_reachable.step by (auto simp: server_inv_def)
  next
    case False
    have pool: "\<not> stopped (pool (disp g))" "pool_reachable kBusinessWorkerCount (pool (disp g))"
      using inv False by (simp_all add: server_inv_def)
    then have "length (workers (pool (disp g))) = kBusinessWorkerCount" "0 < kBusinessWorkerCount"
      using reachable_pool_inv [OF pool(2)] by (simp_all add: pool_inv_def kBusinessWorkerCount_def)
    note r = enqueue_running [OF e pool(1) this False]
    have acc: "accepted_of ?g c' = accepted_of g c' @ (if c' = c then [call_event call] else [])" for c'
      using r(2) conn by (simp add: accepted_of_def)
    have "conn_inv p ?g c'" for c'
    proof (cases "c' = c")
      case True
      then show ?thesis using all [of c] calls acc [of c] False by (auto simp: conn_inv_def closing_def split: option.splits)
    next
      case False
      show ?thesis by (rule conn_inv_frame [OF all [of c']]) (use False acc r(3) \<open>\<not> disp_stopped (disp g)\<close> in simp_all)
    qed
    then show ?thesis using r(1,3,4) pool(2) by (simp add: server_inv_def pool_reachable.step)
  qed
qed

lemma server_step_inv:
  assumes p: "protobuf_ok p"
  shows "server_step p g g' \<Longrightarrow> server_inv p g \<Longrightarrow> server_inv p g'"
proof (induction rule: server_step.induct)
  case (connect g c calls s')
  have "dispatcher s' = disp g" "\<forall>c'. c' \<noteq> c \<longrightarrow> sessionsTable s' c' = sessionsTable (server g) c'"
    using connect(2) by (auto simp: onConnection_def)
  then show ?case
    by (intro server_inv_callback [where c = c, OF connect(3)]) (simp_all add: conn_inv_connect [OF connect(1,2)])
next
  case (message g c bytes input shutdown calls s')
  have "dispatcher s' = disp g" "\<forall>c'. c' \<noteq> c \<longrightarrow> sessionsTable s' c' = sessionsTable (server g) c'"
    using message(4) by (auto simp: onMessage_def Let_def split: option.splits prod.splits if_splits)
  then show ?case
    by (intro server_inv_callback [where c = c, OF message(5)]) (simp_all add: conn_inv_message [OF message(1-3) p _ message(4)])
next
  case (disconnect g c bytes calls s')
  have "dispatcher s' = disp g" "\<forall>c'. c' \<noteq> c \<longrightarrow> sessionsTable s' c' = sessionsTable (server g) c'"
    using disconnect(4) by (auto simp: onConnection_def)
  then show ?case
    by (intro server_inv_callback [where c = c, OF disconnect(5)]) (simp_all add: conn_inv_disconnect [OF disconnect(1-4)])
next
  case (enqueue g c call calls ok d')
  then show ?case by (intro server_inv_enqueue)
next
  case (check g c call calls)
  have "conn_inv p (g\<lparr>passed := insert c (passed g)\<rparr>) c'" for c'
    by (rule conn_inv_frame [of p g]) (use check in \<open>simp_all add: server_inv_def accepted_of_def\<close>)
  then show ?case using check by (simp add: server_inv_def)
next
  case (refuse g c call calls)
  have all: "conn_inv p g c'" for c' using refuse by (simp add: server_inv_def)
  have "conn_inv p (g\<lparr>io := (io g)(c := calls)\<rparr>) c'" for c'
    using all [of c'] refuse by (cases "c' = c") (auto simp: conn_inv_def enqueue_check_def accepted_of_def closing_def split: option.splits)
  then show ?case using refuse by (simp add: server_inv_def)
next
  case (spurious g i)
  have "conn_inv p (upd_dispatcher (\<lambda>d. d\<lparr>pool := upd_worker i wake (pool d)\<rparr>) g) c" for c
    by (rule conn_inv_frame [of p g]) (use spurious in \<open>simp_all add: server_inv_def accepted_of_def\<close>)
  then show ?case using spurious pool_reachable.spurious by (auto simp: server_inv_def)
next
  case (pool g q)
  have "conn_inv p (upd_dispatcher (\<lambda>d. d\<lparr>pool := q\<rparr>) g) c" for c
    by (rule conn_inv_frame [of p g]) (use pool in \<open>simp_all add: server_inv_def accepted_of_def\<close>)
  then show ?case using pool pool_reachable.step by (auto simp: server_inv_def)
next
  case (stop g first d')
  have "conn_inv p (upd_dispatcher (\<lambda>_. d') g) c" for c
    by (rule conn_inv_frame [of p g])
      (use stop in \<open>auto simp: server_inv_def accepted_of_def begin_stop_def split: if_splits\<close>)
  then show ?case using stop by (auto simp: server_inv_def begin_stop_def split: if_splits)
qed

lemma server_reachable_inv: "server_reachable p g \<Longrightarrow> protobuf_ok p \<Longrightarrow> server_inv p g"
  by (induction rule: server_reachable.induct) (auto intro: server_inv_init server_step_inv)


section \<open>Properties of the server\<close>

text \<open>
  C7: in a running server, whatever the interleaving, the events of a connection that its worker has executed, is
  executing and has queued, followed by those the IO thread has still to enqueue, are one event for each envelope
  of a prefix of the stream, in the order of the stream, and after the connection's end one closing event.  As
  long as the bytes that have arrived hold no protocol error, this prefix is the whole stream: each envelope whose
  frame has arrived has exactly one event, however TCP cut the bytes.  Once they hold one, envelopes before the
  error may be missing, all of them at the end of the sequence, and which ones depends on the cuts.
\<close>

theorem stream_order:
  assumes "server_reachable p g" "protobuf_ok p" "\<not> disp_stopped (disp g)" "stream g c = Some bytes"
    and w: "w = workers (pool (disp g)) ! shard_of kBusinessWorkerCount c"
  shows "\<exists>es. prefix es (envelopes (decoded p bytes)) \<and> (\<not> broken (decoded p bytes) \<longrightarrow> es = envelopes (decoded p bytes)) \<and>
    map snd (filter (\<lambda>t. fst t = c) (finished w @ in_hand w @ tasks w)) @ map call_event (io g c) =
    map call_event (map (EnqueueEnvelope c) es @ (if c \<in> hung_up g then [EnqueueConnectionClosed c] else []))"
proof -
  have inv: "server_inv p g" by (rule server_reachable_inv [OF assms(1,2)])
  then have "conn_inv p g c" "pool_reachable kBusinessWorkerCount (pool (disp g))" by (simp_all add: server_inv_def)
  moreover have "0 < kBusinessWorkerCount" by (simp add: kBusinessWorkerCount_def)
  ultimately have "accepted_of g c = map snd (filter (\<lambda>t. fst t = c) (worker_log w))"
    unfolding w by (simp add: accepted_of_def worker_log_key)
  then show ?thesis
    using \<open>conn_inv p g c\<close> assms(3,4) by (auto simp: conn_inv_def owed_def closing_def worker_log_def)
qed

lemma demo_received:
  obtains g where "server_reachable p g" "\<not> disp_stopped (disp g)" "stream g 7 = Some bytes"
proof -
  let ?g0 = "start_server (new_ChatServer 1556 16 kFile)"
  obtain calls s where c: "onConnection True 7 (server ?g0) = (calls, s)" by (meson surj_pair)
  let ?g1 = "?g0\<lparr>server := s, io := (io ?g0)(7 := calls), stream := (stream ?g0)(7 \<mapsto> [])\<rparr>"
  have r1: "server_reachable p ?g1"
    by (rule server_reachable.step [OF server_reachable.init server_step.connect [OF _ c]]) (simp add: start_server_def)
  obtain sh calls' s' where m: "onMessage p 7 bytes s = (sh, calls', s')" by (meson prod_cases3)
  let ?g2 = "?g1\<lparr>server := s', io := (io ?g1)(7 := calls'), stream := (stream ?g1)(7 \<mapsto> [] @ bytes)\<rparr>"
  have "server_reachable p ?g2"
    by (rule server_reachable.step [OF r1 server_step.message [of _ _ _ _ bytes]])
      (use c m in \<open>simp_all add: start_server_def onConnection_def\<close>)
  moreover have "\<not> disp_stopped (disp ?g2)"
    using c m by (auto simp: onConnection_def onMessage_def start_server_def new_ChatServer_def start_dispatcher_def
        new_ServerEventDispatcher_def Let_def split: option.splits prod.splits if_splits)
  ultimately show thesis by (rule that) simp
qed

theorem stream_order_witness:
  "\<exists>g w. server_reachable demo_platform g \<and> w = workers (pool (disp g)) ! shard_of kBusinessWorkerCount 7 \<and>
     prefix (map snd (filter (\<lambda>t. fst t = 7) (finished w @ in_hand w @ tasks w)))
       (map call_event ([EnqueueEnvelope 7 (demo_ack 2), EnqueueEnvelope 7 (demo_ack 3)] @
         (if 7 \<in> hung_up g then [EnqueueConnectionClosed 7] else [])))"
proof -
  obtain g where g: "server_reachable demo_platform g" "\<not> disp_stopped (disp g)"
    "stream g 7 = Some (concat (map (Encode demo_platform) [demo_ack 2, demo_ack 3]))"
    by (rule demo_received)
  have "\<forall>e \<in> set [demo_ack 2, demo_ack 3]. sendable demo_platform kDefaultMaxFrameLength e"
    by (simp add: sendable_def kDefaultMaxFrameLength_def)
  from decoded_frames [OF demo_platform_ok this]
  have "envelopes (decoded demo_platform (concat (map (Encode demo_platform) [demo_ack 2, demo_ack 3]))) = [demo_ack 2, demo_ack 3]"
    "\<not> broken (decoded demo_platform (concat (map (Encode demo_platform) [demo_ack 2, demo_ack 3])))"
    by (simp_all add: broken_def)
  then obtain w where w: "w = workers (pool (disp g)) ! shard_of kBusinessWorkerCount 7"
    "map snd (filter (\<lambda>t. fst t = 7) (finished w @ in_hand w @ tasks w)) @ map call_event (io g 7) =
     map call_event ([EnqueueEnvelope 7 (demo_ack 2), EnqueueEnvelope 7 (demo_ack 3)] @
       (if 7 \<in> hung_up g then [EnqueueConnectionClosed 7] else []))"
    using stream_order [OF g(1) demo_platform_ok g(2,3) refl] by auto
  show ?thesis using g(1) w(1) w(2) [symmetric] by (intro exI [of _ g] exI [of _ w] conjI prefixI)
qed

text \<open>
  C37: when a read contains complete frames and then bytes that are a protocol error, the server
  dispatches none of the envelopes; had TCP delivered the same bytes in two reads, all of them would have been
  dispatched.  From then on the connection yields nothing, whatever arrives, and its buffer keeps
  everything that arrives.
\<close>

theorem bad_frame_drops:
  assumes p: "protobuf_ok p" and es: "\<forall>e \<in> set es. sendable p kDefaultMaxFrameLength e"
    and bad: "broken (decoded p bad)" and ses: "findSessionLocked c s = Some \<lparr>session_conn = c, recv_buffer = []\<rparr>"
    and fr: "fr = concat (map (Encode p) es)"
  shows "\<exists>s' s1 s2 rest. onMessage p c (fr @ bad) s = (True, [], s') \<and>
    onMessage p c fr s = (False, map (EnqueueEnvelope c) es, s1) \<and> onMessage p c bad s1 = (True, [], s2) \<and>
    findSessionLocked c s' = Some \<lparr>session_conn = c, recv_buffer = rest\<rparr> \<and>
    (\<forall>later. \<exists>s''. onMessage p c later s' = (True, [], s'') \<and>
       findSessionLocked c s'' = Some \<lparr>session_conn = c, recv_buffer = rest @ later\<rparr>)"
proof -
  have d: "decoded p fr = \<lparr>decode_status = kOk, envelopes = es, consumed_bytes = length fr\<rparr>" "leftover p fr = []"
    using decoded_frames [OF p es] fr by (simp_all add: leftover_def)
  have whole: "broken (decoded p (fr @ bad))"
    using decoded_append [OF p, of fr bad] d bad by (simp add: broken_def)
  let ?rest = "leftover p (fr @ bad)"
  have "broken (decoded p ?rest)" using decoded_leftover [of p "fr @ bad"] whole by (simp add: broken_def)
  note stuck = broken_append [OF p this]
  have grow: "leftover p (?rest @ later) = ?rest @ later" for later
    using stuck [of later] decoded_leftover [of p "fr @ bad"] by (simp add: leftover_def)
  show ?thesis
    using ses d whole bad stuck grow \<open>broken (decoded p ?rest)\<close>
    by (auto simp: onMessage_def findSessionLocked_def receive_decoded Let_def broken_def)
qed

theorem bad_frame_drops_witness:
  "\<exists>s. fst (snd (onMessage demo_platform 7 (Encode demo_platform (demo_ack 3) @ wire_frame []) s)) = [] \<and>
     fst (snd (onMessage demo_platform 7 (Encode demo_platform (demo_ack 3)) s)) = [EnqueueEnvelope 7 (demo_ack 3)]"
proof -
  let ?s = "snd (onConnection True 7 (new_ChatServer 1556 16 kFile))" and ?bad = "wire_frame []"
  have "findSessionLocked 7 ?s = Some \<lparr>session_conn = 7, recv_buffer = []\<rparr>"
    by (simp add: findSessionLocked_def onConnection_def)
  moreover have "broken (decoded demo_platform ?bad)"
    using header_length_wire_frame [of "[]" demo_platform "[]"] by (simp add: broken_def decoded_def DecodeAll_unfold)
  moreover have "\<forall>e \<in> set [demo_ack 3]. sendable demo_platform kDefaultMaxFrameLength e"
    by (simp add: sendable_def kDefaultMaxFrameLength_def)
  ultimately show ?thesis
    using bad_frame_drops [OF demo_platform_ok, of "[demo_ack 3]" ?bad 7 ?s] by (intro exI [of _ ?s]) auto
qed

end
