(* ===== verification/Chat_Client.thy ===== *)
theory Chat_Client
  imports Framing "HOL-Library.AList" "HOL-Library.Multiset"
begin

text \<open>
  \<^verbatim>\<open>client/src/Client.cpp\<close>: the user's end of a connection.  The threads of a client (those that call
  \<^verbatim>\<open>sendMessage\<close>, the receiver and the retry thread) meet in its critical sections; each section is an
  operation here, and \<open>Client_Threads\<close> interleaves them.

  A client carries its environment: the readings of the clock, and \<open>net\<close>, which tells what
  the \<open>k\<close>-th call of \<^verbatim>\<open>send\<close> with so many bytes left returns.  \<open>wire\<close> is what the socket has taken.  The table
  of pending requests is an association list, whose order is the unspecified iteration order of the
  \<^verbatim>\<open>unordered_map\<close>.  Printing to the console is left out.
\<close>

section \<open>State\<close>

definition kBaseRetryTimeoutMs :: u64 where "kBaseRetryTimeoutMs = 2000"
definition kMaxRetryCount :: int where "kMaxRetryCount = 5"

record PendingAck =
  pa_envelope :: Envelope
  last_send_ms :: u64
  pa_retry_count :: int

record Client =
  c_uid :: u64
  sock :: int
  receiver :: bool
  retry_thread :: bool
  message_queue :: "Envelope list"
  pending_acks :: "(u64 \<times> PendingAck) list"
  login_done :: bool
  login_ok :: bool
  login_reason :: string
  ack_count :: u32
  login_resp_count :: u32
  chat_push_count :: u32
  c_stop :: bool
  verbose :: bool
  c_clock :: "nat \<Rightarrow> u64"
  c_ticks :: nat
  net :: "nat \<Rightarrow> nat \<Rightarrow> int"
  sends :: nat
  wire :: string

text \<open>The counters that all clients of a process share.\<close>

record ClientStatics =
  next_seq :: u64
  next_client_msg_no :: u64

definition new_ClientStatics :: ClientStatics where
  "new_ClientStatics = \<lparr>next_seq = 2, next_client_msg_no = 1\<rparr>"

definition new_Client :: "(nat \<Rightarrow> u64) \<Rightarrow> (nat \<Rightarrow> nat \<Rightarrow> int) \<Rightarrow> Client" where
  "new_Client clk snd_results = \<lparr>c_uid = 0, sock = -1, receiver = False, retry_thread = False, message_queue = [],
     pending_acks = [], login_done = False, login_ok = False, login_reason = [], ack_count = 0, login_resp_count = 0,
     chat_push_count = 0, c_stop = False, verbose = False, c_clock = clk, c_ticks = 0, net = snd_results, sends = 0, wire = []\<rparr>"

definition setVerbose :: "bool \<Rightarrow> Client \<Rightarrow> Client" where
  "setVerbose enabled c = c\<lparr>verbose := enabled\<rparr>"

definition nowMs :: "Client \<Rightarrow> u64 \<times> Client" where
  "nowMs c = (c_clock c (c_ticks c), c\<lparr>c_ticks := Suc (c_ticks c)\<rparr>)"

section \<open>Sending\<close>

text \<open>
  The loop of \<^verbatim>\<open>sendAll\<close>: whether it succeeds, what the socket has taken by then (\<open>taken\<close>), and the calls made.
  A call that returns a positive number has taken that many bytes from the start of the memory it was given,
  which is the frame from the offset \<open>total_sent\<close> on.
\<close>

function send_loop :: "(nat \<Rightarrow> nat \<Rightarrow> int) \<Rightarrow> nat \<Rightarrow> string \<Rightarrow> nat \<Rightarrow> string \<Rightarrow> bool \<times> string \<times> nat" where
  "send_loop results k fr total_sent taken =
    (if total_sent < length fr then
       let data = drop total_sent fr;
           sent = results k (length fr - total_sent) in
       if sent < 0 then (False, taken, Suc k)
       else if sent = 0 then (False, taken, Suc k)
       else send_loop results (Suc k) fr (total_sent + nat sent) (taken @ take (nat sent) data)
     else (True, taken, k))"
  by pat_completeness auto
termination
  by (relation "measure (\<lambda>(results, k, fr, total_sent, taken). length fr - total_sent)") auto

declare send_loop.simps [simp del]

definition sendAll :: "string \<Rightarrow> Client \<Rightarrow> bool \<times> Client" where
  "sendAll fr c = (case send_loop (net c) (sends c) fr 0 (wire c) of
     (ok, taken, k) \<Rightarrow> (ok, c\<lparr>sends := k, wire := taken\<rparr>))"

definition client_sendEnvelope :: "platform \<Rightarrow> Envelope \<Rightarrow> Client \<Rightarrow> bool \<times> Client" where
  "client_sendEnvelope p envelope c =
    (let fr = Encode p envelope in if fr = [] then (False, c) else sendAll fr c)"

text \<open>
  \<^verbatim>\<open>sendMessage\<close> in four sections: the checks and the sequence number; building and registering the request;
  sending it, and dropping it again when that failed.
\<close>

definition take_seq :: "Client \<Rightarrow> ClientStatics \<Rightarrow> (u64 \<times> ClientStatics) option" where
  "take_seq c st =
    (if c_stop c then None
     else if \<not> login_ok c then None
     else Some (next_seq st, st\<lparr>next_seq := next_seq st + 1\<rparr>))"

definition make_client_msg_id :: "u64 \<Rightarrow> u64 \<Rightarrow> u64 \<Rightarrow> string" where
  "make_client_msg_id uid now msg_no = to_string uid @ ''-'' @ to_string now @ ''-'' @ to_string msg_no"

definition register_request ::
    "u64 \<Rightarrow> u64 \<Rightarrow> string \<Rightarrow> ClientStatics \<Rightarrow> Client \<Rightarrow> Envelope \<times> ClientStatics \<times> Client" where
  "register_request seq to_uid msg st c =
    (let msg_no = next_client_msg_no st;
         (t1, c1) = nowMs c;
         client_msg_id = make_client_msg_id (c_uid c) t1 msg_no;
         (t2, c2) = nowMs c1;
         envelope = CreateChatRequest t2 seq (c_uid c) to_uid msg client_msg_id;
         (t3, c3) = nowMs c2
     in (envelope, st\<lparr>next_client_msg_no := msg_no + 1\<rparr>,
         c3\<lparr>pending_acks := AList.update seq \<lparr>pa_envelope = envelope, last_send_ms = t3, pa_retry_count = 0\<rparr>
              (pending_acks c3)\<rparr>))"

definition drop_request :: "u64 \<Rightarrow> Client \<Rightarrow> Client" where
  "drop_request seq c = c\<lparr>pending_acks := AList.delete seq (pending_acks c)\<rparr>"

definition finish_send :: "platform \<Rightarrow> u64 \<Rightarrow> Envelope \<Rightarrow> Client \<Rightarrow> bool \<times> Client" where
  "finish_send p seq envelope c = (case client_sendEnvelope p envelope c of
      (True, c') \<Rightarrow> (True, c')
    | (False, c') \<Rightarrow> (False, drop_request seq c'))"

definition sendMessage ::
    "platform \<Rightarrow> u64 \<Rightarrow> string \<Rightarrow> ClientStatics \<Rightarrow> Client \<Rightarrow> bool \<times> ClientStatics \<times> Client" where
  "sendMessage p to_uid msg st c = (case take_seq c st of
      None \<Rightarrow> (False, st, c)
    | Some (seq, st1) \<Rightarrow>
        (case register_request seq to_uid msg st1 c of (envelope, st2, c2) \<Rightarrow>
          (case finish_send p seq envelope c2 of (ok, c3) \<Rightarrow> (ok, st2, c3))))"

section \<open>Receiving\<close>

definition pushMessage :: "Envelope \<Rightarrow> Client \<Rightarrow> Client" where
  "pushMessage envelope c = c\<lparr>message_queue := message_queue c @ [envelope]\<rparr>"

definition client_handleAck :: "Envelope \<Rightarrow> Client \<Rightarrow> Client" where
  "client_handleAck envelope c = (case env_payload envelope of
      kAck ack \<Rightarrow> c\<lparr>ack_count := ack_count c + 1, pending_acks := AList.delete (ack_seq ack) (pending_acks c)\<rparr>
    | _ \<Rightarrow> c)"

definition handleChatPush :: "platform \<Rightarrow> Envelope \<Rightarrow> Client \<Rightarrow> Client" where
  "handleChatPush p envelope c = (case env_payload envelope of
      kChatPush push \<Rightarrow>
        if \<not> login_ok c then c
        else let c1 = pushMessage envelope (c\<lparr>chat_push_count := chat_push_count c + 1\<rparr>) in
          if \<not> push_history push then
            (case nowMs c1 of (now, c2) \<Rightarrow>
               snd (client_sendEnvelope p (CreateAck now (env_seq envelope) (push_msg_id push) True []) c2))
          else c1
    | _ \<Rightarrow> c)"

definition handleLoginResponse :: "Envelope \<Rightarrow> Client \<Rightarrow> Client" where
  "handleLoginResponse envelope c =
    (let c1 = c\<lparr>login_resp_count := login_resp_count c + 1, login_done := True\<rparr> in
     case env_payload envelope of
       kLoginResp resp \<Rightarrow> c1\<lparr>login_ok := resp_ok resp, login_reason := resp_reason resp\<rparr>
     | _ \<Rightarrow> c1\<lparr>login_ok := False, login_reason := ''invalid login response''\<rparr>)"

definition failPendingLogin :: "string \<Rightarrow> Client \<Rightarrow> Client" where
  "failPendingLogin reason c = (if login_done c then c
     else c\<lparr>login_done := True, login_ok := False, login_reason := reason\<rparr>)"

definition handleEnvelope :: "platform \<Rightarrow> Envelope \<Rightarrow> Client \<Rightarrow> Client" where
  "handleEnvelope p envelope c = (case env_type envelope of
      ACK \<Rightarrow> client_handleAck envelope c
    | CHAT_PUSH \<Rightarrow> handleChatPush p envelope c
    | LOGIN_RESP \<Rightarrow> handleLoginResponse envelope c
    | _ \<Rightarrow> c)"

text \<open>What \<^verbatim>\<open>recv\<close> returns: an error, the end of the stream, or bytes.\<close>

datatype recv_result = RecvError | RecvClosed | RecvBytes string

text \<open>One iteration of \<^verbatim>\<open>receiverLoop\<close>: whether the loop goes on, and the buffer.\<close>

definition receive_once :: "platform \<Rightarrow> recv_result \<Rightarrow> string \<Rightarrow> Client \<Rightarrow> bool \<times> string \<times> Client" where
  "receive_once p result buf c = (case result of
      RecvError \<Rightarrow> (False, buf, failPendingLogin ''recv failed'' (c\<lparr>c_stop := True\<rparr>))
    | RecvClosed \<Rightarrow> (False, buf, failPendingLogin ''connection closed'' (c\<lparr>c_stop := True\<rparr>))
    | RecvBytes input \<Rightarrow>
        (case receive p buf input of (decode_result, rest) \<Rightarrow>
          let c1 = fold (handleEnvelope p) (envelopes decode_result) c in
          if broken decode_result then (False, rest, failPendingLogin ''decode failed'' (c1\<lparr>c_stop := True\<rparr>))
          else (True, rest, c1)))"

text \<open>\<^verbatim>\<open>receiverLoop\<close> on the results that \<^verbatim>\<open>recv\<close> gives one after the other, with no other thread interfering.\<close>

fun receiver_loop :: "platform \<Rightarrow> recv_result list \<Rightarrow> string \<Rightarrow> Client \<Rightarrow> string \<times> Client" where
  "receiver_loop p [] buf c = (buf, c)"
| "receiver_loop p (r # rs) buf c =
    (if c_stop c then (buf, c)
     else case receive_once p r buf c of (go, buf', c') \<Rightarrow>
       if go then receiver_loop p rs buf' c' else (buf', c'))"

section \<open>Retrying\<close>

definition retry_timeout_ms :: "PendingAck \<Rightarrow> u64" where
  "retry_timeout_ms pending = kBaseRetryTimeoutMs * word_of_int (pa_retry_count pending + 1)"

text \<open>The critical section of \<^verbatim>\<open>retryLoop\<close>: the table afterwards and \<^verbatim>\<open>retry_messages\<close>.\<close>

fun retry_scan :: "u64 \<Rightarrow> (u64 \<times> PendingAck) list \<Rightarrow> (u64 \<times> PendingAck) list \<times> Envelope list" where
  "retry_scan now [] = ([], [])"
| "retry_scan now ((seq, pending) # rest) = (case retry_scan now rest of (table, retry_messages) \<Rightarrow>
     if now - last_send_ms pending < retry_timeout_ms pending then ((seq, pending) # table, retry_messages)
     else if pa_retry_count pending \<ge> kMaxRetryCount then (table, retry_messages)
     else ((seq, pending\<lparr>pa_retry_count := pa_retry_count pending + 1, last_send_ms := now\<rparr>) # table,
           pa_envelope pending # retry_messages))"

text \<open>Sending one of \<^verbatim>\<open>retry_messages\<close>: what is left to send, nothing once the client stops.\<close>

fun resend_next :: "platform \<Rightarrow> Envelope list \<Rightarrow> Client \<Rightarrow> Envelope list \<times> Client" where
  "resend_next p [] c = ([], c)"
| "resend_next p (envelope # retry_messages) c =
    (if c_stop c then ([], c)
     else case client_sendEnvelope p envelope c of
       (True, c') \<Rightarrow> (retry_messages, c')
     | (False, c') \<Rightarrow> ([], c'\<lparr>c_stop := True\<rparr>))"

section \<open>Starting and stopping\<close>

datatype connect_result = ConnectFailed | Connected int

definition connectServer :: "connect_result \<Rightarrow> Client \<Rightarrow> bool \<times> Client" where
  "connectServer result c = (case result of
      ConnectFailed \<Rightarrow> (False, c\<lparr>sock := -1\<rparr>)
    | Connected fd \<Rightarrow> (True, c\<lparr>sock := fd\<rparr>))"

text \<open>\<^verbatim>\<open>stopClient\<close>, with both threads joined.\<close>

definition stopClient :: "Client \<Rightarrow> Client" where
  "stopClient c = c\<lparr>c_stop := True, receiver := False, retry_thread := False, sock := -1\<rparr>"

definition reset_client :: "u64 \<Rightarrow> Client \<Rightarrow> Client" where
  "reset_client user_uid c = c\<lparr>c_uid := user_uid, c_stop := False, ack_count := 0, login_resp_count := 0, chat_push_count := 0,
     pending_acks := [], login_done := False, login_ok := False, login_reason := []\<rparr>"

text \<open>\<^verbatim>\<open>startClient\<close> up to its wait for the login response, and from there on.\<close>

definition begin_start :: "platform \<Rightarrow> connect_result \<Rightarrow> u64 \<Rightarrow> Client \<Rightarrow> bool \<times> Client" where
  "begin_start p result user_uid c = (case connectServer result (reset_client user_uid c) of
      (False, c1) \<Rightarrow> (False, c1)
    | (True, c1) \<Rightarrow>
        (case nowMs (c1\<lparr>receiver := True\<rparr>) of (now, c2) \<Rightarrow>
          (case client_sendEnvelope p (CreateLoginRequest now 1 (c_uid c2)) c2 of
             (False, c3) \<Rightarrow> (False, stopClient c3)
           | (True, c3) \<Rightarrow> (True, c3))))"

definition end_start :: "bool \<Rightarrow> Client \<Rightarrow> bool \<times> Client" where
  "end_start received c =
    (if \<not> (received \<and> login_ok c) then (False, stopClient c) else (True, c\<lparr>retry_thread := True\<rparr>))"

definition client_getMessage :: "Client \<Rightarrow> Envelope list" where "client_getMessage c = message_queue c"
definition getAckCount :: "Client \<Rightarrow> int" where "getAckCount c = sint (ack_count c)"
definition getLoginResponseCount :: "Client \<Rightarrow> int" where "getLoginResponseCount c = sint (login_resp_count c)"
definition getChatPushCount :: "Client \<Rightarrow> int" where "getChatPushCount c = sint (chat_push_count c)"

end
