(* ===== verification/Client_Theorems.thy ===== *)
theory Client_Theorems
  imports Chat_Client
begin

text \<open>What the operations of a client do, each by itself.\<close>

section \<open>Sending\<close>

text \<open>\<^verbatim>\<open>send\<close> never takes more than it is given.\<close>

definition posix_send :: "(nat \<Rightarrow> nat \<Rightarrow> int) \<Rightarrow> bool" where
  "posix_send results \<longleftrightarrow> (\<forall>k n. results k n \<le> int n)"

text \<open>
  A run of the loop from the offset \<open>m\<close> takes \<open>n\<close> bytes of the frame in all and makes \<open>j\<close> calls; it
  ends short of the frame only when the last call, made for the bytes that are left, took none.
\<close>

lemma send_loop_result:
  assumes "posix_send results" "m \<le> length fr" "send_loop results k fr m taken = (ok, taken', k')"
  shows "\<exists>n j. m \<le> n \<and> n \<le> length fr \<and> taken' = taken @ take (n - m) (drop m fr) \<and> k' = k + j \<and> j + m \<le> length fr \<and>
    (ok \<longleftrightarrow> n = length fr) \<and> (\<not> ok \<longrightarrow> 0 < j \<and> results (k' - 1) (length fr - n) \<le> 0)"
  using assms
proof (induction results k fr m taken rule: send_loop.induct)
  case (1 results k fr m taken)
  let ?s = "results k (length fr - m)"
  show ?case
  proof (cases "m < length fr \<and> 0 < ?s")
    case True
    have "?s \<le> int (length fr - m)" using 1(2) by (simp add: posix_send_def)
    then have le: "m + nat ?s \<le> length fr" "0 < nat ?s" using True by linarith+
    have "send_loop results (Suc k) fr (m + nat ?s) (taken @ take (nat ?s) (drop m fr)) = (ok, taken', k')"
      using 1(4) True by (subst (asm) send_loop.simps) (simp add: Let_def)
    then obtain n j where i: "m + nat ?s \<le> n" "n \<le> length fr" "k' = Suc k + j" "j + (m + nat ?s) \<le> length fr"
        "ok \<longleftrightarrow> n = length fr" "\<not> ok \<longrightarrow> 0 < j \<and> results (k' - 1) (length fr - n) \<le> 0"
      and t: "taken' = (taken @ take (nat ?s) (drop m fr)) @ take (n - (m + nat ?s)) (drop (m + nat ?s) fr)"
      using 1(1) [OF _ refl refl] 1(2) le True by auto
    have "take (nat ?s) (drop m fr) @ take (n - (m + nat ?s)) (drop (m + nat ?s) fr) = take (n - m) (drop m fr)"
      using i(1) take_add [of "nat ?s" "n - (m + nat ?s)" "drop m fr"] by (simp add: add.commute)
    then show ?thesis using i t le by (intro exI [of _ n] exI [of _ "Suc j"]) auto
  next
    case False
    then show ?thesis
      using 1(3,4) by (subst (asm) send_loop.simps) (intro exI [of _ m] exI [of _ "k' - k"], auto simp: Let_def split: if_splits)
  qed
qed

lemma sendAll_prefix:
  assumes "posix_send (net c)" "sendAll fr c = (ok, c')"
  shows "\<exists>n k. n \<le> length fr \<and> k \<le> length fr \<and> (ok \<longleftrightarrow> n = length fr) \<and>
    (\<not> ok \<longrightarrow> 0 < k \<and> net c (sends c + k - 1) (length fr - n) \<le> 0) \<and>
    c' = c\<lparr>sends := sends c + k, wire := wire c @ take n fr\<rparr>"
proof -
  obtain taken k where l: "send_loop (net c) (sends c) fr 0 (wire c) = (ok, taken, k)" "c' = c\<lparr>sends := k, wire := taken\<rparr>"
    using assms(2) by (auto simp: sendAll_def split: prod.splits)
  show ?thesis using send_loop_result [OF assms(1) _ l(1)] l(2) by auto
qed

text \<open>
  C32: \<^verbatim>\<open>sendAll\<close> always returns, after at most one call of \<^verbatim>\<open>send\<close> per byte.  The socket has taken a prefix
  of the frame, and the result is true exactly when it has taken all of it; otherwise the last call of
  \<^verbatim>\<open>send\<close>, made for the bytes that were left, failed or took none.  Nothing else changes.
\<close>

theorem send_whole:
  assumes "posix_send (net c)" "sendAll fr c = (ok, c')"
  shows "\<exists>n k. n \<le> length fr \<and> k \<le> length fr \<and> (ok \<longleftrightarrow> n = length fr) \<and>
    (\<not> ok \<longrightarrow> 0 < k \<and> net c (sends c + k - 1) (length fr - n) \<le> 0) \<and>
    c' = c\<lparr>sends := sends c + k, wire := wire c @ take n fr\<rparr>"
  by (rule sendAll_prefix [OF assms])

definition demo_client :: Client where
  "demo_client = (new_Client (\<lambda>_. 1000) (\<lambda>_ n. min 3 (int n)))\<lparr>c_uid := 1, login_ok := True, login_done := True\<rparr>"

lemma demo_client_fields [simp]:
  "c_uid demo_client = 1" "login_ok demo_client" "\<not> c_stop demo_client" "net demo_client = (\<lambda>_ n. min 3 (int n))"
  "c_clock demo_client = (\<lambda>_. 1000)" "c_ticks demo_client = 0" "sends demo_client = 0" "wire demo_client = []"
  "pending_acks demo_client = []" "message_queue demo_client = []" "ack_count demo_client = 0" "chat_push_count demo_client = 0"
  by (simp_all add: demo_client_def new_Client_def)

lemma demo_client_posix [simp]: "posix_send (net demo_client)"
  by (simp add: posix_send_def)

theorem send_whole_witness: "\<exists>k \<le> 5. sendAll ''hello'' demo_client = (True, demo_client\<lparr>sends := k, wire := ''hello''\<rparr>)"
proof -
  obtain ok c' where s: "sendAll ''hello'' demo_client = (ok, c')" by (meson surj_pair)
  moreover have ok using s by (simp add: sendAll_def send_loop.simps)
  ultimately obtain k where "k \<le> length ''hello''" "c' = demo_client\<lparr>sends := k, wire := ''hello''\<rparr>"
    using send_whole [OF demo_client_posix s] by auto
  then show ?thesis using s \<open>ok\<close> by (intro exI [of _ k]) simp
qed


section \<open>Receiving\<close>

lemma client_sendEnvelope_fields:
  assumes "client_sendEnvelope p e c = (ok, c')"
  shows "c' = c\<lparr>sends := sends c', wire := wire c'\<rparr>"
  using assms by (auto simp: client_sendEnvelope_def sendAll_def Let_def split: if_splits prod.splits)

lemma client_sendEnvelope_stop [simp]: "c_stop (snd (client_sendEnvelope p e c)) = c_stop c"
  by (simp add: client_sendEnvelope_def sendAll_def Let_def split: prod.split)

lemma handleEnvelope_stop [simp]: "c_stop (handleEnvelope p e c) = c_stop c"
  by (simp add: handleEnvelope_def client_handleAck_def handleChatPush_def handleLoginResponse_def pushMessage_def nowMs_def
      Let_def split: MessageType.split Payload.split)

lemma fold_handleEnvelope_stop [simp]: "c_stop (fold (handleEnvelope p) es c) = c_stop c"
  by (induction es arbitrary: c) simp_all

text \<open>The receiver's state once the bytes \<open>s\<close> have arrived.\<close>

definition received :: "platform \<Rightarrow> DecodeResult \<Rightarrow> Client \<Rightarrow> Client" where
  "received p r c = (let c1 = fold (handleEnvelope p) (envelopes r) c in
     if broken r then failPendingLogin ''decode failed'' (c1\<lparr>c_stop := True\<rparr>) else c1)"

lemma receiver_chunks:
  assumes "protobuf_ok p" "\<not> c_stop c" "\<not> broken (decoded p s)"
  shows "snd (receiver_loop p (map RecvBytes chunks) (leftover p s) c) = received p (decoded p (leftover p s @ concat chunks)) c"
  using assms(2,3)
proof (induction chunks arbitrary: s c)
  case Nil
  then show ?case using decoded_leftover [of p s] by (simp add: received_def broken_def)
next
  case (Cons x chunks)
  let ?r = "decoded p (leftover p s @ x)"
  have p: "protobuf p" using assms(1) by (rule protobuf.intro)
  show ?case
  proof (cases "broken ?r")
    case True
    have "decoded p ((leftover p s @ x) @ concat chunks) = ?r" by (rule broken_append [OF assms(1) True])
    then show ?thesis using True Cons.prems by (simp add: receive_once_def receive_decoded received_def Let_def)
  next
    case False
    note on = protobuf.client_reads(1) [OF p False] protobuf.client_reads(2,3) [OF p False, of "concat chunks"]
    then show ?thesis
      using False Cons.prems Cons.IH [of "fold (handleEnvelope p) (envelopes ?r) c" "s @ x"] protobuf.client_reads(4) [OF p, of s x]
      by (simp add: receive_once_def receive_decoded received_def Let_def)
  qed
qed

text \<open>
  C25: what the receiver does depends on the bytes of the stream and not on how \<^verbatim>\<open>recv\<close> cuts them.  It
  handles the decoded envelopes one after the other, and on a protocol error, after handling the envelopes
  that precede it, stops the client and ends a login that is still waiting.
\<close>

theorem receive_chunking:
  assumes "protobuf_ok p" "\<not> c_stop c" "r = decoded p (concat chunks)"
  shows "snd (receiver_loop p (map RecvBytes chunks) [] c) =
    (let c1 = fold (handleEnvelope p) (envelopes r) c in
     if decode_status r = kInvalidLength \<or> decode_status r = kParseError then
       failPendingLogin ''decode failed'' (c1\<lparr>c_stop := True\<rparr>) else c1)"
  using receiver_chunks [OF assms(1,2), of "[]" chunks] assms(3) by (simp add: received_def broken_def)

theorem receive_chunking_witness:
  "ack_count (snd (receiver_loop demo_platform (map RecvBytes [take 3 (Encode demo_platform (demo_ack 3)),
     drop 3 (Encode demo_platform (demo_ack 3))]) [] demo_client)) = 1"
proof -
  have "\<forall>e \<in> set [demo_ack 3]. sendable demo_platform kDefaultMaxFrameLength e"
    by (simp add: sendable_def kDefaultMaxFrameLength_def)
  from decoded_frames [OF demo_platform_ok this] show ?thesis
    using receive_chunking [OF demo_platform_ok _ refl, of demo_client "[take 3 (Encode demo_platform (demo_ack 3)),
      drop 3 (Encode demo_platform (demo_ack 3))]"]
    by (simp add: handleEnvelope_def client_handleAck_def demo_ack_def CreateAck_def)
qed

lemma client_sendEnvelope_prefix:
  assumes "posix_send (net c)" "client_sendEnvelope p e c = (ok, c')"
  shows "\<exists>n k. n \<le> length (Encode p e) \<and> (ok \<longleftrightarrow> Encode p e \<noteq> [] \<and> n = length (Encode p e)) \<and>
    (n < length (Encode p e) \<longrightarrow> 0 < k \<and> net c (sends c + k - 1) (length (Encode p e) - n) \<le> 0) \<and>
    c' = c\<lparr>sends := sends c + k, wire := wire c @ take n (Encode p e)\<rparr>"
proof (cases "Encode p e = []")
  case True
  then show ?thesis using assms(2) by (intro exI [of _ 0]) (simp add: client_sendEnvelope_def)
next
  case False
  then have "sendAll (Encode p e) c = (ok, c')" using assms(2) by (simp add: client_sendEnvelope_def)
  from sendAll_prefix [OF assms(1) this] show ?thesis using False by (metis nat_less_le)
qed

text \<open>
  C24: a chat push that arrives after login is appended to the message queue, whether or not the same message
  was received before, and nothing is sent for a push that is history.  For any other one, exactly one
  acknowledgement frame with the push's message identifier is written to the socket: the whole frame, unless a
  call of \<^verbatim>\<open>send\<close> for its bytes failed or took none, after which the rest of it is left out.  A push before login
  has no effect: it is neither kept nor acknowledged.
\<close>

theorem push_acked:
  assumes net: "posix_send (net c)" and e: "env_type e = CHAT_PUSH" "env_payload e = kChatPush push"
    and c': "c' = handleEnvelope p e c"
  shows "if \<not> login_ok c then c' = c
    else message_queue c' = message_queue c @ [e] \<and> chat_push_count c' = chat_push_count c + 1 \<and>
      pending_acks c' = pending_acks c \<and>
      (if push_history push then wire c' = wire c \<and> sends c' = sends c
       else let ack = Encode p (CreateAck (c_clock c (c_ticks c)) (env_seq e) (push_msg_id push) True []) in
         wire c' = wire c @ ack \<or>
         (\<exists>n < length ack. wire c' = wire c @ take n ack \<and> sends c < sends c' \<and>
            net c (sends c' - 1) (length ack - n) \<le> 0))"
proof (cases "login_ok c \<and> \<not> push_history push")
  case True
  let ?c = "c\<lparr>chat_push_count := chat_push_count c + 1, message_queue := message_queue c @ [e], c_ticks := Suc (c_ticks c)\<rparr>"
  let ?a = "CreateAck (c_clock c (c_ticks c)) (env_seq e) (push_msg_id push) True []"
  obtain ok where s: "client_sendEnvelope p ?a ?c = (ok, c')"
    using e True c' by (cases "client_sendEnvelope p ?a ?c")
      (simp add: handleEnvelope_def handleChatPush_def pushMessage_def nowMs_def Let_def)
  have "posix_send (net ?c)" using net by simp
  from client_sendEnvelope_prefix [OF this s] obtain n k
    where n: "n \<le> length (Encode p ?a)"
      "n < length (Encode p ?a) \<longrightarrow> 0 < k \<and> net c (sends c + k - 1) (length (Encode p ?a) - n) \<le> 0"
      and d: "c' = ?c\<lparr>sends := sends ?c + k, wire := wire ?c @ take n (Encode p ?a)\<rparr>" by auto
  have f: "wire c' = wire c @ take n (Encode p ?a)" "sends c' = sends c + k" "message_queue c' = message_queue c @ [e]"
    "chat_push_count c' = chat_push_count c + 1" "pending_acks c' = pending_acks c"
    unfolding d by simp_all
  show ?thesis
  proof (cases "n < length (Encode p ?a)")
    case short: True
    then show ?thesis using True f n by (simp add: Let_def) blast
  next
    case False
    then show ?thesis using True f n by (simp add: Let_def)
  qed
qed (use assms in \<open>auto simp: handleEnvelope_def handleChatPush_def pushMessage_def Let_def\<close>)

theorem push_acked_witness:
  "message_queue (handleEnvelope demo_platform (CreateChatPush 5 6 9 8 2 1 ''hi'' 5 False) demo_client) =
      [CreateChatPush 5 6 9 8 2 1 ''hi'' 5 False] \<and>
    wire (handleEnvelope demo_platform (CreateChatPush 5 6 9 8 2 1 ''hi'' 5 False) demo_client) =
      Encode demo_platform (CreateAck 1000 9 8 True [])"
  using push_acked [OF demo_client_posix _ _ refl, of "CreateChatPush 5 6 9 8 2 1 ''hi'' 5 False" _ demo_platform]
  by (auto simp: CreateChatPush_def Let_def)

section \<open>Retrying\<close>

text \<open>What one scan does to an entry.\<close>

definition retried :: "u64 \<Rightarrow> PendingAck \<Rightarrow> PendingAck option" where
  "retried now pending =
    (if now - last_send_ms pending < retry_timeout_ms pending then Some pending
     else if pa_retry_count pending \<ge> kMaxRetryCount then None
     else Some (pending\<lparr>pa_retry_count := pa_retry_count pending + 1, last_send_ms := now\<rparr>))"

definition resent :: "u64 \<Rightarrow> PendingAck \<Rightarrow> bool" where
  "resent now pending \<longleftrightarrow> \<not> now - last_send_ms pending < retry_timeout_ms pending \<and> pa_retry_count pending < kMaxRetryCount"

lemma retry_scan_out: "snd (retry_scan now table) = map (pa_envelope \<circ> snd) (filter (resent now \<circ> snd) table)"
  by (induction now table rule: retry_scan.induct) (auto simp: resent_def split: prod.splits)

lemma retry_scan_keys: "fst ` set (fst (retry_scan now table)) \<subseteq> fst ` set table"
proof (induction now table rule: retry_scan.induct)
  case (2 now seq pending rest)
  then show ?case by (cases "retry_scan now rest") auto
qed simp

lemma retry_scan_distinct: "distinct (map fst table) \<Longrightarrow> distinct (map fst (fst (retry_scan now table)))"
proof (induction now table rule: retry_scan.induct)
  case (2 now seq pending rest)
  then have "seq \<notin> fst ` set (fst (retry_scan now rest))" using retry_scan_keys [of now rest] by auto
  then show ?case using 2 by (cases "retry_scan now rest") auto
qed simp

lemma retry_scan_lookup:
  "distinct (map fst table) \<Longrightarrow>
    map_of (fst (retry_scan now table)) seq = Option.bind (map_of table seq) (retried now)"
proof (induction now table rule: retry_scan.induct)
  case (2 now seq' pending rest)
  have "seq' \<notin> fst ` set (fst (retry_scan now rest))" using 2(2) retry_scan_keys [of now rest] by auto
  then have "map_of (fst (retry_scan now rest)) seq' = None" by (simp add: map_of_eq_None_iff)
  then show ?case using 2 by (auto simp: retried_def split: prod.splits)
qed simp

text \<open>
  C38: every acknowledgement removes the request it names from the table of pending requests, whether
  \<^verbatim>\<open>ok\<close> is true or false, and counts as an acknowledgement.  The server sends \<^verbatim>\<open>ok = false\<close> when it could not store the
  message; no scan of the table after that takes the request for another transmission.  (A copy that an earlier
  scan has already put into \<^verbatim>\<open>retry_messages\<close> may still be sent.)
\<close>

theorem negative_ack_drops:
  assumes "env_type e = ACK" "env_payload e = kAck ack" "\<forall>(s, pa) \<in> set (pending_acks c). env_seq (pa_envelope pa) = s"
    and "c' = handleEnvelope p e c"
  shows "ack_count c' = ack_count c + 1 \<and> ack_seq ack \<notin> fst ` set (pending_acks c') \<and>
    (\<forall>now. \<forall>r \<in> set (snd (retry_scan now (pending_acks c'))). env_seq r \<noteq> ack_seq ack)"
proof -
  have "pending_acks c' = AList.delete (ack_seq ack) (pending_acks c)" "ack_count c' = ack_count c + 1"
    using assms by (simp_all add: handleEnvelope_def client_handleAck_def)
  moreover have "env_seq r \<noteq> ack_seq ack"
    if "r \<in> set (snd (retry_scan now (AList.delete (ack_seq ack) (pending_acks c))))" for now r
    using that assms(3) by (auto simp: retry_scan_out AList.delete_eq)
  ultimately show ?thesis by (simp add: AList.delete_eq image_iff)
qed

theorem negative_ack_drops_witness:
  "pending_acks (handleEnvelope demo_platform (CreateAck 5 2 0 False ''message store unavailable'')
     (demo_client\<lparr>pending_acks := [(2, \<lparr>pa_envelope = CreateChatRequest 1 2 1 3 ''hi'' ''x'', last_send_ms = 0, pa_retry_count = 0\<rparr>)]\<rparr>)) = []"
proof -
  let ?c = "demo_client\<lparr>pending_acks := [(2, \<lparr>pa_envelope = CreateChatRequest 1 2 1 3 ''hi'' ''x'', last_send_ms = 0, pa_retry_count = 0\<rparr>)]\<rparr>"
  let ?e = "CreateAck 5 2 0 False ''message store unavailable''"
  have "2 \<notin> fst ` set (pending_acks (handleEnvelope demo_platform ?e ?c))"
    using negative_ack_drops [of ?e _ ?c, OF _ _ _ refl, of _ demo_platform] by (simp add: CreateAck_def CreateChatRequest_def)
  then show ?thesis by (simp add: handleEnvelope_def client_handleAck_def CreateAck_def)
qed

text \<open>
  C27: a scan of the retry thread.  A request is sent again exactly when the time since it was last sent has reached
  2000 ms times its retry counter plus one and fewer than five retries were made, unchanged and so with
  the same client message identifier; its counter goes up.  After five retries it is dropped instead.  Other
  requests are untouched.
\<close>

theorem retry_due:
  assumes "distinct (map fst table)" "\<forall>(s, pa) \<in> set table. 0 \<le> pa_retry_count pa \<and> pa_retry_count pa \<le> 5"
    and "retry_scan now table = (table', out)"
  shows "(\<forall>s. map_of table' s = (case map_of table s of
       None \<Rightarrow> None
     | Some pa \<Rightarrow> if unat (now - last_send_ms pa) < 2000 * nat (pa_retry_count pa + 1) then Some pa
         else if pa_retry_count pa = 5 then None
         else Some (pa\<lparr>pa_retry_count := pa_retry_count pa + 1, last_send_ms := now\<rparr>))) \<and>
    out = map (pa_envelope \<circ> snd) (filter (\<lambda>(s, pa). 2000 * nat (pa_retry_count pa + 1) \<le> unat (now - last_send_ms pa) \<and>
       pa_retry_count pa < 5) table)"
proof -
  have time: "now - last_send_ms pa < retry_timeout_ms pa \<longleftrightarrow> unat (now - last_send_ms pa) < 2000 * nat (pa_retry_count pa + 1)"
    if "0 \<le> pa_retry_count pa" "pa_retry_count pa \<le> 5" for pa
  proof -
    have "retry_timeout_ms pa = word_of_nat (2000 * nat (pa_retry_count pa + 1))"
      using that by (simp add: retry_timeout_ms_def kBaseRetryTimeoutMs_def)
    moreover have "unat (word_of_nat (2000 * nat (pa_retry_count pa + 1)) :: u64) = 2000 * nat (pa_retry_count pa + 1)"
      by (rule unat_of_nat_u64) (use that in simp)
    ultimately show ?thesis by (simp add: word_less_nat_alt)
  qed
  have "map_of table' s = (case map_of table s of
       None \<Rightarrow> None
     | Some pa \<Rightarrow> if unat (now - last_send_ms pa) < 2000 * nat (pa_retry_count pa + 1) then Some pa
         else if pa_retry_count pa = 5 then None
         else Some (pa\<lparr>pa_retry_count := pa_retry_count pa + 1, last_send_ms := now\<rparr>))" for s
  proof (cases "map_of table s")
    case (Some pa)
    then have "0 \<le> pa_retry_count pa" "pa_retry_count pa \<le> 5" using assms(2) map_of_SomeD [OF Some] by auto
    then show ?thesis
      using retry_scan_lookup [OF assms(1), of now s] assms(3) time Some by (auto simp: retried_def kMaxRetryCount_def)
  qed (use retry_scan_lookup [OF assms(1), of now s] assms(3) in simp)
  moreover have "out = map (pa_envelope \<circ> snd) (filter (resent now \<circ> snd) table)"
    using retry_scan_out [of now table] assms(3) by simp
  moreover have "filter (resent now \<circ> snd) table = filter (\<lambda>(s, pa). 2000 * nat (pa_retry_count pa + 1) \<le>
      unat (now - last_send_ms pa) \<and> pa_retry_count pa < 5) table"
    using assms(2) time by (intro filter_cong) (auto simp: resent_def kMaxRetryCount_def)
  ultimately show ?thesis by simp
qed

definition demo_pending :: "u64 \<Rightarrow> int \<Rightarrow> PendingAck" where
  "demo_pending t n = \<lparr>pa_envelope = CreateChatRequest 1 2 1 3 ''hi'' ''1-1-1'', last_send_ms = t, pa_retry_count = n\<rparr>"

theorem retry_due_witness:
  "snd (retry_scan 5000 [(2, demo_pending 1000 1), (3, demo_pending 1001 1), (4, demo_pending 0 5)]) =
    [pa_envelope (demo_pending 1000 1)]"
proof -
  let ?t = "[(2, demo_pending 1000 1), (3, demo_pending 1001 1), (4, demo_pending 0 5)]"
  obtain t o' where r: "retry_scan 5000 ?t = (t, o')" by (meson surj_pair)
  from retry_due [OF _ _ r] show ?thesis using r by (simp add: demo_pending_def)
qed

text \<open>
  The elapsed time is an unsigned difference.  The retry thread reads the clock before it takes the lock, so a
  request that is registered in between, or one that was sent before the clock was set back, has a send
  time in the future; the difference wraps around and the request is sent again at once.
\<close>

lemma early_retry:
  assumes "now < last_send_ms pa" "unat (last_send_ms pa - now) \<le> 2 ^ 63" "0 \<le> pa_retry_count pa" "pa_retry_count pa < 5"
  shows "retry_scan now [(s, pa)] =
    ([(s, pa\<lparr>pa_retry_count := pa_retry_count pa + 1, last_send_ms := now\<rparr>)], [pa_envelope pa])"
proof -
  have "2 ^ 63 \<le> unat (now - last_send_ms pa)" by (rule wrapped_difference [OF assms(1,2)])
  moreover have "retry_timeout_ms pa = word_of_nat (2000 * nat (pa_retry_count pa + 1))"
    using assms(3) by (simp add: retry_timeout_ms_def kBaseRetryTimeoutMs_def)
  then have "unat (retry_timeout_ms pa) = 2000 * nat (pa_retry_count pa + 1)"
    using assms(3,4) by (simp only:) (rule unat_of_nat_u64, simp)
  moreover have "2000 * nat (pa_retry_count pa + 1) \<le> 10000" using assms(4) by simp
  ultimately have "\<not> now - last_send_ms pa < retry_timeout_ms pa" unfolding word_less_nat_alt by simp
  then show ?thesis using assms(4) by (simp add: kMaxRetryCount_def)
qed

end
