(* ===== verification/Client_Threads.thy ===== *)
theory Client_Threads
  imports Client_Theorems
begin

text \<open>
  The threads of a client: any number of callers of \<^verbatim>\<open>sendMessage\<close>, the receiver, which handles one envelope at a
  time, and the retry thread, which reads the clock, scans the table and then sends what is due.  Other clients of the
  process take numbers from the same counters.
\<close>

section \<open>The receiver's handlers in sections\<close>

text \<open>
  Where the receiver is inside \<^verbatim>\<open>handleAck\<close>, \<^verbatim>\<open>handleLoginResponse\<close>, \<^verbatim>\<open>handleChatPush\<close> or \<^verbatim>\<open>failPendingLogin\<close>: before
  which critical section or atomic access.  Other threads run in between.
\<close>

datatype handler_section =
    Erase_Request u64
  | Set_Login Envelope
  | Check_Login Envelope ChatPush
  | Count_Push Envelope ChatPush
  | Queue_Push Envelope ChatPush
  | Make_Ack Envelope ChatPush
  | Send_Ack Envelope
  | Fail_Login string

definition begin_handle :: "Envelope \<Rightarrow> Client \<Rightarrow> handler_section option \<times> Client" where
  "begin_handle envelope c = (case env_type envelope of
      ACK \<Rightarrow> (case env_payload envelope of
          kAck ack \<Rightarrow> (Some (Erase_Request (ack_seq ack)), c\<lparr>ack_count := ack_count c + 1\<rparr>)
        | _ \<Rightarrow> (None, c))
    | CHAT_PUSH \<Rightarrow> (case env_payload envelope of kChatPush push \<Rightarrow> (Some (Check_Login envelope push), c) | _ \<Rightarrow> (None, c))
    | LOGIN_RESP \<Rightarrow> (Some (Set_Login envelope), c\<lparr>login_resp_count := login_resp_count c + 1\<rparr>)
    | _ \<Rightarrow> (None, c))"

fun run_section :: "platform \<Rightarrow> handler_section \<Rightarrow> Client \<Rightarrow> handler_section option \<times> Client" where
  "run_section p (Erase_Request seq) c = (None, drop_request seq c)"
| "run_section p (Set_Login envelope) c = (None, (case env_payload envelope of
      kLoginResp resp \<Rightarrow> c\<lparr>login_done := True, login_ok := resp_ok resp, login_reason := resp_reason resp\<rparr>
    | _ \<Rightarrow> c\<lparr>login_done := True, login_ok := False, login_reason := ''invalid login response''\<rparr>))"
| "run_section p (Check_Login envelope push) c =
    (if \<not> login_ok c then (None, c) else (Some (Count_Push envelope push), c))"
| "run_section p (Count_Push envelope push) c =
    (Some (Queue_Push envelope push), c\<lparr>chat_push_count := chat_push_count c + 1\<rparr>)"
| "run_section p (Queue_Push envelope push) c =
    (if \<not> push_history push then Some (Make_Ack envelope push) else None, pushMessage envelope c)"
| "run_section p (Make_Ack envelope push) c = (case nowMs c of (now, c') \<Rightarrow>
    (Some (Send_Ack (CreateAck now (env_seq envelope) (push_msg_id push) True [])), c'))"
| "run_section p (Send_Ack envelope) c = (None, snd (client_sendEnvelope p envelope c))"
| "run_section p (Fail_Login reason) c = (None, failPendingLogin reason c)"

text \<open>
  Without interference the sections of an envelope, at most five after the first, add up to \<^verbatim>\<open>handleEnvelope\<close>.
\<close>

fun finish_sections :: "platform \<Rightarrow> nat \<Rightarrow> handler_section option \<times> Client \<Rightarrow> handler_section option \<times> Client" where
  "finish_sections p (Suc n) (Some h, c) = finish_sections p n (run_section p h c)"
| "finish_sections p n (h, c) = (h, c)"

lemma sections_handle: "finish_sections p 5 (begin_handle e c) = (None, handleEnvelope p e c)"
  by (cases "env_type e"; cases "env_payload e")
    (simp_all add: begin_handle_def handleEnvelope_def client_handleAck_def handleLoginResponse_def handleChatPush_def
      drop_request_def nowMs_def eval_nat_numeral Let_def)

section \<open>Steps\<close>

text \<open>A request that was registered: its sequence number, the number in its identifier, and the envelope.\<close>

record made =
  made_seq :: u64
  made_no :: u64
  made_env :: Envelope

text \<open>
  \<open>starting\<close>, \<open>senders\<close> and \<open>failing\<close> are the calls of \<^verbatim>\<open>sendMessage\<close> in progress, after taking a sequence number, after
  registering the request, and after a failed send, before the request is dropped.  \<open>handling\<close> is the
  receiver's place in a handler.  \<open>made_requests\<close>, \<open>transmitted\<close>, \<open>issued\<close> and \<open>numbered\<close> are history
  variables: the registered requests, the requests handed to \<^verbatim>\<open>sendEnvelope\<close>, and how often each shared
  counter was advanced.
\<close>

record ClientRun =
  client :: Client
  statics :: ClientStatics
  starting :: "(u64 \<times> u64 \<times> string) list"
  senders :: "(u64 \<times> Envelope) list"
  failing :: "u64 list"
  handling :: "handler_section option"
  scan_time :: "u64 option"
  retry_messages :: "Envelope list"
  in_buffer :: string
  inbox :: "Envelope list"
  bad_stream :: bool
  made_requests :: "made list"
  transmitted :: "Envelope list"
  issued :: nat
  numbered :: nat

definition new_run :: "Client \<Rightarrow> ClientRun" where
  "new_run c = \<lparr>client = c, statics = new_ClientStatics, starting = [], senders = [], failing = [],
     handling = None, scan_time = None,
     retry_messages = [], in_buffer = [], inbox = [], bad_stream = False, made_requests = [], transmitted = [],
     issued = 0, numbered = 0\<rparr>"

inductive client_thread_step :: "platform \<Rightarrow> ClientRun \<Rightarrow> ClientRun \<Rightarrow> bool" for p where
  begin_send: "take_seq (client g) (statics g) = Some (seq, st) \<Longrightarrow>
    client_thread_step p g (g\<lparr>statics := st, starting := starting g @ [(seq, to_uid, msg)], issued := Suc (issued g)\<rparr>)"
| register: "starting g = xs @ (seq, to_uid, msg) # ys \<Longrightarrow>
    register_request seq to_uid msg (statics g) (client g) = (e, st, c) \<Longrightarrow>
    client_thread_step p g (g\<lparr>client := c, statics := st, starting := xs @ ys, senders := senders g @ [(seq, e)],
      made_requests := made_requests g @ [\<lparr>made_seq = seq, made_no = next_client_msg_no (statics g), made_env = e\<rparr>],
      numbered := Suc (numbered g)\<rparr>)"
| transmit: "senders g = xs @ (seq, e) # ys \<Longrightarrow> client_sendEnvelope p e (client g) = (ok, c) \<Longrightarrow>
    client_thread_step p g (g\<lparr>client := c, senders := xs @ ys, failing := failing g @ (if ok then [] else [seq]),
      transmitted := transmitted g @ [e]\<rparr>)"
| abandon: "failing g = xs @ seq # ys \<Longrightarrow>
    client_thread_step p g (g\<lparr>client := drop_request seq (client g), failing := xs @ ys\<rparr>)"
| receive: "\<not> c_stop (client g) \<Longrightarrow> handling g = None \<Longrightarrow> inbox g = [] \<Longrightarrow> \<not> bad_stream g \<Longrightarrow> receive p (in_buffer g) input = (r, rest) \<Longrightarrow>
    client_thread_step p g (g\<lparr>in_buffer := rest, inbox := envelopes r, bad_stream := broken r\<rparr>)"
| handle: "handling g = None \<Longrightarrow> inbox g = e # es \<Longrightarrow> begin_handle e (client g) = (h, c) \<Longrightarrow>
    client_thread_step p g (g\<lparr>client := c, inbox := es, handling := h\<rparr>)"
| go_on: "handling g = Some h \<Longrightarrow> run_section p h (client g) = (h', c) \<Longrightarrow>
    client_thread_step p g (g\<lparr>client := c, handling := h'\<rparr>)"
| receive_bad: "handling g = None \<Longrightarrow> inbox g = [] \<Longrightarrow> bad_stream g \<Longrightarrow>
    client_thread_step p g (g\<lparr>client := (client g)\<lparr>c_stop := True\<rparr>, handling := Some (Fail_Login ''decode failed'')\<rparr>)"
| receive_end: "handling g = None \<Longrightarrow> inbox g = [] \<Longrightarrow> reason \<in> {''recv failed'', ''connection closed''} \<Longrightarrow>
    client_thread_step p g (g\<lparr>client := (client g)\<lparr>c_stop := True\<rparr>, handling := Some (Fail_Login reason)\<rparr>)"
| scan_clock: "\<not> c_stop (client g) \<Longrightarrow> scan_time g = None \<Longrightarrow> retry_messages g = [] \<Longrightarrow> nowMs (client g) = (now, c) \<Longrightarrow>
    client_thread_step p g (g\<lparr>client := c, scan_time := Some now\<rparr>)"
| scan: "scan_time g = Some now \<Longrightarrow> retry_scan now (pending_acks (client g)) = (table, out) \<Longrightarrow>
    client_thread_step p g (g\<lparr>client := (client g)\<lparr>pending_acks := table\<rparr>, scan_time := None, retry_messages := out\<rparr>)"
| resend: "retry_messages g = e # es \<Longrightarrow> resend_next p (e # es) (client g) = (es', c) \<Longrightarrow>
    client_thread_step p g (g\<lparr>client := c, retry_messages := es',
      transmitted := transmitted g @ (if c_stop (client g) then [] else [e])\<rparr>)"
| rehash: "mset table = mset (pending_acks (client g)) \<Longrightarrow>
    client_thread_step p g (g\<lparr>client := (client g)\<lparr>pending_acks := table\<rparr>\<rparr>)"
| other_seq: "client_thread_step p g (g\<lparr>statics := (statics g)\<lparr>next_seq := next_seq (statics g) + 1\<rparr>, issued := Suc (issued g)\<rparr>)"
| other_no: "client_thread_step p g
    (g\<lparr>statics := (statics g)\<lparr>next_client_msg_no := next_client_msg_no (statics g) + 1\<rparr>, numbered := Suc (numbered g)\<rparr>)"
| stop: "client_thread_step p g (g\<lparr>client := (client g)\<lparr>c_stop := True\<rparr>\<rparr>)"

inductive client_reachable :: "platform \<Rightarrow> ClientRun \<Rightarrow> bool" for p where
  init: "pending_acks c = [] \<Longrightarrow> client_reachable p (new_run c)"
| step: "client_reachable p g \<Longrightarrow> client_thread_step p g g' \<Longrightarrow> client_reachable p g'"

section \<open>The numbers of requests\<close>

text \<open>A request as \<^verbatim>\<open>sendMessage\<close> builds it.\<close>

definition well_made :: "made \<Rightarrow> bool" where
  "well_made m \<longleftrightarrow> (\<exists>t uid to_uid msg now. made_env m =
     CreateChatRequest t (made_seq m) uid to_uid msg (make_client_msg_id uid now (made_no m)))"

definition numbers_inv :: "ClientRun \<Rightarrow> bool" where
  "numbers_inv g \<longleftrightarrow> next_seq (statics g) = word_of_nat (2 + issued g) \<and>
     next_client_msg_no (statics g) = word_of_nat (1 + numbered g) \<and>
     distinct (map fst (starting g) @ map made_seq (made_requests g)) \<and>
     (\<forall>s \<in> set (map fst (starting g) @ map made_seq (made_requests g)). unat s < 2 + issued g) \<and>
     distinct (map made_no (made_requests g)) \<and> (\<forall>m \<in> set (made_requests g). unat (made_no m) < 1 + numbered g) \<and>
     (\<forall>m \<in> set (made_requests g). well_made m)"

definition in_range :: "ClientRun \<Rightarrow> bool" where
  "in_range g \<longleftrightarrow> 2 + issued g < 2 ^ 64 \<and> 1 + numbered g < 2 ^ 64"

text \<open>The part of the state that \<open>numbers_inv\<close> reads.\<close>

definition numbers_of :: "ClientRun \<Rightarrow> ClientStatics \<times> (u64 \<times> u64 \<times> string) list \<times> made list \<times> nat \<times> nat" where
  "numbers_of g = (statics g, starting g, made_requests g, issued g, numbered g)"

lemma numbers_inv_frame: "numbers_inv g \<Longrightarrow> numbers_of g' = numbers_of g \<Longrightarrow> numbers_inv g'"
  by (simp add: numbers_inv_def numbers_of_def)

lemma fresh_number: "\<forall>s \<in> S. unat (s :: u64) < n \<Longrightarrow> n < 2 ^ 64 \<Longrightarrow> word_of_nat n \<notin> S"
  using unat_of_nat_u64 by fastforce

lemma register_request_fields:
  assumes "register_request seq to_uid msg st c = (e, st', c')"
  shows "e = CreateChatRequest (c_clock c (Suc (c_ticks c))) seq (c_uid c) to_uid msg
      (make_client_msg_id (c_uid c) (c_clock c (c_ticks c)) (next_client_msg_no st))"
    "st' = st\<lparr>next_client_msg_no := next_client_msg_no st + 1\<rparr>"
    "pending_acks c' = AList.update seq \<lparr>pa_envelope = e, last_send_ms = c_clock c (Suc (Suc (c_ticks c))), pa_retry_count = 0\<rparr>
      (pending_acks c)"
  using assms by (auto simp: register_request_def nowMs_def Let_def)

lemma numbers_inv_init: "numbers_inv (new_run c)"
  by (simp add: numbers_inv_def new_run_def new_ClientStatics_def)

lemma numbers_step:
  assumes "client_thread_step p g g'" "numbers_inv g" "in_range g'"
  shows "numbers_inv g'"
  using assms
proof (induction rule: client_thread_step.induct)
  case (begin_send g seq st to_uid msg)
  have seq: "seq = next_seq (statics g)" "st = (statics g)\<lparr>next_seq := next_seq (statics g) + 1\<rparr>"
    using begin_send(1) by (auto simp: take_seq_def split: if_splits)
  let ?S = "set (map fst (starting g) @ map made_seq (made_requests g))"
  have range: "2 + issued g < 2 ^ 64" using begin_send(3) by (simp add: in_range_def)
  have "seq = word_of_nat (2 + issued g)" using begin_send(2) seq(1) by (simp add: numbers_inv_def)
  moreover have "\<forall>s \<in> ?S. unat s < 2 + issued g" using begin_send(2) by (simp add: numbers_inv_def)
  ultimately have "seq \<notin> ?S" "unat seq = 2 + issued g"
    using fresh_number [of ?S "2 + issued g"] unat_of_nat_u64 [of "2 + issued g"] range by auto
  then show ?case using begin_send(2) seq by (auto simp: numbers_inv_def less_Suc_eq)
next
  case (register g xs seq to_uid msg ys e st c)
  note f = register_request_fields [OF register(2)]
  have range: "1 + numbered g < 2 ^ 64" using register(4) by (simp add: in_range_def)
  let ?no = "next_client_msg_no (statics g)"
  have no: "?no = word_of_nat (1 + numbered g)" using register(3) by (simp add: numbers_inv_def)
  have "\<forall>s \<in> set (map made_no (made_requests g)). unat s < 1 + numbered g" using register(3) by (auto simp: numbers_inv_def)
  then have "?no \<notin> set (map made_no (made_requests g))" "unat ?no = 1 + numbered g"
    using fresh_number [of "set (map made_no (made_requests g))" "1 + numbered g"] unat_of_nat_u64 [of "1 + numbered g"] range no
    by auto
  moreover have "well_made \<lparr>made_seq = seq, made_no = ?no, made_env = e\<rparr>"
    unfolding well_made_def f(1) by (simp only: made.select_convs) blast
  ultimately show ?case using register(1,3) f(2) by (auto simp: numbers_inv_def less_Suc_eq)
next
  case (other_seq g)
  then show ?case by (auto simp: numbers_inv_def in_range_def less_Suc_eq)
next
  case (other_no g)
  then show ?case by (auto simp: numbers_inv_def in_range_def less_Suc_eq)
qed (erule numbers_inv_frame, simp add: numbers_of_def)+

lemma in_range_step: "client_thread_step p g g' \<Longrightarrow> in_range g' \<Longrightarrow> in_range g"
  by (induction rule: client_thread_step.induct) (simp_all add: in_range_def)

lemma reachable_numbers: "client_reachable p g \<Longrightarrow> in_range g \<Longrightarrow> numbers_inv g"
  by (induction rule: client_reachable.induct) (auto intro: numbers_inv_init numbers_step in_range_step)

section \<open>The number of transmissions\<close>

definition made_in :: "ClientRun \<Rightarrow> u64 \<Rightarrow> Envelope \<Rightarrow> bool" where
  "made_in g s e \<longleftrightarrow> (\<exists>m \<in> set (made_requests g). made_seq m = s \<and> made_env m = e)"

abbreviation pending_of :: "ClientRun \<Rightarrow> (u64 \<times> PendingAck) list" where
  "pending_of g \<equiv> pending_acks (client g)"

text \<open>How often a request was sent or is about to be, and how often that may be.\<close>

definition spent :: "ClientRun \<Rightarrow> u64 \<Rightarrow> Envelope \<Rightarrow> nat" where
  "spent g s e = count_list (transmitted g) e + count_list (retry_messages g) e + (if s \<in> fst ` set (senders g) then 1 else 0)"

definition allowance :: "ClientRun \<Rightarrow> u64 \<Rightarrow> nat" where
  "allowance g s = (case map_of (pending_of g) s of None \<Rightarrow> 6 | Some pa \<Rightarrow> 1 + nat (pa_retry_count pa))"

definition budget_inv :: "ClientRun \<Rightarrow> bool" where
  "budget_inv g \<longleftrightarrow> distinct (map fst (pending_of g)) \<and> distinct (map fst (senders g)) \<and>
     (\<forall>(s, e) \<in> set (senders g). made_in g s e) \<and>
     (\<forall>s pa. map_of (pending_of g) s = Some pa \<longrightarrow> made_in g s (pa_envelope pa) \<and> 0 \<le> pa_retry_count pa \<and> pa_retry_count pa \<le> 5) \<and>
     (\<forall>e \<in> set (transmitted g) \<union> set (retry_messages g). \<exists>s. made_in g s e) \<and>
     (scan_time g \<noteq> None \<longrightarrow> retry_messages g = []) \<and>
     (\<forall>s e. made_in g s e \<longrightarrow> spent g s e \<le> allowance g s)"

lemma budget_invD:
  assumes "budget_inv g"
  shows "distinct (map fst (pending_of g))" "distinct (map fst (senders g))"
    "(s, e) \<in> set (senders g) \<Longrightarrow> made_in g s e"
    "map_of (pending_of g) s = Some pa \<Longrightarrow> made_in g s (pa_envelope pa) \<and> 0 \<le> pa_retry_count pa \<and> pa_retry_count pa \<le> 5"
    "e \<in> set (transmitted g) \<union> set (retry_messages g) \<Longrightarrow> \<exists>s. made_in g s e"
    "scan_time g \<noteq> None \<Longrightarrow> retry_messages g = []"
    "made_in g s e \<Longrightarrow> spent g s e \<le> allowance g s"
  using assms by (auto simp: budget_inv_def)

lemma budget_invI:
  assumes "distinct (map fst (pending_of g))" "distinct (map fst (senders g))"
    "\<And>s e. (s, e) \<in> set (senders g) \<Longrightarrow> made_in g s e"
    "\<And>s pa. map_of (pending_of g) s = Some pa \<Longrightarrow> made_in g s (pa_envelope pa) \<and> 0 \<le> pa_retry_count pa \<and> pa_retry_count pa \<le> 5"
    "\<And>e. e \<in> set (transmitted g) \<union> set (retry_messages g) \<Longrightarrow> \<exists>s. made_in g s e"
    "scan_time g \<noteq> None \<Longrightarrow> retry_messages g = []"
    "\<And>s e. made_in g s e \<Longrightarrow> spent g s e \<le> allowance g s"
  shows "budget_inv g"
  using assms by (auto simp: budget_inv_def)

lemma made_in_seq: "numbers_inv g \<Longrightarrow> made_in g s e \<Longrightarrow> env_seq e = s"
  by (fastforce simp: numbers_inv_def made_in_def well_made_def CreateChatRequest_def)

lemma made_in_unique:
  assumes "numbers_inv g" "made_in g s e" "made_in g s e'"
  shows "e = e'"
proof -
  have "inj_on made_seq (set (made_requests g))" using assms(1) by (simp add: numbers_inv_def distinct_map)
  then show ?thesis using assms(2,3) by (auto simp: made_in_def dest: inj_onD)
qed

lemma allowance_le: "budget_inv g \<Longrightarrow> allowance g s \<le> 6"
  using budget_invD(4) [of g s] by (fastforce simp: allowance_def split: option.split)

text \<open>Steps that at most drop entries of the table.\<close>

lemma budget_shrink:
  assumes inv: "budget_inv g" and keys: "distinct (map fst (pending_of g'))"
    and sub: "\<And>s. map_of (pending_of g') s = None \<or> map_of (pending_of g') s = map_of (pending_of g) s"
    and same: "senders g' = senders g" "transmitted g' = transmitted g" "retry_messages g' = retry_messages g"
      "made_requests g' = made_requests g" "scan_time g' \<noteq> None \<Longrightarrow> retry_messages g = []"
  shows "budget_inv g'"
proof -
  have m: "made_in g' = made_in g" using same(4) by (simp add: made_in_def fun_eq_iff)
  have more: "allowance g s \<le> allowance g' s" for s
    using sub [of s] allowance_le [OF inv, of s] by (auto simp: allowance_def split: option.splits)
  have "spent g' s e \<le> allowance g' s" if "made_in g s e" for s e
  proof -
    have "spent g' s e = spent g s e" using same by (simp add: spent_def)
    then show ?thesis using budget_invD(7) [OF inv that] more [of s] by simp
  qed
  moreover have "made_in g s (pa_envelope pa) \<and> 0 \<le> pa_retry_count pa \<and> pa_retry_count pa \<le> 5"
    if "map_of (pending_of g') s = Some pa" for s pa
    using that sub [of s] budget_invD(4) [OF inv, of s pa] by auto
  ultimately show ?thesis using inv keys same m by (auto simp: budget_inv_def)
qed

lemma delete_shrinks:
  "map_of (AList.delete k table) s = None \<or> map_of (AList.delete k table) s = map_of table s"
  by (simp add: AList.delete_conv)

lemma client_sendEnvelope_pending: "pending_acks (snd (client_sendEnvelope p e c)) = pending_acks c"
  by (simp add: client_sendEnvelope_def sendAll_def Let_def split: prod.split)


lemma failPendingLogin_pending [simp]: "pending_acks (failPendingLogin reason c) = pending_acks c"
  by (simp add: failPendingLogin_def)

lemma begin_handle_pending: "pending_acks (snd (begin_handle e c)) = pending_acks c"
  by (simp add: begin_handle_def split: MessageType.split Payload.split)

lemma run_section_pending:
  "pending_acks (snd (run_section p h c)) = pending_acks c \<or> (\<exists>k. pending_acks (snd (run_section p h c)) = AList.delete k (pending_acks c))"
  by (cases h) (auto simp: drop_request_def pushMessage_def nowMs_def client_sendEnvelope_pending split: Payload.split)

lemma rehash_map_of: "distinct (map fst xs) \<Longrightarrow> mset ys = mset xs \<Longrightarrow> distinct (map fst ys) \<and> map_of ys = map_of xs"
proof -
  assume d: "distinct (map fst xs)" and m: "mset ys = mset xs"
  have "mset (map fst ys) = mset (map fst xs)" using m by (metis mset_map)
  then have d': "distinct (map fst ys)" using d mset_eq_imp_distinct_iff by blast
  moreover have "map_of ys = map_of xs" using map_of_inject_set [OF d' d] mset_eq_setD [OF m] by blast
  ultimately show ?thesis ..
qed


lemma budget_register:
  assumes nums: "numbers_inv g" and inv: "budget_inv g" and st: "starting g = xs @ (seq, to_uid, msg) # ys"
    and reg: "register_request seq to_uid msg (statics g) (client g) = (e, st', c)"
    and g': "g' = g\<lparr>client := c, statics := st', starting := xs @ ys, senders := senders g @ [(seq, e)],
      made_requests := made_requests g @ [\<lparr>made_seq = seq, made_no = no, made_env = e\<rparr>], numbered := n\<rparr>"
  shows "budget_inv g'"
proof -
  note f = register_request_fields [OF reg]
  have made: "made_in g' s e' \<longleftrightarrow> made_in g s e' \<or> s = seq \<and> e' = e" for s e'
    by (auto simp: made_in_def g')
  have "seq \<notin> made_seq ` set (made_requests g)" using nums st by (auto simp: numbers_inv_def)
  then have new: "\<not> made_in g seq e'" for e' by (auto simp: made_in_def)
  have seq: "env_seq e = seq" by (simp add: f(1) CreateChatRequest_def)
  have unsent: "e \<notin> set (transmitted g)" "e \<notin> set (retry_messages g)" "seq \<notin> fst ` set (senders g)"
    using budget_invD(5) [OF inv, of e] budget_invD(3) [OF inv] made_in_seq [OF nums] seq new by fastforce+
  have pend: "map_of (pending_of g') = (map_of (pending_of g))(seq \<mapsto>
      \<lparr>pa_envelope = e, last_send_ms = c_clock (client g) (Suc (Suc (c_ticks (client g)))), pa_retry_count = 0\<rparr>)"
    by (simp add: g' f(3) AList.update_conv')
  have keys: "distinct (map fst (pending_of g'))"
    using budget_invD(1) [OF inv] by (simp add: g' f(3) AList.distinct_update)
  have cost: "spent g' s e' = (if s = seq then count_list (transmitted g) e' + count_list (retry_messages g) e' + 1 else spent g s e')"
    for s e' by (simp add: spent_def g')
  have within: "spent g' s e' \<le> allowance g' s" if "made_in g' s e'" for s e'
  proof (cases "s = seq")
    case True
    then show ?thesis using that made new unsent cost pend by (auto simp: allowance_def)
  next
    case False
    then show ?thesis using that made cost pend budget_invD(7) [OF inv, of s e'] by (auto simp: allowance_def)
  qed
  show ?thesis
  proof (rule budget_invI [OF keys])
    show "distinct (map fst (senders g'))" using unsent(3) budget_invD(2) [OF inv] by (simp add: g')
    show "made_in g' s e'" if "(s, e') \<in> set (senders g')" for s e'
      using that budget_invD(3) [OF inv, of s e'] made by (auto simp: g')
    show "made_in g' s (pa_envelope pa) \<and> 0 \<le> pa_retry_count pa \<and> pa_retry_count pa \<le> 5"
      if "map_of (pending_of g') s = Some pa" for s pa
      using that budget_invD(4) [OF inv, of s pa] made unfolding pend by (auto split: if_splits)
    show "\<exists>s. made_in g' s e'" if "e' \<in> set (transmitted g') \<union> set (retry_messages g')" for e'
      using that budget_invD(5) [OF inv, of e'] made by (auto simp: g')
    show "retry_messages g' = []" if "scan_time g' \<noteq> None" using that budget_invD(6) [OF inv] by (simp add: g')
  qed (rule within)
qed

lemma budget_transmit:
  assumes nums: "numbers_inv g" and inv: "budget_inv g" and s: "senders g = xs @ (seq, e) # ys"
  shows "budget_inv (g\<lparr>senders := xs @ ys, transmitted := transmitted g @ [e]\<rparr>)" (is "budget_inv ?g")
proof -
  have made: "made_in ?g = made_in g" "made_in g seq e" using budget_invD(3) [OF inv] s by (auto simp: made_in_def fun_eq_iff)
  have "seq \<notin> fst ` set (xs @ ys)" using budget_invD(2) [OF inv] s by auto
  moreover have "e' = e \<longleftrightarrow> s' = seq" if "made_in g s' e'" for s' e'
    using made(2) that made_in_seq [OF nums] made_in_unique [OF nums] by metis
  ultimately have "spent ?g s' e' = spent g s' e'" if "made_in g s' e'" for s' e'
    using s that by (auto simp: spent_def)
  moreover have "allowance ?g = allowance g" by (simp add: allowance_def fun_eq_iff)
  ultimately have "spent ?g s' e' \<le> allowance ?g s'" if "made_in g s' e'" for s' e'
    using that budget_invD(7) [OF inv that] by simp
  then show ?thesis
  proof (intro budget_invI, unfold made)
    show "distinct (map fst (senders ?g))" using budget_invD(2) [OF inv] s by auto
    show "made_in g s' e'" if "(s', e') \<in> set (senders ?g)" for s' e' using that budget_invD(3) [OF inv, of s' e'] s by auto
    show "\<exists>s. made_in g s e'" if "e' \<in> set (transmitted ?g) \<union> set (retry_messages ?g)" for e'
      using that budget_invD(5) [OF inv, of e'] made(2) by auto
  qed (use budget_invD [OF inv] in simp_all)
qed

lemma filter_key:
  "distinct (map fst xs) \<Longrightarrow>
    length (filter (\<lambda>x. fst x = s \<and> P (snd x)) xs) = (case map_of xs s of None \<Rightarrow> 0 | Some v \<Rightarrow> if P v then 1 else 0)"
proof (induction xs)
  case (Cons x xs)
  then have "fst x = s \<Longrightarrow> map_of xs s = None" by (auto simp: map_of_eq_None_iff)
  then show ?case using Cons by (cases x) auto
qed simp

lemma scan_count:
  assumes nums: "numbers_inv g" and inv: "budget_inv g" and made: "made_in g s e"
  shows "count_list (snd (retry_scan now (pending_of g))) e =
    (case map_of (pending_of g) s of None \<Rightarrow> 0 | Some pa \<Rightarrow> if resent now pa then 1 else 0)"
proof -
  have "pa_envelope (snd x) = e \<longleftrightarrow> fst x = s" if "x \<in> set (pending_of g)" for x
  proof -
    have "map_of (pending_of g) (fst x) = Some (snd x)" using that budget_invD(1) [OF inv] by simp
    then have m: "made_in g (fst x) (pa_envelope (snd x))" using budget_invD(4) [OF inv] by blast
    show ?thesis using m made made_in_seq [OF nums] made_in_unique [OF nums, of s] by metis
  qed
  then have "filter (\<lambda>x. pa_envelope (snd x) = e \<and> resent now (snd x)) (pending_of g) =
      filter (\<lambda>x. fst x = s \<and> resent now (snd x)) (pending_of g)"
    by (intro filter_cong) auto
  then show ?thesis
    using filter_key [OF budget_invD(1) [OF inv], of s "resent now"]
    by (simp add: retry_scan_out count_list_eq_length_filter filter_map comp_def conj_commute eq_commute)
qed

lemma budget_scan:
  assumes nums: "numbers_inv g" and inv: "budget_inv g" and t: "scan_time g = Some now"
    and scan: "retry_scan now (pending_of g) = (table, out)"
  shows "budget_inv (g\<lparr>client := (client g)\<lparr>pending_acks := table\<rparr>, scan_time := None, retry_messages := out\<rparr>)" (is "budget_inv ?g")
proof -
  have made: "made_in ?g = made_in g" by (simp add: made_in_def fun_eq_iff)
  have none: "retry_messages g = []" using budget_invD(6) [OF inv] t by simp
  have look: "map_of table s = Option.bind (map_of (pending_of g) s) (retried now)" for s
    using retry_scan_lookup [OF budget_invD(1) [OF inv], of now s] scan by simp
  have entries: "made_in g s (pa_envelope pa) \<and> 0 \<le> pa_retry_count pa \<and> pa_retry_count pa \<le> 5" if "map_of table s = Some pa" for s pa
    using that look [of s] budget_invD(4) [OF inv, of s]
    by (auto simp: retried_def kMaxRetryCount_def bind_eq_Some_conv split: if_splits)
  have "spent ?g s e \<le> allowance ?g s" if m: "made_in g s e" for s e
  proof -
    have c: "count_list out e = (case map_of (pending_of g) s of None \<Rightarrow> 0 | Some pa \<Rightarrow> if resent now pa then 1 else 0)"
      using scan_count [OF nums inv m, of now] scan by simp
    have "spent ?g s e = spent g s e + count_list out e" using none by (simp add: spent_def)
    then show ?thesis
      using budget_invD(7) [OF inv m] budget_invD(4) [OF inv, of s] look [of s] c
      by (auto simp: allowance_def retried_def resent_def kMaxRetryCount_def split: option.splits if_splits)
  qed
  moreover have "\<exists>s. made_in g s e" if "e \<in> set out" for e
  proof -
    have "e \<in> pa_envelope ` snd ` set (pending_of g)" using that retry_scan_out [of now "pending_of g"] scan by auto
    then obtain x where "x \<in> set (pending_of g)" "e = pa_envelope (snd x)" by auto
    then have "map_of (pending_of g) (fst x) = Some (snd x)" using budget_invD(1) [OF inv] by simp
    then show ?thesis using budget_invD(4) [OF inv] \<open>e = _\<close> by blast
  qed
  moreover have "distinct (map fst table)"
    using retry_scan_distinct [OF budget_invD(1) [OF inv], of now] scan by simp
  ultimately show ?thesis
    using budget_invD(2,3,5) [OF inv] entries by (intro budget_invI, unfold made) auto
qed

lemma budget_resend:
  assumes inv: "budget_inv g" and r: "retry_messages g = e # es" "resend_next p (e # es) (client g) = (es', c)"
  shows "budget_inv (g\<lparr>client := c, retry_messages := es', transmitted := transmitted g @ (if c_stop (client g) then [] else [e])\<rparr>)"
    (is "budget_inv ?g")
proof -
  have es: "es' = [] \<or> es' = es" "pending_acks c = pending_of g" "c_stop (client g) \<Longrightarrow> es' = []"
    using r(2) client_sendEnvelope_pending [of p e "client g"] by (auto split: if_splits prod.splits bool.splits)
  have made: "made_in ?g = made_in g" by (simp add: made_in_def fun_eq_iff)
  have "scan_time g = None" using budget_invD(6) [OF inv] r(1) by fastforce
  moreover have "spent ?g s e' \<le> spent g s e'" "allowance ?g s = allowance g s" for s e'
    using es r(1) by (auto simp: spent_def allowance_def)
  then have "spent ?g s e' \<le> allowance ?g s" if "made_in g s e'" for s e'
    using budget_invD(7) [OF inv that] order_trans by metis
  moreover have "\<exists>s. made_in g s e'" if "e' \<in> set (transmitted ?g) \<union> set (retry_messages ?g)" for e'
    using that budget_invD(5) [OF inv, of e'] es(1) r(1) by (auto split: if_splits)
  ultimately show ?thesis
    using budget_invD(1-4) [OF inv] es(2) by (intro budget_invI, unfold made) simp_all
qed


lemma budget_same:
  assumes "budget_inv g" "pending_of g' = pending_of g" "senders g' = senders g" "transmitted g' = transmitted g"
    "retry_messages g' = retry_messages g" "made_requests g' = made_requests g" "scan_time g' = scan_time g \<or> retry_messages g = []"
  shows "budget_inv g'"
  by (rule budget_shrink [OF assms(1)]) (use assms budget_invD(1,6) [OF assms(1)] in auto)

lemma budget_delete:
  assumes inv: "budget_inv g" and pend: "pending_of g' = pending_of g \<or> (\<exists>k. pending_of g' = AList.delete k (pending_of g))"
    and same: "senders g' = senders g" "transmitted g' = transmitted g" "retry_messages g' = retry_messages g"
      "made_requests g' = made_requests g" "scan_time g' = scan_time g"
  shows "budget_inv g'"
proof -
  have "distinct (map fst (pending_of g'))" using pend budget_invD(1) [OF inv] by (auto simp: AList.distinct_delete)
  moreover have "map_of (pending_of g') s = None \<or> map_of (pending_of g') s = map_of (pending_of g) s" for s
    using pend delete_shrinks by metis
  ultimately show ?thesis by (rule budget_shrink [OF inv _ _ same(1-4)]) (use budget_invD(6) [OF inv] same(5) in simp)
qed


lemma budget_step:
  assumes "client_thread_step p g g'" "numbers_inv g" "budget_inv g"
  shows "budget_inv g'"
  using assms
proof (induction rule: client_thread_step.induct)
  case (register g xs seq to_uid msg ys e st c)
  show ?case by (rule budget_register [OF register(3,4,1,2) refl])
next
  case (transmit g xs seq e ys ok c)
  have "budget_inv (g\<lparr>senders := xs @ ys, transmitted := transmitted g @ [e]\<rparr>)"
    by (rule budget_transmit [OF transmit(3,4,1)])
  then show ?case by (rule budget_delete) (use client_sendEnvelope_pending [of p e "client g"] transmit(2) in simp_all)
next
  case (abandon g xs seq ys)
  show ?case by (rule budget_delete [OF abandon(3)]) (auto simp: drop_request_def)
next
  case (handle g e es h c)
  show ?case by (rule budget_delete [OF handle(5)]) (use begin_handle_pending [of e "client g"] handle(3) in simp_all)
next
  case (go_on g h h' c)
  show ?case by (rule budget_delete [OF go_on(4)]) (use run_section_pending [of p h "client g"] go_on(2) in simp_all)
next
  case (scan g now table out)
  then show ?case by (intro budget_scan)
next
  case (resend g e es es' c)
  show ?case by (rule budget_resend [OF resend(4,1,2)])
next
  case (rehash table g)
  show ?case
    by (rule budget_shrink [OF rehash(3)])
      (use rehash_map_of [OF budget_invD(1) [OF rehash(3)] rehash(1)] budget_invD(6) [OF rehash(3)] in simp_all)
next
  case (scan_clock g now c)
  show ?case by (rule budget_same [OF scan_clock(6)]) (use scan_clock in \<open>auto simp: nowMs_def\<close>)
qed (rule budget_same, assumption, simp, simp, simp, simp, simp, simp)+

lemma budget_init: "pending_acks c = [] \<Longrightarrow> budget_inv (new_run c)"
  by (simp add: budget_inv_def new_run_def made_in_def)

lemma reachable_budget: "client_reachable p g \<Longrightarrow> in_range g \<Longrightarrow> budget_inv g"
proof (induction rule: client_reachable.induct)
  case (step g g')
  then show ?case using in_range_step reachable_numbers budget_step by blast
qed (rule budget_init)


section \<open>Properties of the threads\<close>

text \<open>
  C8: however the threads interleave, a chat request is handed to the socket at most six times: once by
  \<^verbatim>\<open>sendMessage\<close> and at most five times by the retry thread.  While it awaits its acknowledgement the table holds
  the request itself, with a counter of at most five that bounds the transmissions so far.
\<close>

theorem retry_bounded:
  assumes "client_reachable p g" "2 + issued g < 2 ^ 64" "1 + numbered g < 2 ^ 64" "m \<in> set (made_requests g)"
  shows "count_list (transmitted g) (made_env m) \<le> 1 + nat kMaxRetryCount \<and>
    (\<forall>pa. map_of (pending_acks (client g)) (made_seq m) = Some pa \<longrightarrow> pa_envelope pa = made_env m \<and>
       pa_retry_count pa \<le> kMaxRetryCount \<and> count_list (transmitted g) (made_env m) \<le> 1 + nat (pa_retry_count pa))"
proof -
  have range: "in_range g" using assms(2,3) by (simp add: in_range_def)
  have nums: "numbers_inv g" and inv: "budget_inv g"
    by (rule reachable_numbers [OF assms(1) range], rule reachable_budget [OF assms(1) range])
  have made: "made_in g (made_seq m) (made_env m)" using assms(4) by (auto simp: made_in_def)
  have sent: "count_list (transmitted g) (made_env m) \<le> allowance g (made_seq m)"
    using budget_invD(7) [OF inv made] by (simp add: spent_def)
  then have "count_list (transmitted g) (made_env m) \<le> 6" using allowance_le [OF inv, of "made_seq m"] by simp
  moreover have "pa_envelope pa = made_env m \<and> pa_retry_count pa \<le> 5 \<and> count_list (transmitted g) (made_env m) \<le> 1 + nat (pa_retry_count pa)"
    if "map_of (pending_acks (client g)) (made_seq m) = Some pa" for pa
    using that sent budget_invD(4) [OF inv that] made_in_unique [OF nums _ made] by (auto simp: allowance_def)
  ultimately show ?thesis by (simp add: kMaxRetryCount_def)
qed

text \<open>A request in progress: registered and not yet sent.\<close>

lemma demo_request:
  obtains g where "client_reachable p g" "2 + issued g < 2 ^ 64" "1 + numbered g < 2 ^ 64"
    "made_requests g = [\<lparr>made_seq = 2, made_no = 1, made_env = CreateChatRequest 1000 2 1 3 ''hi'' ''1-1000-1''\<rparr>]"
proof -
  let ?g0 = "new_run demo_client" and ?st = "\<lparr>next_seq = 3, next_client_msg_no = 1\<rparr>"
  let ?g1 = "?g0\<lparr>statics := ?st, starting := starting ?g0 @ [(2, 3, ''hi'')], issued := Suc (issued ?g0)\<rparr>"
  have t: "take_seq (client ?g0) (statics ?g0) = Some (2, ?st)"
    by (simp add: take_seq_def new_run_def new_ClientStatics_def)
  have r0: "client_reachable p ?g0" by (rule client_reachable.init) simp
  have r1: "client_reachable p ?g1" by (rule client_reachable.step [OF r0 client_thread_step.begin_send [OF t]])
  obtain e st c where r: "register_request 2 3 ''hi'' ?st demo_client = (e, st, c)" by (meson prod_cases3)
  have "to_string 1 = ''1''" "to_string 1000 = ''1000''" by code_simp+
  then have e: "e = CreateChatRequest 1000 2 1 3 ''hi'' ''1-1000-1''"
    using register_request_fields(1) [OF r] by (simp add: make_client_msg_id_def)
  let ?g2 = "?g1\<lparr>client := c, statics := st, starting := [], senders := senders ?g1 @ [(2, e)],
    made_requests := made_requests ?g1 @ [\<lparr>made_seq = 2, made_no = next_client_msg_no (statics ?g1), made_env = e\<rparr>],
    numbered := Suc (numbered ?g1)\<rparr>"
  have "client_thread_step p ?g1 ?g2"
    using client_thread_step.register [of ?g1 "[]" 2 3 "''hi''" "[]" e st c p] r by (simp add: new_run_def)
  from client_reachable.step [OF r1 this] show thesis
    by (rule that) (simp_all add: new_run_def e)
qed

theorem retry_bounded_witness:
  "\<exists>g. client_reachable demo_platform g \<and> made_requests g \<noteq> [] \<and>
     count_list (transmitted g) (CreateChatRequest 1000 2 1 3 ''hi'' ''1-1000-1'') \<le> 6"
proof -
  obtain g where g: "client_reachable demo_platform g" "2 + issued g < 2 ^ 64" "1 + numbered g < 2 ^ 64"
    and m: "made_requests g = [\<lparr>made_seq = 2, made_no = 1, made_env = CreateChatRequest 1000 2 1 3 ''hi'' ''1-1000-1''\<rparr>]"
    by (rule demo_request)
  from retry_bounded [OF g, of "hd (made_requests g)"] g(1) m show ?thesis
    by (intro exI [of _ g]) (simp add: kMaxRetryCount_def)
qed

lemma after_last_separator: "d \<notin> set ys \<Longrightarrow> d \<notin> set ys' \<Longrightarrow> xs @ d # ys = xs' @ d # ys' \<Longrightarrow> ys = ys'"
proof -
  assume d: "d \<notin> set ys" "d \<notin> set ys'" and eq: "xs @ d # ys = xs' @ d # ys'"
  have "takeWhile (\<lambda>x. x \<noteq> d) (rev (us @ d # vs)) = rev vs" if "d \<notin> set vs" for us vs
    using that by (auto simp: takeWhile_tail)
  from this [OF d(1), of xs] this [OF d(2), of xs'] show "ys = ys'" using eq by simp
qed

lemma make_client_msg_id_no:
  assumes "make_client_msg_id uid now no = make_client_msg_id uid' now' no'"
  shows "no = no'"
proof -
  have "CHR ''-'' \<notin> set (to_string w)" for w using to_string_digits [of "CHR ''-''" w] by (auto simp: is_digit_def)
  then have "to_string no = to_string no'"
    using after_last_separator [of "CHR ''-''" "to_string no" "to_string no'" "to_string uid @ ''-'' @ to_string now"
        "to_string uid' @ ''-'' @ to_string now'"] assms
    by (simp add: make_client_msg_id_def)
  then show ?thesis by simp
qed

definition request_id :: "Envelope \<Rightarrow> string" where
  "request_id e = (case env_payload e of kChatReq r \<Rightarrow> req_client_msg_id r | _ \<Rightarrow> [])"

text \<open>
  C26: the requests of a client have pairwise different sequence numbers and pairwise different client
  message identifiers, and whatever \<^verbatim>\<open>sendMessage\<close> and the retry thread transmit is one of these requests as it was
  built.  So a retransmission repeats the identifier of its request, and no two requests share one.
\<close>

theorem client_ids_unique:
  assumes "client_reachable p g" "2 + issued g < 2 ^ 64" "1 + numbered g < 2 ^ 64"
  shows "distinct (map (env_seq \<circ> made_env) (made_requests g)) \<and> distinct (map (request_id \<circ> made_env) (made_requests g)) \<and>
    set (transmitted g) \<subseteq> made_env ` set (made_requests g)"
proof -
  have range: "in_range g" using assms(2,3) by (simp add: in_range_def)
  have nums: "numbers_inv g" and inv: "budget_inv g"
    by (rule reachable_numbers [OF assms(1) range], rule reachable_budget [OF assms(1) range])
  have made: "well_made m" if "m \<in> set (made_requests g)" for m using nums that by (simp add: numbers_inv_def)
  have seq: "env_seq (made_env m) = made_seq m" if "m \<in> set (made_requests g)" for m
    using made [OF that] by (auto simp: well_made_def CreateChatRequest_def)
  have no: "made_no m = made_no m'"
    if "m \<in> set (made_requests g)" "m' \<in> set (made_requests g)" "request_id (made_env m) = request_id (made_env m')" for m m'
    using made [OF that(1)] made [OF that(2)] that(3)
    by (auto simp: well_made_def request_id_def CreateChatRequest_def dest: make_client_msg_id_no)
  have "map (env_seq \<circ> made_env) (made_requests g) = map made_seq (made_requests g)" using seq by simp
  then have "distinct (map (env_seq \<circ> made_env) (made_requests g))" using nums unfolding numbers_inv_def distinct_append by metis
  moreover have "distinct (made_requests g)" using nums by (simp add: numbers_inv_def distinct_map)
  moreover have "set (transmitted g) \<subseteq> made_env ` set (made_requests g)"
    using budget_invD(5) [OF inv] by (force simp: made_in_def)
  moreover have "inj_on (request_id \<circ> made_env) (set (made_requests g))"
  proof (rule inj_onI)
    fix m m' assume "m \<in> set (made_requests g)" "m' \<in> set (made_requests g)" "(request_id \<circ> made_env) m = (request_id \<circ> made_env) m'"
    moreover from this have "made_no m = made_no m'" by (intro no) simp_all
    moreover have "inj_on made_no (set (made_requests g))" using nums by (simp add: numbers_inv_def distinct_map)
    ultimately show "m = m'" by (meson inj_onD)
  qed
  ultimately show ?thesis by (metis distinct_map)
qed

theorem client_ids_unique_witness:
  "\<exists>g. client_reachable demo_platform g \<and> made_requests g \<noteq> [] \<and> distinct (map (request_id \<circ> made_env) (made_requests g))"
proof -
  obtain g where g: "client_reachable demo_platform g" "2 + issued g < 2 ^ 64" "1 + numbered g < 2 ^ 64"
    and "made_requests g = [\<lparr>made_seq = 2, made_no = 1, made_env = CreateChatRequest 1000 2 1 3 ''hi'' ''1-1000-1''\<rparr>]"
    by (rule demo_request)
  then show ?thesis using client_ids_unique [OF g] by (intro exI [of _ g]) simp
qed

end
