(* ===== verification/End_To_End.thy ===== *)
theory End_To_End
  imports Login Chat_Server Client_Threads
begin

text \<open>
  A message on its whole way: from the sender's \<^verbatim>\<open>sendMessage\<close> over the wire into the server, through the store to the
  recipient's client, and the acknowledgements back.
\<close>

section \<open>The pieces\<close>

text \<open>Frames that arrive whole.\<close>

lemma frame_received:
  assumes "protobuf_ok p" "sendable p kDefaultMaxFrameLength e"
  shows "decoded p (Encode p e) = \<lparr>decode_status = kOk, envelopes = [e], consumed_bytes = length (Encode p e)\<rparr>"
  using decoded_frames [OF assms(1), of "[e]"] assms(2) by simp

lemma sendable_frames:
  assumes "sendable p m e"
  shows "frames p c e = [(c, Encode p e)]" "Encode p e \<noteq> []"
proof -
  obtain b where "SerializeToString p e = Some b" "length b < 2 ^ 31" using assms by (rule sendableE)
  then show "Encode p e \<noteq> []" by (simp add: Encode_wire_frame)
  then show "frames p c e = [(c, Encode p e)]" by (simp add: frames_def)
qed

lemma receiver_frame:
  assumes "protobuf_ok p" "sendable p kDefaultMaxFrameLength e" "\<not> c_stop c"
  shows "snd (receiver_loop p [RecvBytes (Encode p e)] [] c) = handleEnvelope p e c"
  using assms frame_received [OF assms(1,2)] by (simp add: receive_once_def receive_decoded broken_def Let_def)

lemma send_whole_frame:
  assumes "\<forall>k n. net c k n = int n" "Encode p e \<noteq> []"
  shows "client_sendEnvelope p e c = (True, c\<lparr>sends := Suc (sends c), wire := wire c @ Encode p e\<rparr>)"
  using assms by (simp add: client_sendEnvelope_def sendAll_def send_loop.simps)

text \<open>What \<^verbatim>\<open>sendMessage\<close> leaves when it succeeds.\<close>

lemma sendMessage_result:
  assumes "posix_send (net c)" "sendMessage p dst msg st c = (True, st', c')"
  obtains t t' where "t \<in> range (c_clock c)" "t' \<in> range (c_clock c)" "\<not> c_stop c'"
    "wire c' = wire c @ Encode p (CreateChatRequest t (next_seq st) (c_uid c) dst msg
       (make_client_msg_id (c_uid c) t' (next_client_msg_no st)))"
proof -
  have go: "\<not> c_stop c" "login_ok c" using assms(2) by (auto simp: sendMessage_def take_seq_def split: if_splits)
  let ?st = "st\<lparr>next_seq := next_seq st + 1\<rparr>"
  obtain e st2 c2 where r: "register_request (next_seq st) dst msg ?st c = (e, st2, c2)" by (meson prod_cases3)
  have c2: "net c2 = net c" "c_stop c2 = c_stop c" "wire c2 = wire c"
    using r by (auto simp: register_request_def nowMs_def Let_def)
  have "finish_send p (next_seq st) e c2 = (True, c')"
    using assms(2) go r by (auto simp: sendMessage_def take_seq_def split: prod.splits)
  then have s: "client_sendEnvelope p e c2 = (True, c')" by (auto simp: finish_send_def split: prod.splits bool.splits)
  have "posix_send (net c2)" using assms(1) c2(1) by simp
  from client_sendEnvelope_prefix [OF this s] obtain k where "c' = c2\<lparr>sends := sends c2 + k, wire := wire c2 @ Encode p e\<rparr>"
    by auto
  then have "\<not> c_stop c'" "wire c' = wire c @ Encode p e" using c2 go by simp_all
  with register_request_fields(1) [OF r] show thesis
    by (intro that [of "c_clock c (Suc (c_ticks c))" "c_clock c (c_ticks c)"]) simp_all
qed

context redis_server
begin

lemma chat_online:
  assumes ok: "store_ok w L" and n: "next_id L + 1 < 10 ^ 14" and links: "\<forall>k. link_of w k = Answered"
    and env: "env_type env = CHAT_REQ" "env_payload env = kChatReq req"
    and login: "getUidByConn (users w) conn = req_from_uid req" "req_from_uid req \<noteq> 0"
    and new: "idem L (req_from_uid req, req_client_msg_id req) = None" and on: "online w (req_to_uid req)"
    and i: "i = word_of_nat (next_id L + 1)"
  shows "\<exists>w' L' r a b t. run call (handle p (chat_event conn env)) w = ((), w') \<and> same_env w w' \<and> store_ok w' L' \<and>
    msgs L' i = Some r \<and> from_uid r = req_from_uid req \<and> to_uid r = req_to_uid req \<and> content r = req_content req \<and>
    a \<in> range (clock w) \<and> b \<in> range (clock w) \<and> t \<in> range (clock w) \<and>
    outbox w' = outbox w @ frames p (getConnByUid (users w) (req_to_uid req))
      (CreateChatPush a b i i (req_from_uid req) (req_to_uid req) (req_content req) (this_time w) False) @
      frames p conn (CreateAck t (env_seq env) i True [])"
proof -
  let ?r = "new_record i (req_from_uid req) (req_to_uid req) (req_content req) (req_client_msg_id req) (this_time w)"
  let ?to = "req_to_uid req"
  obtain L1 where create: "ledger_create (req_from_uid req) ?to (req_content req) (req_client_msg_id req) (this_time w) L =
      (\<lparr>result_record = ?r, result_created = True, result_ok = True\<rparr>, L1)" "msgs L1 i = Some ?r"
    using new i by (simp add: ledger_create_def Let_def)
  obtain w1 where c: "run call (createMessage (req_from_uid req) ?to (req_content req) (req_client_msg_id req)) w =
      (\<lparr>result_record = ?r, result_created = True, result_ok = True\<rparr>, w1)" and s: "store_step 1 w L1 w1"
    using run_createMessage [OF ok n, of "req_from_uid req" ?to "req_content req" "req_client_msg_id req"] links create(1)
    by (auto simp: after_def)
  note f = store_step_frame [OF s]
  have r: "status ?r = Pending" "to_uid ?r = ?to" "msg_id ?r = i" by (simp_all add: new_record_def)
  have "online w1 ?to" using on same_env_step [OF s] by (simp add: same_env_online)
  then obtain w2 t3 where d: "snd (run call (tryDeliverMessage p ?r) w1) = w2" "same_env w1 w2"
    and w2: "store_ok w2 (snd (ledger_deliver i t3 L1))"
      "outbox w2 = outbox w1 @ frames p (getConnByUid (users w1) ?to) (push_env w1 ?r False)"
    using chat_created [OF f(1) _ r(1), of p] links f(3) create(2) unfolding r(2,3) by auto
  let ?w' = "sent p conn (CreateAck (this_time w2) (env_seq env) i True []) (w2\<lparr>ticks := Suc (ticks w2)\<rparr>)"
  have "run call (handle p (chat_event conn env)) w = ((), ?w')"
    using handle_chat [OF env, of call p conn w] login c d(1) r(3) by (auto split: prod.splits)
  moreover have "same_env w ?w'" using same_env_trans [OF same_env_step [OF s] d(2)] by (simp add: same_env_def)
  moreover have "store_ok ?w' (snd (ledger_deliver i t3 L1))" using w2(1) by simp
  moreover have "msgs (snd (ledger_deliver i t3 L1)) i = Some (?r\<lparr>status := Delivered, delivered_at_ms := t3\<rparr>)"
    using create(2) by (simp add: ledger_deliver_def ledger_update_def)
  moreover have "push_env w1 ?r False = CreateChatPush (this_time w1) (clock w (Suc (ticks w1))) i i (req_from_uid req) ?to
      (req_content req) (this_time w) False"
    using f(4) by (simp add: push_env_def new_record_def)
  moreover have "this_time w1 \<in> range (clock w)" "this_time w2 \<in> range (clock w)"
    using f(4) d(2) by (simp_all add: same_env_def)
  ultimately show ?thesis
    using w2(2) f(6,8)
    by (intro exI [of _ ?w'] exI [of _ "snd (ledger_deliver i t3 L1)"] exI [of _ "?r\<lparr>status := Delivered, delivered_at_ms := t3\<rparr>"]
        exI [of _ "this_time w1"] exI [of _ "clock w (Suc (ticks w1))"] exI [of _ "this_time w2"])
      (simp add: new_record_def)
qed

lemma run_ack:
  assumes ok: "store_ok w L" and link: "this_link w = Answered"
    and login: "getUidByConn (users w) conn = to_uid r" "to_uid r \<noteq> 0" and i: "msgs L i = Some r" "i \<noteq> 0"
    and env: "env = CreateAck t seq i good reason"
  shows "\<exists>w'. run call (handle p (chat_event conn env)) w = ((), w') \<and>
    store_ok w' (L\<lparr>msgs := (msgs L)(i \<mapsto> r\<lparr>status := Acked, acked_at_ms := this_time w\<rparr>)\<rparr>)"
proof -
  obtain b w' where "run call (markAcked i (to_uid r)) w = (b, w')"
    and s: "store_step 1 w (snd (ledger_ack i (to_uid r) (this_time w) L)) w'"
    using run_markAcked [OF ok, of i "to_uid r"] link by (auto simp: after_def)
  then show ?thesis
    using store_step_frame(1) [OF s] login i
    by (auto simp: env handle_def handleAck_def CreateAck_def ledger_ack_def ledger_update_def)
qed

text \<open>The server's part: the request is stored, pushed and acknowledged, and the recipient's acknowledgement settles it.\<close>

lemma server_exchange:
  assumes ok: "store_ok w L" and n: "next_id L + 1 < 10 ^ 14" and links: "\<forall>k. link_of w k = Answered" and inv: "user_inv (users w)"
    and env: "env_type env = CHAT_REQ" "env_payload env = kChatReq req"
    and login: "getUidByConn (users w) conn = req_from_uid req" "req_from_uid req \<noteq> 0"
    and new: "idem L (req_from_uid req, req_client_msg_id req) = None" and on: "online w (req_to_uid req)"
    and i: "i = word_of_nat (next_id L + 1)"
  shows "\<exists>w1 a b u. run call (handle p (chat_event conn env)) w = ((), w1) \<and>
    a \<in> range (clock w) \<and> b \<in> range (clock w) \<and> u \<in> range (clock w) \<and>
    outbox w1 = outbox w @ frames p (getConnByUid (users w) (req_to_uid req))
      (CreateChatPush a b i i (req_from_uid req) (req_to_uid req) (req_content req) (this_time w) False) @
      frames p conn (CreateAck u (env_seq env) i True []) \<and>
    (\<forall>t. \<exists>w2 L2 r. run call (handle p (chat_event (getConnByUid (users w) (req_to_uid req)) (CreateAck t i i True []))) w1 = ((), w2) \<and>
      store_ok w2 L2 \<and> msgs L2 i = Some r \<and> from_uid r = req_from_uid req \<and> to_uid r = req_to_uid req \<and>
      content r = req_content req \<and> status r = Acked)"
proof -
  let ?to = "getConnByUid (users w) (req_to_uid req)"
  obtain w1 L1 r a b u where h: "run call (handle p (chat_event conn env)) w = ((), w1)" "same_env w w1" "store_ok w1 L1"
    and r: "msgs L1 i = Some r" "from_uid r = req_from_uid req" "to_uid r = req_to_uid req" "content r = req_content req"
    and time: "a \<in> range (clock w)" "b \<in> range (clock w)" "u \<in> range (clock w)"
    and out: "outbox w1 = outbox w @ frames p ?to
        (CreateChatPush a b i i (req_from_uid req) (req_to_uid req) (req_content req) (this_time w) False) @
      frames p conn (CreateAck u (env_seq env) i True [])"
    using chat_online [OF ok n links env login new on i, of p] by (elim exE conjE) (rule that)
  have dst: "to_uid r \<noteq> 0" "getUidByConn (users w1) ?to = to_uid r" "i \<noteq> 0"
    using on inv h(2) user_inv_online [OF inv, of "req_to_uid req" ?to] unat_fresh_id [OF n] i r(3)
    by (auto simp: online_def same_env_def getUidByConn_session getConnByUid_def split: option.splits)
  have link: "this_link w1 = Answered" using links h(2) by (simp add: same_env_def)
  let ?q = "r\<lparr>status := Acked, acked_at_ms := this_time w1\<rparr>"
  have "\<exists>w2. run call (handle p (chat_event ?to (CreateAck t i i True []))) w1 = ((), w2) \<and>
      store_ok w2 (L1\<lparr>msgs := (msgs L1)(i \<mapsto> ?q)\<rparr>)" for t
    by (rule run_ack [OF h(3) link dst(2,1) r(1) dst(3) refl])
  moreover have "from_uid ?q = req_from_uid req" "to_uid ?q = req_to_uid req" "content ?q = req_content req" "status ?q = Acked"
    "msgs (L1\<lparr>msgs := (msgs L1)(i \<mapsto> ?q)\<rparr>) i = Some ?q"
    using r by simp_all
  ultimately have "\<forall>t. \<exists>w2 L2 r. run call (handle p (chat_event ?to (CreateAck t i i True []))) w1 = ((), w2) \<and>
      store_ok w2 L2 \<and> msgs L2 i = Some r \<and> from_uid r = req_from_uid req \<and> to_uid r = req_to_uid req \<and>
      content r = req_content req \<and> status r = Acked"
    by blast
  with h(1) time out show ?thesis by blast
qed

end

section \<open>The whole way\<close>

text \<open>
  The envelopes of the exchange fit a frame: the request, the push of message \<open>i\<close>, and the two acknowledgements,
  for the clock readings of the sender, the server and the recipient.
\<close>

definition exchange_fits ::
    "platform \<Rightarrow> u64 \<Rightarrow> ClientStatics \<Rightarrow> Client \<Rightarrow> world \<Rightarrow> Client \<Rightarrow> u64 \<Rightarrow> string \<Rightarrow> bool" where
  "exchange_fits p i st sender w recipient dst msg \<longleftrightarrow>
    (\<forall>t \<in> range (c_clock sender). \<forall>t' \<in> range (c_clock sender). sendable p kDefaultMaxFrameLength (CreateChatRequest t (next_seq st)
       (c_uid sender) dst msg (make_client_msg_id (c_uid sender) t' (next_client_msg_no st)))) \<and>
    (\<forall>t \<in> range (clock w). \<forall>t' \<in> range (clock w). \<forall>t'' \<in> range (clock w). sendable p kDefaultMaxFrameLength
       (CreateChatPush t t' i i (c_uid sender) dst msg t'' False)) \<and>
    (\<forall>t \<in> range (clock w). sendable p kDefaultMaxFrameLength (CreateAck t (next_seq st) i True [])) \<and>
    (\<forall>t \<in> range (c_clock recipient). sendable p kDefaultMaxFrameLength (CreateAck t i i True []))"

lemma exchange_fitsD:
  assumes "exchange_fits p i st sender w recipient dst msg"
  shows "t \<in> range (c_clock sender) \<Longrightarrow> t' \<in> range (c_clock sender) \<Longrightarrow> sendable p kDefaultMaxFrameLength (CreateChatRequest t
      (next_seq st) (c_uid sender) dst msg (make_client_msg_id (c_uid sender) t' (next_client_msg_no st)))"
    "a \<in> range (clock w) \<Longrightarrow> b \<in> range (clock w) \<Longrightarrow> sendable p kDefaultMaxFrameLength
      (CreateChatPush a b i i (c_uid sender) dst msg (clock w k) False)"
    "a \<in> range (clock w) \<Longrightarrow> sendable p kDefaultMaxFrameLength (CreateAck a (next_seq st) i True [])"
    "sendable p kDefaultMaxFrameLength (CreateAck (c_clock recipient k) i i True [])"
  using assms unfolding exchange_fits_def by blast+

text \<open>The clients' parts.\<close>

lemma push_received:
  assumes p: "protobuf_ok p" and push: "push = CreateChatPush a b i i f d m t False" "sendable p kDefaultMaxFrameLength push"
    and ack: "ack = CreateAck (c_clock c (c_ticks c)) i i True []" "sendable p kDefaultMaxFrameLength ack"
    and c: "\<not> c_stop c" "login_ok c" "\<forall>k n. net c k n = int n"
  shows "message_queue (snd (receiver_loop p [RecvBytes (Encode p push)] [] c)) = message_queue c @ [push]"
    "wire (snd (receiver_loop p [RecvBytes (Encode p push)] [] c)) = wire c @ Encode p ack"
proof -
  have "message_queue (handleEnvelope p push c) = message_queue c @ [push]" "wire (handleEnvelope p push c) = wire c @ Encode p ack"
    using c(2,3) sendable_frames(2) [OF ack(2)] unfolding push(1) ack(1)
    by (simp_all add: handleEnvelope_def handleChatPush_def CreateChatPush_def pushMessage_def nowMs_def send_whole_frame Let_def)
  then show "message_queue (snd (receiver_loop p [RecvBytes (Encode p push)] [] c)) = message_queue c @ [push]"
    "wire (snd (receiver_loop p [RecvBytes (Encode p push)] [] c)) = wire c @ Encode p ack"
    by (simp_all only: receiver_frame [OF p push(2) c(1)])
qed

lemma ack_received:
  assumes "protobuf_ok p" "sendable p kDefaultMaxFrameLength (CreateAck u seq i True [])" "\<not> c_stop c"
  shows "seq \<notin> fst ` set (pending_acks (snd (receiver_loop p [RecvBytes (Encode p (CreateAck u seq i True []))] [] c)))"
  unfolding receiver_frame [OF assms]
  by (simp add: handleEnvelope_def client_handleAck_def CreateAck_def AList.delete_eq image_iff)

text \<open>
  C1: when \<^verbatim>\<open>sendMessage\<close> returns true for a recipient who is online, and the servers answer, then: the bytes
  written are one frame, which the server decodes to the request; handling the request stores the message, pushes it
  to the recipient's connection and acknowledges it to the sender; the recipient's client, on receiving the pushed
  bytes, has the message with its sender and text in its queue and answers with one frame; handling that
  acknowledgement leaves the message in the ledger as Acked; and the sender's client, on receiving its
  acknowledgement, no longer holds the request.
\<close>

theorem end_to_end:
  assumes server: "redis_server call" and ok: "store_ok w L" and n: "next_id L + 1 < 10 ^ 14"
    and links: "\<forall>k. link_of w k = Answered" and inv: "user_inv (users w)" and p: "protobuf_ok p"
    and send: "posix_send (net sender)" "sendMessage p dst msg st sender = (True, st', sender')"
    and uid: "getUidByConn (users w) conn = c_uid sender" "c_uid sender \<noteq> 0"
    and new: "\<forall>t. idem L (c_uid sender, make_client_msg_id (c_uid sender) t (next_client_msg_no st)) = None"
    and on: "online w dst" and i: "i = word_of_nat (next_id L + 1)" and fits: "exchange_fits p i st sender w recipient dst msg"
    and recipient: "\<not> c_stop recipient" "login_ok recipient" "\<forall>k n. net recipient k n = int n"
  shows "\<exists>req push ack ack' w1 w2 L2 r.
    wire sender' = wire sender @ Encode p req \<and> envelopes (fst (receive p [] (Encode p req))) = [req] \<and>
    run call (handle p (chat_event conn req)) w = ((), w1) \<and>
    outbox w1 = outbox w @ [(getConnByUid (users w) dst, Encode p push), (conn, Encode p ack)] \<and>
    message_queue (snd (receiver_loop p [RecvBytes (Encode p push)] [] recipient)) = message_queue recipient @ [push] \<and>
    (\<exists>c. env_payload push = kChatPush c \<and> push_from_uid c = c_uid sender \<and> push_content c = msg) \<and>
    wire (snd (receiver_loop p [RecvBytes (Encode p push)] [] recipient)) = wire recipient @ Encode p ack' \<and>
    run call (handle p (chat_event (getConnByUid (users w) dst) ack')) w1 = ((), w2) \<and> store_ok w2 L2 \<and>
    msgs L2 i = Some r \<and> from_uid r = c_uid sender \<and> to_uid r = dst \<and> content r = msg \<and> status r = Acked \<and>
    next_seq st \<notin> fst ` set (pending_acks (snd (receiver_loop p [RecvBytes (Encode p ack)] [] sender')))"
proof -
  let ?to = "getConnByUid (users w) dst"
  obtain t t' where t: "t \<in> range (c_clock sender)" "t' \<in> range (c_clock sender)" "\<not> c_stop sender'"
    and wire: "wire sender' = wire sender @ Encode p (CreateChatRequest t (next_seq st) (c_uid sender) dst msg
       (make_client_msg_id (c_uid sender) t' (next_client_msg_no st)))"
    by (rule sendMessage_result [OF send])
  define req where "req = CreateChatRequest t (next_seq st) (c_uid sender) dst msg
     (make_client_msg_id (c_uid sender) t' (next_client_msg_no st))"
  have got: "envelopes (fst (receive p [] (Encode p req))) = [req]"
    unfolding receive_decoded req_def using frame_received [OF p exchange_fitsD(1) [OF fits t(1,2)]] by simp
  let ?b = "\<lparr>req_from_uid = c_uid sender, req_to_uid = dst, req_content = msg,
    req_client_msg_id = make_client_msg_id (c_uid sender) t' (next_client_msg_no st)\<rparr>"
  have e: "env_type req = CHAT_REQ" "env_payload req = kChatReq ?b" "env_seq req = next_seq st"
    by (simp_all add: req_def CreateChatRequest_def)
  have pre: "getUidByConn (users w) conn = req_from_uid ?b" "req_from_uid ?b \<noteq> 0"
    "idem L (req_from_uid ?b, req_client_msg_id ?b) = None" "online w (req_to_uid ?b)"
    using uid new on by simp_all
  obtain w1 a b u where h: "run call (handle p (chat_event conn req)) w = ((), w1)"
    and time: "a \<in> range (clock w)" "b \<in> range (clock w)" "u \<in> range (clock w)"
    and out: "outbox w1 = outbox w @ frames p ?to (CreateChatPush a b i i (c_uid sender) dst msg (this_time w) False) @
      frames p conn (CreateAck u (next_seq st) i True [])"
    and acked: "\<forall>t. \<exists>w2 L2 r. run call (handle p (chat_event ?to (CreateAck t i i True []))) w1 = ((), w2) \<and> store_ok w2 L2 \<and>
      msgs L2 i = Some r \<and> from_uid r = c_uid sender \<and> to_uid r = dst \<and> content r = msg \<and> status r = Acked"
    using redis_server.server_exchange [OF server ok n links inv e(1,2) pre i, of p, unfolded e(3) ChatRequest.select_convs]
    by (elim exE conjE) (rule that)
  let ?push = "CreateChatPush a b i i (c_uid sender) dst msg (this_time w) False" and ?ack = "CreateAck u (next_seq st) i True []"
  let ?ack' = "CreateAck (c_clock recipient (c_ticks recipient)) i i True []"
  have fit: "sendable p kDefaultMaxFrameLength ?push" "sendable p kDefaultMaxFrameLength ?ack" "sendable p kDefaultMaxFrameLength ?ack'"
    using time by (auto intro: exchange_fitsD [OF fits])
  have sent: "wire sender' = wire sender @ Encode p req" using wire by (simp only: req_def)
  have outs: "outbox w1 = outbox w @ [(?to, Encode p ?push), (conn, Encode p ?ack)]"
    using out by (simp only: sendable_frames(1) [OF fit(1)] sendable_frames(1) [OF fit(2)] append.simps)
  have words: "\<exists>c. env_payload ?push = kChatPush c \<and> push_from_uid c = c_uid sender \<and> push_content c = msg"
    by (simp add: CreateChatPush_def)
  obtain w2 L2 r where final: "run call (handle p (chat_event ?to ?ack')) w1 = ((), w2)" "store_ok w2 L2" "msgs L2 i = Some r"
    "from_uid r = c_uid sender" "to_uid r = dst" "content r = msg" "status r = Acked"
    using acked by blast
  note clients = push_received [OF p refl fit(1) refl fit(3) recipient] ack_received [OF p fit(2) t(3)]
  show ?thesis
    by (rule exI [of _ req], rule exI [of _ ?push], rule exI [of _ ?ack], rule exI [of _ ?ack'], rule exI [of _ w1],
        rule exI [of _ w2], rule exI [of _ L2], rule exI [of _ r]) (intro conjI sent got h outs words clients final)
qed

text \<open>User 1 on connection 7 writes to user 2 on connection 8; all clocks show 1000.\<close>

definition demo_exchange :: platform where
  "demo_exchange = table_platform LittleEndian
    [(''a'', CreateChatRequest 1000 2 1 2 ''hi'' (make_client_msg_id 1 1000 1)),
     (''b'', CreateChatPush 1000 1000 1 1 1 2 ''hi'' 1000 False),
     (''c'', CreateAck 1000 2 1 True []), (''d'', CreateAck 1000 1 1 True [])]"

definition demo_peer :: "u64 \<Rightarrow> Client" where
  "demo_peer uid = demo_client\<lparr>c_uid := uid, net := \<lambda>_ n. int n\<rparr>"

lemma demo_peer_fields [simp]:
  "c_uid (demo_peer uid) = uid" "net (demo_peer uid) = (\<lambda>_ n. int n)" "login_ok (demo_peer uid)" "\<not> c_stop (demo_peer uid)"
  "c_clock (demo_peer uid) = (\<lambda>_. 1000)" "message_queue (demo_peer uid) = []" "wire (demo_peer uid) = []"
  by (simp_all add: demo_peer_def)

lemma demo_exchange_fits: "exchange_fits demo_exchange 1 new_ClientStatics (demo_peer 1) (demo_login 0 1000) (demo_peer 2) 2 ''hi''"
  by (simp add: exchange_fits_def sendable_def demo_exchange_def table_platform_def new_ClientStatics_def CreateChatRequest_def
      CreateChatPush_def CreateAck_def kDefaultMaxFrameLength_def)

lemma demo_send: "\<exists>st' c'. sendMessage demo_exchange 2 ''hi'' new_ClientStatics (demo_peer 1) = (True, st', c')"
proof -
  obtain e st2 c2 where r: "register_request 2 2 ''hi'' (new_ClientStatics\<lparr>next_seq := 3\<rparr>) (demo_peer 1) = (e, st2, c2)" by (meson prod_cases3)
  have c2: "net c2 = (\<lambda>_ n. int n)" using r by (auto simp: register_request_def nowMs_def Let_def)
  have "e = CreateChatRequest 1000 2 1 2 ''hi'' (make_client_msg_id 1 1000 1)"
    using register_request_fields(1) [OF r] by (simp add: new_ClientStatics_def)
  then have "SerializeToString demo_exchange e = Some ''a''" by (simp add: demo_exchange_def table_platform_def)
  then have "Encode demo_exchange e \<noteq> []" by (simp add: Encode_wire_frame)
  then have "\<exists>c'. finish_send demo_exchange 2 e c2 = (True, c')"
    using send_whole_frame [of c2 demo_exchange e] c2 by (simp add: finish_send_def)
  then show ?thesis using r by (auto simp: sendMessage_def take_seq_def new_ClientStatics_def)
qed

theorem end_to_end_witness:
  "\<exists>w2 L2 r. store_ok w2 L2 \<and> msgs L2 1 = Some r \<and> from_uid r = 1 \<and> to_uid r = 2 \<and> content r = ''hi'' \<and> status r = Acked"
proof -
  let ?w = "demo_login 0 1000"
  obtain st' c' where s: "sendMessage demo_exchange 2 ''hi'' new_ClientStatics (demo_peer 1) = (True, st', c')" using demo_send by blast
  have ok: "store_ok ?w (counted_ledger 0)" by (rule demo_login_ok) simp_all
  have n: "next_id (counted_ledger 0) + 1 < 10 ^ 14" "(1 :: u64) = word_of_nat (next_id (counted_ledger 0) + 1)"
    by (simp_all add: counted_ledger_def)
  have inv: "user_inv (users ?w)" unfolding demo_login_def by (simp add: user_inv_history)
  have on: "online ?w 2" by (simp add: online_def)
  have p: "protobuf_ok demo_exchange" by (simp add: demo_exchange_def table_platform_ok)
  have net: "posix_send (net (demo_peer 1))" "\<forall>k n. net (demo_peer 2) k n = int n" by (simp_all add: posix_send_def)
  have rest: "\<forall>k. link_of ?w k = Answered" "getUidByConn (users ?w) 7 = c_uid (demo_peer 1)" "c_uid (demo_peer 1) \<noteq> 0"
    "\<forall>t. idem (counted_ledger 0) (c_uid (demo_peer 1), make_client_msg_id (c_uid (demo_peer 1)) t (next_client_msg_no new_ClientStatics)) = None"
    "\<not> c_stop (demo_peer 2)" "login_ok (demo_peer 2)"
    by (simp_all add: counted_ledger_def)
  show ?thesis
    using end_to_end [OF reference.redis_server_axioms ok n(1) rest(1) inv p net(1) s rest(2-4) on n(2) demo_exchange_fits
        rest(5,6) net(2)]
    unfolding demo_peer_fields(1) by blast
qed

end
