(* ===== verification/Concurrent.thy ===== *)
theory Concurrent
  imports Delivery
begin

text \<open>
  Many handlers at once.  The server runs the handlers of events on eight workers and the delivery scan on a thread of
  its own, all on the same Redis, session table and connections.  \<open>system_step\<close> interleaves their accesses in any
  way; what the handlers need of each other is that each of them only makes calls of the message store and only
  acknowledges what a call has told it, which \<open>honours\<close> states of a tree of accesses and the first
  property of this theory shows of every handler.
\<close>

section \<open>Calls of the message store\<close>

datatype store_call =
    CallCreate u64 u64 string string u64
  | CallDelivered u64 u64
  | CallPending u64 u64
  | CallFailed u64 u64
  | CallAcked u64 u64 u64
  | CallRetry u64
  | CallFetch u64
  | CallPendingIndex u64
  | CallRecentIndex u64 nat
  | CallTimeoutIndex u64

fun argv_of :: "store_call \<Rightarrow> cmd_arg list" where
  "argv_of (CallCreate f u m cid now) = eval_argv kCreateMessageScript
     [MakeIdempotencyKey f cid, kRedisMsgNextIdKey, MakePendingKey u, MakeRecentKey f, MakeRecentKey u]
     [kRedisMsgKeyPrefix, to_string f, to_string u, m, cid, to_string now]"
| "argv_of (CallDelivered i now) = eval_argv kMarkDeliveredScript [MakeMessageKey i, kRedisDeliveredTimeoutKey]
     [to_string i, to_string now, kRedisPendingKeyPrefix]"
| "argv_of (CallPending i now) = eval_argv kMarkPendingScript [MakeMessageKey i, kRedisDeliveredTimeoutKey]
     [to_string i, to_string now, kRedisPendingKeyPrefix]"
| "argv_of (CallFailed i now) = eval_argv kMarkFailedScript [MakeMessageKey i, kRedisDeliveredTimeoutKey]
     [to_string i, to_string now, kRedisPendingKeyPrefix]"
| "argv_of (CallAcked i uid now) = eval_argv kMarkAckedScript [MakeMessageKey i, kRedisDeliveredTimeoutKey]
     [to_string i, to_string uid, to_string now, kRedisPendingKeyPrefix]"
| "argv_of (CallRetry i) = eval_argv kIncrementRetryScript [MakeMessageKey i] []"
| "argv_of (CallFetch i) = map Bytes (''HMGET'' # MakeMessageKey i # record_fields)"
| "argv_of (CallPendingIndex uid) = map Bytes [''ZRANGE'', MakePendingKey uid, ''0'', ''-1'']"
| "argv_of (CallRecentIndex uid n) = map Bytes [''ZREVRANGE'', MakeRecentKey uid, ''0'', dec n]"
| "argv_of (CallTimeoutIndex score) = map Bytes [''ZRANGEBYSCORE'', kRedisDeliveredTimeoutKey, ''0'', to_string score]"

text \<open>Times in the range of a score, ranks in the range of an index.\<close>

fun call_ok :: "store_call \<Rightarrow> bool" where
  "call_ok (CallCreate f u m cid now) \<longleftrightarrow> unat now \<le> 2 ^ 53"
| "call_ok (CallDelivered i now) \<longleftrightarrow> unat now \<le> 2 ^ 53"
| "call_ok (CallPending i now) \<longleftrightarrow> unat now \<le> 2 ^ 53"
| "call_ok (CallFailed i now) \<longleftrightarrow> unat now \<le> 2 ^ 53"
| "call_ok (CallAcked i uid now) \<longleftrightarrow> unat now \<le> 2 ^ 53"
| "call_ok (CallRecentIndex uid n) \<longleftrightarrow> n < 2 ^ 63"
| "call_ok (CallTimeoutIndex score) \<longleftrightarrow> unat score \<le> 2 ^ 53"
| "call_ok _ \<longleftrightarrow> True"

fun ledger_call :: "store_call \<Rightarrow> ledger \<Rightarrow> ledger" where
  "ledger_call (CallCreate f u m cid now) L = snd (ledger_create f u m cid now L)"
| "ledger_call (CallDelivered i now) L = snd (ledger_deliver i now L)"
| "ledger_call (CallPending i now) L = snd (ledger_pend i L)"
| "ledger_call (CallFailed i now) L = snd (ledger_fail i L)"
| "ledger_call (CallAcked i uid now) L = snd (ledger_ack i uid now L)"
| "ledger_call (CallRetry i) L = snd (ledger_retry i L)"
| "ledger_call _ L = L"

text \<open>
  What is known of a message once it is stored, and never changes: its identifier, sender, recipient and content.
  A reply of a creation or a fetch tells its caller of a stored message.
\<close>

type_synonym fact = "u64 \<times> u64 \<times> u64 \<times> string"

definition fact_of :: "MessageRecord \<Rightarrow> fact" where
  "fact_of r = (msg_id r, from_uid r, to_uid r, content r)"

definition facts :: "ledger \<Rightarrow> fact set" where
  "facts L = {fact_of r | i r. msgs L i = Some r}"

fun told :: "store_call \<Rightarrow> redisReply option \<Rightarrow> fact set" where
  "told (CallCreate f u m cid now) reply = fact_of ` result_record ` set_option (BuildCreateResult reply)"
| "told (CallFetch i) reply = fact_of ` set_option (BuildRecordFromFields reply 0)"
| "told _ reply = {}"

lemma told_lost [simp]: "told c None = {}"
  by (cases c) (simp_all add: BuildCreateResult_def BuildRecordFromFields_def)

lemma fact_of_parsed [simp]: "fact_of (parsed r) = fact_of r"
  by (simp add: fact_of_def)

lemma facts_of_msgs: "msgs L i = Some r \<Longrightarrow> fact_of r \<in> facts L"
  by (auto simp: facts_def)

context redis_server
begin

lemma serve_create:
  assumes rep: "represents ks L" and ok: "ledger_ok L" and n: "next_id L + 1 < 10 ^ 14" and now: "unat now \<le> 2 ^ 53"
  shows "\<exists>reply ks'. serve call (argv_of (CallCreate f u m cid now)) ks = (reply, ks') \<and>
    represents ks' (ledger_call (CallCreate f u m cid now) L) \<and>
    told (CallCreate f u m cid now) (Some reply) \<subseteq> facts (ledger_call (CallCreate f u m cid now) L)"
proof -
  let ?c = "ledger_create f u m cid now L"
  obtain es ks' where s: "serve call (argv_of (CallCreate f u m cid now)) ks = (ReplyArray es, ks')"
    "BuildCreateResult (Some (ReplyArray es)) = Some (fst ?c)" "represents ks' (snd ?c)"
    using create_script [OF rep ok n now, of f cid u m] by (auto simp: serve_eval)
  have "ledger_ok (snd ?c)" by (rule ledger_ok_create [OF ok n now])
  from ledger_ok_idem [OF this ledger_create_result(2) [OF ok]] obtain r
    where r: "msgs (snd ?c) (msg_id (result_record (fst ?c))) = Some r" by metis
  then have "fact_of (result_record (fst ?c)) = fact_of r"
    using ledger_create_result(3) [OF ok, of f u m cid now] by (metis fact_of_parsed option.sel)
  then show ?thesis using s facts_of_msgs [OF r] by simp
qed

lemma serve_fetch:
  assumes rep: "represents ks L"
  shows "\<exists>reply. serve call (argv_of (CallFetch i)) ks = (reply, ks) \<and> told (CallFetch i) (Some reply) \<subseteq> facts L"
proof -
  let ?es = "case msgs L i of None \<Rightarrow> replicate 10 ReplyNil | Some r \<Rightarrow> record_reply r"
  have "call (''HMGET'' # MakeMessageKey i # record_fields) ks = (ReplyArray ?es, ks)"
    using HMGET [OF hash_at_message [OF rep], of record_fields i]
    by (cases "msgs L i") (simp_all add: record_fields_def record_reply_def eval_nat_numeral)
  then have "serve call (argv_of (CallFetch i)) ks = (ReplyArray ?es, ks)"
    using serve_plain [of call "''HMGET'' # MakeMessageKey i # record_fields"] by simp
  moreover have "BuildRecordFromFields (Some (ReplyArray ?es)) 0 = map_option parsed (msgs L i)"
    using BuildRecordFromFields_reply [of "[]"]
    by (cases "msgs L i") (simp_all add: BuildRecordFromFields_def ParseUint64_def ReplyToString_def)
  ultimately show ?thesis by (cases "msgs L i") (simp_all add: facts_of_msgs)
qed

lemma serve_call:
  assumes rep: "represents ks L" and ok: "ledger_ok L" and n: "next_id L + 1 < 10 ^ 14" and c: "call_ok c"
  shows "\<exists>reply ks'. serve call (argv_of c) ks = (reply, ks') \<and> represents ks' (ledger_call c L) \<and>
    told c (Some reply) \<subseteq> facts (ledger_call c L)"
proof (cases c)
  case (CallCreate f u m cid now)
  then show ?thesis using serve_create [OF rep ok n] c by simp
next
  case (CallFetch i)
  then show ?thesis using serve_fetch [OF rep, of i] rep by auto
next
  case (CallPendingIndex uid)
  then show ?thesis
    using represents_indexes(1) [OF rep, of uid] ZRANGE_all rep serve_plain [of call "[''ZRANGE'', MakePendingKey uid, ''0'', ''-1'']"]
    by (fastforce simp: index_at_def)
next
  case (CallRecentIndex uid k)
  then show ?thesis
    using represents_indexes(2) [OF rep, of uid] ZREVRANGE rep c serve_plain [of call "[''ZREVRANGE'', MakeRecentKey uid, ''0'', dec k]"]
    by (fastforce simp: index_at_def)
next
  case (CallTimeoutIndex score)
  then show ?thesis
    using represents_indexes(3) [OF rep] ZRANGEBYSCORE rep c
      serve_plain [of call "[''ZRANGEBYSCORE'', kRedisDeliveredTimeoutKey, ''0'', to_string score]"]
    by (fastforce simp: index_at_def to_string_def)
qed (use deliver_script [OF rep] pend_script [OF rep ok] fail_script [OF rep] ack_script [OF rep] retry_script [OF rep ok] c
    in \<open>fastforce simp: serve_eval\<close>)+

end


section \<open>What a call keeps of the ledger\<close>

text \<open>Messages stay, with all that their sender gave them; the counters go up by at most one.\<close>

definition same_message :: "MessageRecord \<Rightarrow> MessageRecord \<Rightarrow> bool" where
  "same_message r r' \<longleftrightarrow> fact_of r' = fact_of r \<and> client_msg_id r' = client_msg_id r \<and> created_at_ms r' = created_at_ms r"

definition kept :: "ledger \<Rightarrow> ledger \<Rightarrow> bool" where
  "kept L L' \<longleftrightarrow> (\<forall>i r. msgs L i = Some r \<longrightarrow> (\<exists>r'. msgs L' i = Some r' \<and> same_message r r'))"

definition within :: "nat \<Rightarrow> ledger \<Rightarrow> bool" where
  "within n L \<longleftrightarrow> next_id L \<le> n \<and> (\<forall>i r. msgs L i = Some r \<longrightarrow> retry_count r \<le> int n)"

lemma kept_refl [simp]: "kept L L"
  by (simp add: kept_def same_message_def)

lemma kept_trans: "kept L L' \<Longrightarrow> kept L' L'' \<Longrightarrow> kept L L''"
  unfolding kept_def same_message_def by metis

lemma kept_facts: "kept L L' \<Longrightarrow> facts L \<subseteq> facts L'"
  unfolding facts_def kept_def same_message_def by (smt (verit) Collect_mono)

lemma within_mono: "within n L \<Longrightarrow> n \<le> n' \<Longrightarrow> within n' L"
  by (fastforce simp: within_def)

lemma within_room: "within n L \<Longrightarrow> n + 1 < 10 ^ 14 \<Longrightarrow> room L"
  by (fastforce simp: within_def room_def)

lemma ledger_update_kept:
  assumes "\<And>r. same_message r (g r)" "\<And>r. retry_count (g r) \<le> retry_count r + 1"
  shows "kept L (snd (ledger_update i g L))" "within n L \<Longrightarrow> within (Suc n) (snd (ledger_update i g L))"
proof -
  show "kept L (snd (ledger_update i g L))"
    using assms(1) by (auto simp: kept_def ledger_update_def same_message_def split: option.split)
  assume n: "within n L"
  have "retry_count (g r) \<le> int (Suc n)" if "msgs L i = Some r" for r
    using n that assms(2) [of r] by (fastforce simp: within_def)
  moreover have "retry_count r \<le> int (Suc n)" if "msgs L j = Some r" for j r
    using n that by (fastforce simp: within_def)
  ultimately show "within (Suc n) (snd (ledger_update i g L))"
    using n by (auto simp: within_def ledger_update_def split: option.split)
qed

lemma ledger_create_kept:
  assumes "ledger_ok L" "next_id L + 1 < 10 ^ 14"
  shows "kept L (snd (ledger_create f u m cid now L))" "within n L \<Longrightarrow> within (Suc n) (snd (ledger_create f u m cid now L))"
proof -
  have "msgs L (word_of_nat (next_id L + 1)) = None" using fresh_id [OF assms] by simp
  then show "kept L (snd (ledger_create f u m cid now L))"
    by (auto simp: kept_def ledger_create_def same_message_def Let_def split: option.split)
  assume n: "within n L"
  then have "retry_count r \<le> int (Suc n)" if "msgs L j = Some r" for j r
    using that by (fastforce simp: within_def)
  then show "within (Suc n) (snd (ledger_create f u m cid now L))"
    using n by (auto simp: within_def ledger_create_def Let_def new_record_def split: option.split)
qed

lemma ledger_call_kept:
  assumes ok: "ledger_ok L" and n: "within n L" "n + 1 < 10 ^ 14" and c: "call_ok c"
  shows "ledger_ok (ledger_call c L)" "kept L (ledger_call c L)" "within (Suc n) (ledger_call c L)"
proof -
  have id: "next_id L + 1 < 10 ^ 14" using n by (simp add: within_def)
  note steps = ledger_ok_step(1-4) [OF ok] ledger_ok_step(5) [OF ok _ within_room [OF n], of 0]
  show "ledger_ok (ledger_call c L)"
    using c ok steps ledger_ok_create [OF ok id] by (cases c) simp_all
  show "kept L (ledger_call c L)"
    using ledger_create_kept(1) [OF ok id] ledger_update_kept(1)
    by (cases c) (auto simp: ledger_deliver_def ledger_pend_def ledger_fail_def ledger_ack_def ledger_retry_def
        same_message_def fact_of_def split: option.split)
  show "within (Suc n) (ledger_call c L)"
    using ledger_create_kept(2) [OF ok id n(1)] ledger_update_kept(2) [OF _ _ n(1)] within_mono [OF n(1), of "Suc n"]
    by (cases c) (auto simp: ledger_deliver_def ledger_pend_def ledger_fail_def ledger_ack_def ledger_retry_def
        same_message_def fact_of_def split: option.split)
qed


section \<open>Well-behaved trees\<close>

text \<open>
  An envelope may acknowledge or push only messages that are known to be stored, as they are stored.
\<close>

definition honest :: "fact set \<Rightarrow> Envelope \<Rightarrow> bool" where
  "honest K e \<longleftrightarrow> (case env_payload e of
     kAck a \<Rightarrow> ack_ok a \<longrightarrow> ack_msg_id a \<in> fst ` K
   | kChatPush q \<Rightarrow> (push_msg_id q, push_from_uid q, push_to_uid q, push_content q) \<in> K
   | _ \<Rightarrow> True)"

lemma honest_mono: "honest K e \<Longrightarrow> K \<subseteq> K' \<Longrightarrow> honest K' e"
  by (auto simp: honest_def split: Payload.splits)

text \<open>
  \<open>honours p Q m K\<close>: whatever the accesses of \<open>m\<close> answer, each Redis command of it is a call of the store, each
  frame it sends is honest by what is known at that time, and \<open>Q\<close> holds of its result and of what is known
  at the end.  \<open>K\<close> is known at the beginning, and replies add to it.
\<close>

primrec honours :: "platform \<Rightarrow> ('a \<Rightarrow> fact set \<Rightarrow> bool) \<Rightarrow> 'a proc \<Rightarrow> fact set \<Rightarrow> bool" where
  "honours p Q (Return x) = (\<lambda>K. Q x K)"
| "honours p Q (NowMs k) = (\<lambda>K. \<forall>t. unat t \<le> 2 ^ 53 \<longrightarrow> honours p Q (k t) K)"
| "honours p Q (RedisCommand argv k) = (\<lambda>K. \<exists>c. call_ok c \<and> argv = argv_of c \<and>
     (\<forall>reply. honours p Q (k reply) (K \<union> told c reply)))"
| "honours p Q (Users_bindUser c u k) = (\<lambda>K. \<forall>ok. honours p Q (k ok) K)"
| "honours p Q (Users_removeConnection c k) = honours p Q k"
| "honours p Q (Users_updateHeartbeat c k) = honours p Q k"
| "honours p Q (Users_getUidByConn c k) = (\<lambda>K. \<forall>u. honours p Q (k u) K)"
| "honours p Q (Users_getConnByUid u k) = (\<lambda>K. \<forall>c. honours p Q (k c) K)"
| "honours p Q (Conn_connected c k) = (\<lambda>K. \<forall>b. honours p Q (k b) K)"
| "honours p Q (Conn_send c bytes k) = (\<lambda>K. (\<exists>e. bytes = Encode p e \<and> honest K e) \<and> honours p Q k K)"
| "honours p Q (Conn_shutdown c k) = honours p Q k"

abbreviation well_behaved :: "platform \<Rightarrow> 'a proc \<Rightarrow> fact set \<Rightarrow> bool" where
  "well_behaved p \<equiv> honours p (\<lambda>_ _. True)"

named_theorems tree_rules \<open>rules for the trees of the store and the dispatcher\<close>

lemma honours_bind [simp]: "honours p Q (bind m f) K = honours p (\<lambda>x. honours p Q (f x)) m K"
  by (induction m arbitrary: K) simp_all

lemma honours_weaken:
  assumes "honours p Q m K" "K \<subseteq> K'" "\<And>x A B. Q x A \<Longrightarrow> K' \<subseteq> B \<Longrightarrow> A \<subseteq> B \<Longrightarrow> Q' x B"
  shows "honours p Q' m K'"
  using assms
proof (induction m arbitrary: K K')
  case (RedisCommand argv k)
  then obtain c where c: "call_ok c" "argv = argv_of c" "\<And>reply. honours p Q (k reply) (K \<union> told c reply)" by auto
  have "honours p Q' (k reply) (K' \<union> told c reply)" for reply
    by (rule RedisCommand.IH [OF _ c(3) [of reply]]) (use RedisCommand.prems in auto)
  then show ?case using c(1,2) by auto
next
  case (Conn_send c bytes k)
  have "honours p Q' k K'" by (rule Conn_send.IH) (use Conn_send.prems in auto)
  moreover obtain e where "bytes = Encode p e" "honest K e" using Conn_send.prems(1) by auto
  ultimately show ?case using honest_mono [OF _ Conn_send.prems(2)] by auto
next
  case (Return x)
  then show ?case by (metis honours.simps(1) order_refl)
next
  case (NowMs k)
  show ?case using NowMs.IH [OF rangeI _ NowMs.prems(2,3)] NowMs.prems(1) by simp
next
  case (Users_bindUser c u k)
  show ?case using Users_bindUser.IH [OF rangeI _ Users_bindUser.prems(2,3)] Users_bindUser.prems(1) by simp
next
  case (Users_getUidByConn c k)
  show ?case using Users_getUidByConn.IH [OF rangeI _ Users_getUidByConn.prems(2,3)] Users_getUidByConn.prems(1) by simp
next
  case (Users_getConnByUid u k)
  show ?case using Users_getConnByUid.IH [OF rangeI _ Users_getConnByUid.prems(2,3)] Users_getConnByUid.prems(1) by simp
next
  case (Conn_connected c k)
  show ?case using Conn_connected.IH [OF rangeI _ Conn_connected.prems(2,3)] Conn_connected.prems(1) by simp
qed simp_all

lemma well_behaved_mono: "well_behaved p m K \<Longrightarrow> K \<subseteq> K' \<Longrightarrow> well_behaved p m K'"
  by (rule honours_weaken)

lemma honours_for_each:
  assumes "\<And>x A. x \<in> set xs \<Longrightarrow> K \<subseteq> A \<Longrightarrow> well_behaved p (body x) A"
  shows "well_behaved p (for_each xs body) K"
  using assms
proof (induction xs arbitrary: K)
  case (Cons x xs)
  have x: "well_behaved p (body x) K" using Cons.prems by simp
  have rest: "well_behaved p (for_each xs body) B" if "K \<subseteq> B" for B
    by (rule Cons.IH, rule Cons.prems) (use that in simp_all)
  have "honours p (\<lambda>_ B. well_behaved p (for_each xs body) B) (body x) K"
    by (rule honours_weaken [OF x order_refl rest])
  then show ?case by simp
qed simp

lemma honours_collect:
  assumes "\<And>x A Q. \<lbrakk>\<And>y B. A \<subseteq> B \<Longrightarrow> fact_of ` set_option y \<subseteq> B \<Longrightarrow> Q y B\<rbrakk> \<Longrightarrow> honours p Q (body x) A"
    and "\<And>ys B. K \<subseteq> B \<Longrightarrow> fact_of ` set ys \<subseteq> B \<Longrightarrow> Q ys B"
  shows "honours p Q (collect xs body) K"
  using assms(2)
proof (induction xs arbitrary: K Q)
  case (Cons x xs)
  have "honours p Q (bind (collect xs body) (\<lambda>ys. Return (case y of None \<Rightarrow> ys | Some z \<Rightarrow> z # ys))) B"
    if B: "K \<subseteq> B" "fact_of ` set_option y \<subseteq> B" for y B
  proof -
    have "Q (case y of None \<Rightarrow> ys | Some z \<Rightarrow> z # ys) A" if "B \<subseteq> A" "fact_of ` set ys \<subseteq> A" for ys A
      by (rule Cons.prems) (use B that in \<open>auto split: option.splits\<close>)
    then have "honours p (\<lambda>ys. Q (case y of None \<Rightarrow> ys | Some z \<Rightarrow> z # ys)) (collect xs body) B"
      by (rule Cons.IH)
    then show ?thesis by simp
  qed
  then show ?case using assms(1) by simp
qed simp


section \<open>The store's operations make its calls\<close>

text \<open>A command that is a given call of the store.\<close>

lemma honours_call:
  assumes "call_ok c" "argv = argv_of c" "\<And>reply. honours p Q (k reply) (K \<union> told c reply)"
  shows "honours p Q (RedisCommand argv k) K"
  using assms by auto

lemma honours_state_script:
  assumes "unat now \<le> 2 ^ 53" "\<And>b. Q b K"
  shows "honours p (\<lambda>reply. Q (ReplyIsTrue reply)) (EvalMsgStateScript kMarkDeliveredScript i now) K"
    "honours p (\<lambda>reply. Q (ReplyIsTrue reply)) (EvalMsgStateScript kMarkPendingScript i now) K"
    "honours p (\<lambda>reply. Q (ReplyIsTrue reply)) (EvalMsgStateScript kMarkFailedScript i now) K"
    "honours p (\<lambda>reply. Q (ReplyIsTrue reply)) (EvalMarkAckedScript i uid now) K"
  unfolding EvalMsgStateScript_def EvalMarkAckedScript_def client_eval_def
  by (rule honours_call [of "CallDelivered i now"] honours_call [of "CallPending i now"] honours_call [of "CallFailed i now"]
      honours_call [of "CallAcked i uid now"]; use assms in simp)+

lemma honours_marks [tree_rules]:
  assumes "\<And>b. Q b K"
  shows "honours p Q (markDelivered i) K" "honours p Q (markPending i) K" "honours p Q (markFailed i) K"
    "honours p Q (markAcked i uid) K" "honours p Q (incrementRetryCount i) K"
proof -
  show "honours p Q (markDelivered i) K" "honours p Q (markPending i) K" "honours p Q (markFailed i) K"
    "honours p Q (markAcked i uid) K"
    using honours_state_script [of _ Q K, OF _ assms]
    by (simp_all add: markDelivered_def markPending_def markFailed_def markAcked_def)
  have "honours p (\<lambda>reply. Q (ReplyIsTrue reply)) (client_eval kIncrementRetryScript [MakeMessageKey i] []) K"
    unfolding client_eval_def by (rule honours_call [of "CallRetry i"]) (use assms in simp_all)
  then show "honours p Q (incrementRetryCount i) K" by (simp add: incrementRetryCount_def)
qed

lemma honours_createMessage [tree_rules]:
  assumes "\<And>res A. K \<subseteq> A \<Longrightarrow> (result_ok res \<Longrightarrow> fact_of (result_record res) \<in> A) \<Longrightarrow> Q res A"
  shows "honours p Q (createMessage f u m cid) K"
proof -
  have "Q (case reply of None \<Rightarrow> empty_CreateMessageResult | Some (ReplyError _) \<Rightarrow> empty_CreateMessageResult
      | Some _ \<Rightarrow> (case BuildCreateResult reply of None \<Rightarrow> empty_CreateMessageResult | Some res \<Rightarrow> res))
      (K \<union> told (CallCreate f u m cid now) reply)" for reply now
    by (rule assms) (auto simp: empty_CreateMessageResult_def split: option.splits redisReply.splits)
  then have "honours p Q (RedisCommand (argv_of (CallCreate f u m cid now)) (\<lambda>reply. Return (case reply of
      None \<Rightarrow> empty_CreateMessageResult | Some (ReplyError _) \<Rightarrow> empty_CreateMessageResult
      | Some _ \<Rightarrow> (case BuildCreateResult reply of None \<Rightarrow> empty_CreateMessageResult | Some res \<Rightarrow> res)))) K"
    if "unat now \<le> 2 ^ 53" for now
    by (intro honours_call [of "CallCreate f u m cid now"]) (use that in simp_all)
  then show ?thesis by (simp add: createMessage_def EvalCreateMessage_def client_eval_def del: honours.simps(3))
qed

lemma honours_FetchRecord [tree_rules]:
  assumes "\<And>found A. K \<subseteq> A \<Longrightarrow> fact_of ` set_option found \<subseteq> A \<Longrightarrow> Q found A"
  shows "honours p Q (FetchRecord i) K"
proof -
  have "Q (case reply of Some (ReplyArray es) \<Rightarrow> if length es \<noteq> 10 then None else BuildRecordFromFields reply 0 | _ \<Rightarrow> None)
      (K \<union> told (CallFetch i) reply)" for reply
    by (rule assms) (auto split: option.splits redisReply.splits)
  then have "honours p Q (RedisCommand (argv_of (CallFetch i)) (\<lambda>reply. Return (case reply of
      Some (ReplyArray es) \<Rightarrow> if length es \<noteq> 10 then None else BuildRecordFromFields reply 0 | _ \<Rightarrow> None))) K"
    by (intro honours_call [of "CallFetch i"]) simp_all
  then show ?thesis using assms [of K None] by (simp add: FetchRecord_def client_command_def del: honours.simps(3))
qed

lemma honours_fetch_indexed [tree_rules]:
  assumes "\<And>found A. K \<subseteq> A \<Longrightarrow> fact_of ` set_option found \<subseteq> A \<Longrightarrow> Q found A"
  shows "honours p Q (fetch_indexed keep e) K"
proof (cases "ParseUint64 (Some e)")
  case (Some i)
  have "honours p (\<lambda>found. Q (case found of None \<Rightarrow> None | Some r \<Rightarrow> if keep r then Some r else None)) (FetchRecord i) K"
    by (rule honours_FetchRecord, rule assms) (auto split: option.splits)
  then show ?thesis using Some by (simp add: fetch_indexed_def)
qed (use assms [of K None] in \<open>simp add: fetch_indexed_def\<close>)

text \<open>A query: an index is read and its members are fetched.\<close>

lemma honours_query:
  assumes "call_ok c" "map Bytes cmd = argv_of c" "\<And>reply. told c reply = {}"
    and "\<And>rs A. K \<subseteq> A \<Longrightarrow> fact_of ` set rs \<subseteq> A \<Longrightarrow> Q rs A"
  shows "honours p Q (bind (client_command cmd) (\<lambda>reply. case reply of
    Some (ReplyArray es) \<Rightarrow> collect es (fetch_indexed keep) | _ \<Rightarrow> Return [])) K"
proof -
  have "honours p Q (collect es (fetch_indexed keep)) K" for es
    by (rule honours_collect [OF honours_fetch_indexed assms(4)])
  then have "honours p Q (RedisCommand (map Bytes cmd) (\<lambda>reply. case reply of
      Some (ReplyArray es) \<Rightarrow> collect es (fetch_indexed keep) | _ \<Rightarrow> Return [])) K"
    by (intro honours_call [OF assms(1,2)]) (use assms(3,4) in \<open>auto split: option.split redisReply.split\<close>)
  then show ?thesis by (simp add: client_command_def del: honours.simps(3))
qed

lemma honours_queries [tree_rules]:
  assumes "\<And>rs A. K \<subseteq> A \<Longrightarrow> fact_of ` set rs \<subseteq> A \<Longrightarrow> Q rs A"
  shows "honours p Q (getPendingMessages uid) K"
    "limit \<le> 2 ^ 63 \<Longrightarrow> honours p Q (getRecentMessages uid limit) K"
    "unat now \<le> 2 ^ 53 \<Longrightarrow> honours p Q (getTimeoutDeliveredMessages now timeout) K"
proof -
  show "honours p Q (getPendingMessages uid) K"
    unfolding getPendingMessages_def by (rule honours_query [of "CallPendingIndex uid"]) (use assms in simp_all)
  have "honours p (\<lambda>rs. Q (rev rs)) (bind (client_command [''ZREVRANGE'', MakeRecentKey uid, ''0'', dec (limit - 1)]) (\<lambda>reply.
      case reply of Some (ReplyArray es) \<Rightarrow> collect es (fetch_indexed (\<lambda>r. from_uid r = uid \<or> to_uid r = uid)) | _ \<Rightarrow> Return [])) K"
    if "limit \<noteq> 0" "limit \<le> 2 ^ 63"
    by (rule honours_query [of "CallRecentIndex uid (limit - 1)"]) (use that assms in simp_all)
  moreover have "getRecentMessages uid limit = bind (bind (client_command [''ZREVRANGE'', MakeRecentKey uid, ''0'', dec (limit - 1)])
      (\<lambda>reply. case reply of Some (ReplyArray es) \<Rightarrow> collect es (fetch_indexed (\<lambda>r. from_uid r = uid \<or> to_uid r = uid))
        | _ \<Rightarrow> Return [])) (\<lambda>rs. Return (rev rs))" if "uid \<noteq> 0" "limit \<noteq> 0"
    using that by (auto simp: getRecentMessages_def client_command_def split: option.split redisReply.split)
  ultimately show "honours p Q (getRecentMessages uid limit) K" if "limit \<le> 2 ^ 63"
    using that assms [of K "[]"] by (cases "uid = 0 \<or> limit = 0") (auto simp: getRecentMessages_def)
  show "honours p Q (getTimeoutDeliveredMessages now timeout) K" if now: "unat now \<le> 2 ^ 53"
  proof -
    let ?s = "if now \<ge> timeout then now - timeout else 0"
    have "unat ?s \<le> 2 ^ 53" using now by (auto simp: unat_sub)
    then show ?thesis
      unfolding getTimeoutDeliveredMessages_def Let_def
      by (intro honours_query [of "CallTimeoutIndex ?s"]) (use assms in simp_all)
  qed
qed


section \<open>The handlers\<close>

lemma honours_sendEnvelope [tree_rules]:
  assumes "honest K e" "Q () K"
  shows "honours p Q (sendEnvelope p conn e) K"
  using assms by (auto simp: sendEnvelope_def Let_def)

lemma honest_envelopes [simp]:
  "honest K (CreateLoginResponse now seq ok reason)" "honest K (CreateAck now seq m False reason)"
  "honest K (CreateAck now seq m True reason) \<longleftrightarrow> m \<in> fst ` K"
  "honest K (CreateChatPush now now' seq m f u txt created history) \<longleftrightarrow> (m, f, u, txt) \<in> K"
  by (auto simp: honest_def CreateLoginResponse_def CreateAck_def CreateChatPush_def)

lemma honours_sendErrorAck [tree_rules]: "well_behaved p (sendErrorAck p conn seq reason) K"
  by (simp add: sendErrorAck_def honours_sendEnvelope)

lemma honours_push_of [tree_rules]:
  assumes "fact_of r \<in> K" "\<And>e. honest K e \<Longrightarrow> Q e K"
  shows "honours p Q (push_of r history) K"
  using assms by (simp add: push_of_def fact_of_def)

text \<open>The tail that the two ways of delivering share.\<close>

lemma honours_push_delivered [tree_rules]:
  assumes "fact_of r \<in> K" "\<And>A. K \<subseteq> A \<Longrightarrow> Q True A"
  shows "honours p Q (bind (push_of r False) (\<lambda>push. bind (sendEnvelope p target push) (\<lambda>_.
    bind (markDelivered (msg_id r)) (\<lambda>_. Return True)))) K"
  using assms by (simp add: honours_push_of honours_sendEnvelope honours_marks)

lemma honours_deliver [tree_rules]:
  assumes "fact_of r \<in> K" "\<And>b A. K \<subseteq> A \<Longrightarrow> Q b A"
  shows "honours p Q (tryDeliverMessage p r) K" "honours p Q (retryDeliverMessage p r) K"
proof -
  have "honours p (\<lambda>_. Q False) (markPending (msg_id r)) K" by (rule honours_marks) (use assms(2) in simp)
  moreover note push = honours_push_delivered [OF assms(1), of Q p, OF assms(2)]
  moreover have "honours p (\<lambda>_. honours p Q (bind (push_of r False) (\<lambda>push. bind (sendEnvelope p target push) (\<lambda>_.
      bind (markDelivered (msg_id r)) (\<lambda>_. Return True))))) (incrementRetryCount (msg_id r)) K" for target
    by (rule honours_marks) (rule push)
  ultimately show "honours p Q (tryDeliverMessage p r) K" "honours p Q (retryDeliverMessage p r) K"
    using assms(2) by (auto simp: tryDeliverMessage_def retryDeliverMessage_def)
qed


lemma honours_deliverLogin [tree_rules]: "well_behaved p (deliverLoginMessages p uid) K"
proof -
  have recent: "well_behaved p (sendRecentMessages p uid kLoginRecentMessageLimit) A" for A
  proof -
    have "well_behaved p (for_each rs (\<lambda>r. bind (push_of r True) (sendEnvelope p target))) B"
      if "fact_of ` set rs \<subseteq> B" for rs target B
      by (rule honours_for_each) (use that in \<open>auto intro!: tree_rules\<close>)
    then show ?thesis
      unfolding sendRecentMessages_def honours_bind
      by (intro honours_queries) (auto simp: kLoginRecentMessageLimit_def)
  qed
  have "honours p (\<lambda>_ B. well_behaved p (sendRecentMessages p uid kLoginRecentMessageLimit) B) (for_each rs (tryDeliverMessage p)) B"
    if rs: "fact_of ` set rs \<subseteq> B" for rs B
    by (rule honours_weaken [OF honours_for_each [of rs B]]) (use rs recent in \<open>auto intro!: tree_rules\<close>)
  moreover have "well_behaved p (for_each rs (tryDeliverMessage p)) B" if rs: "fact_of ` set rs \<subseteq> B" for rs B
    by (rule honours_for_each) (use rs in \<open>auto intro!: tree_rules\<close>)
  ultimately show ?thesis
    unfolding deliverLoginMessages_def deliverPendingMessages_def honours_bind
    by (intro honours_queries) (auto intro: recent)
qed

lemma honours_handleLogin: "well_behaved p (handleLogin p ev) K"
proof -
  have "honours p (\<lambda>_. well_behaved p (if good then deliverLoginMessages p uid else Return ()))
      (sendEnvelope p conn (CreateLoginResponse now seq good reason)) K" for good uid conn now seq reason
    by (rule honours_sendEnvelope) (simp_all add: honours_deliverLogin)
  from this [of True] this [of False] show ?thesis by (simp add: handleLogin_def Let_def split: Payload.split)
qed

lemma honours_handleChat: "well_behaved p (handleChat p ev) K"
proof -
  let ?conn = "ev_conn ev" and ?seq = "env_seq (ev_envelope ev)"
  have ack: "well_behaved p (NowMs (\<lambda>now. sendEnvelope p ?conn (CreateAck now ?seq (msg_id r) True reason))) A"
    if "fact_of r \<in> A" for r A reason
  proof -
    have "msg_id r \<in> fst ` A" using imageI [OF that, of fst] by (simp add: fact_of_def)
    then show ?thesis by (simp add: honours_sendEnvelope)
  qed
  have deliver: "honours p (\<lambda>_. well_behaved p (NowMs (\<lambda>now. sendEnvelope p ?conn (CreateAck now ?seq (msg_id r) True []))))
      (tryDeliverMessage p r) A" if r: "fact_of r \<in> A" for r A
    by (rule honours_deliver [OF r], rule ack) (use r in blast)
  have "honours p (\<lambda>res. well_behaved p (if \<not> result_ok res then sendErrorAck p ?conn ?seq ''message store unavailable''
        else let r = result_record res in
          if \<not> result_created res then
            NowMs (\<lambda>now. sendEnvelope p ?conn (CreateAck now ?seq (msg_id r) True ''duplicate message''))
          else bind (tryDeliverMessage p r) (\<lambda>_.
            NowMs (\<lambda>now. sendEnvelope p ?conn (CreateAck now ?seq (msg_id r) True [])))))
      (createMessage f u m cid) K" for f u m cid
    by (rule honours_createMessage) (use ack deliver honours_sendErrorAck in \<open>simp add: Let_def\<close>)
  then show ?thesis by (simp add: handleChat_def Let_def honours_sendErrorAck split: Payload.split)
qed

lemma honours_delivery_scan: "well_behaved p (delivery_scan p) K"
proof -
  have "well_behaved p (for_each rs (\<lambda>r. if retry_count r \<ge> kMaxDeliveryRetryCount then markFailed (msg_id r)
      else retryDeliverMessage p r)) A" if "fact_of ` set rs \<subseteq> A" for rs A
    by (rule honours_for_each) (use that in \<open>auto intro!: tree_rules\<close>)
  then show ?thesis by (auto simp: delivery_scan_def intro!: tree_rules)
qed

lemma honours_handle: "well_behaved p (handle p event) K"
proof -
  have "well_behaved p (handleAck event) K"
    by (auto simp: handleAck_def intro!: tree_rules split: Payload.split)
  then show ?thesis
    by (simp add: handle_def handleConnectionClosed_def handleHeartbeat_def honours_handleLogin honours_handleChat
        honours_sendErrorAck split: MessageType.split)
qed

text \<open>
  C18: every handler and every delivery scan is well behaved, whatever it finds: all it ever sends to Redis are
  calls of the message store with arguments in range, and all it ever sends to a client is honest by what
  Redis has answered it, so that it acknowledges or pushes a message only after it learnt that the message is stored, and as
  it is stored.
\<close>

theorem handlers_typed:
  "well_behaved p (handle p event) {} \<and> well_behaved p (delivery_scan p) {}"
  using honours_handle honours_delivery_scan by blast


section \<open>The server's threads together\<close>

text \<open>
  A state of the running server: the shared state and the trees that its threads have still to execute.  A step is
  one access of one of them, the start of another handler or scan, or a change of the connections.  The order of
  events and the number of threads, which the thread pool limits, are left open: what holds for
  all interleavings holds for those of the pool.
\<close>

type_synonym system = "world \<times> unit proc list"

inductive system_step :: "command_table \<Rightarrow> platform \<Rightarrow> system \<Rightarrow> system \<Rightarrow> bool"
  for call :: command_table and p :: platform
where
  access: "i < length ts \<Longrightarrow> proc_step call (ts ! i) w = Some (t, w') \<Longrightarrow> system_step call p (w, ts) (w', ts[i := t])"
| event: "system_step call p (w, ts) (w, ts @ [handle p ev])"
| scan: "system_step call p (w, ts) (w, ts @ [delivery_scan p])"
| network: "system_step call p (w, ts) (w\<lparr>up := u\<rparr>, ts)"

definition honest_frame :: "platform \<Rightarrow> fact set \<Rightarrow> string \<Rightarrow> bool" where
  "honest_frame p K bytes \<longleftrightarrow> (\<exists>e. bytes = Encode p e \<and> honest K e)"

lemma honest_frame_mono: "honest_frame p K bytes \<Longrightarrow> K \<subseteq> K' \<Longrightarrow> honest_frame p K' bytes"
  using honest_mono by (auto simp: honest_frame_def)

text \<open>\<open>grown\<close>: what a number of accesses make of the shared state.\<close>

definition grown :: "platform \<Rightarrow> nat \<Rightarrow> ledger \<Rightarrow> world \<Rightarrow> ledger \<Rightarrow> world \<Rightarrow> bool" where
  "grown p n L w L' w' \<longleftrightarrow> store_ok w' L' \<and> user_inv (users w') \<and> kept L L' \<and> requests w \<le> requests w' \<and>
     within (n + (requests w' - requests w)) L' \<and>
     (\<exists>new. outbox w' = outbox w @ new \<and> (\<forall>(c, bytes) \<in> set new. honest_frame p (facts L') bytes))"

lemma grown_refl: "store_ok w L \<Longrightarrow> user_inv (users w) \<Longrightarrow> within n L \<Longrightarrow> grown p n L w L w"
  by (simp add: grown_def)

lemma grown_trans:
  assumes a: "grown p n L w L' w'" and b: "grown p (n + (requests w' - requests w)) L' w' L'' w''"
  shows "grown p n L w L'' w''"
proof -
  obtain new where new: "outbox w' = outbox w @ new" "\<forall>(c, bytes) \<in> set new. honest_frame p (facts L') bytes"
    using a by (auto simp: grown_def)
  obtain new' where new': "outbox w'' = outbox w' @ new'" "\<forall>(c, bytes) \<in> set new'. honest_frame p (facts L'') bytes"
    using b by (auto simp: grown_def)
  have "kept L L''" using a b kept_trans by (auto simp: grown_def)
  moreover have "\<forall>(c, bytes) \<in> set (new @ new'). honest_frame p (facts L'') bytes"
    using new(2) new'(2) honest_frame_mono kept_facts b by (fastforce simp: grown_def)
  moreover have "n + (requests w' - requests w) + (requests w'' - requests w') = n + (requests w'' - requests w)"
    using a b by (simp add: grown_def)
  ultimately show ?thesis using a b new(1) new'(1) unfolding grown_def by (metis append.assoc order_trans)
qed

context redis_server
begin

lemma access_redis:
  assumes ok: "store_ok w L" "user_inv (users w)" and n: "within n L" "n + 1 < 10 ^ 14" and c: "call_ok c"
    and r: "redis_request call (argv_of c) w = (reply, w')"
  shows "\<exists>L'. grown p n L w L' w' \<and> told c reply \<subseteq> facts L'"
proof -
  have id: "next_id L + 1 < 10 ^ 14" using n by (simp add: within_def)
  obtain rep ks where s: "serve call (argv_of c) (redis w) = (rep, ks)" "represents ks (ledger_call c L)"
    "told c (Some rep) \<subseteq> facts (ledger_call c L)"
    using serve_call [OF store_okD(1,2) [OF ok(1)] id c] by blast
  let ?L' = "after (this_link w) L (ledger_call c L)"
  note keeps = ledger_call_kept [OF store_okD(2) [OF ok(1)] n c]
  have w': "w' = w\<lparr>redis := (if this_link w = RequestLost then redis w else ks), requests := Suc (requests w)\<rparr>"
    and reply: "reply = (if this_link w = Answered then Some rep else None)"
    using r s(1) by (cases "this_link w"; simp add: redis_request_def redis_outcome_def)+
  have "store_ok w' ?L'" using ok(1) s(2) keeps(1) by (simp add: w' store_ok_def after_def)
  moreover have "within (Suc n) ?L'" using keeps(3) within_mono [OF n(1), of "Suc n"] by (simp add: after_def)
  moreover have "kept L ?L'" using keeps(2) by (simp add: after_def)
  ultimately have "grown p n L w ?L' w'" using ok(2) by (simp add: grown_def w')
  moreover have "told c reply \<subseteq> facts ?L'" using s(3) by (simp add: reply after_def)
  ultimately show ?thesis by blast
qed

lemma access_step:
  assumes ok: "store_ok w L" "user_inv (users w)" and n: "within n L" "n + 1 < 10 ^ 14"
    and t: "well_behaved p t (facts L)" and step: "proc_step call t w = Some (t', w')"
  shows "\<exists>L'. grown p n L w L' w' \<and> well_behaved p t' (facts L')"
proof (cases t)
  case (RedisCommand argv k)
  obtain c where c: "call_ok c" "argv = argv_of c" "\<And>reply. well_behaved p (k reply) (facts L \<union> told c reply)"
    using t RedisCommand by auto
  obtain reply where r: "redis_request call (argv_of c) w = (reply, w')" "t' = k reply"
    using step RedisCommand c(2) by (auto split: prod.splits)
  obtain L' where L': "grown p n L w L' w'" "told c reply \<subseteq> facts L'" using access_redis [OF ok n c(1) r(1)] by blast
  have "facts L \<subseteq> facts L'" using L'(1) kept_facts by (auto simp: grown_def)
  then have "well_behaved p t' (facts L')" using well_behaved_mono [OF c(3) [of reply]] L'(2) r(2) by blast
  then show ?thesis using L'(1) by blast
next
  case (Conn_send c bytes k)
  then show ?thesis using t step ok n by (intro exI [of _ L]) (auto simp: grown_def store_ok_def honest_frame_def)
next
  case (Users_bindUser c u k)
  then show ?thesis
    using t step ok n user_inv_bind [OF ok(2), of "this_time w" c u]
    by (intro exI [of _ L]) (auto simp: grown_def store_ok_def read_clock_def bind_user_def split: prod.splits)
qed (use t step ok n user_inv_heartbeat user_inv_remove in
  \<open>auto simp: grown_def store_ok_def read_clock_def update_heartbeat_def intro!: exI [of _ L]\<close>)

end


lemma system_requests: "system_step call p s s' \<Longrightarrow> requests (fst s) \<le> requests (fst s')"
  by (elim system_step.cases, case_tac "ts ! i")
    (auto simp: read_clock_def redis_request_def bind_user_def update_heartbeat_def split: prod.splits)

context redis_server
begin

lemma system_invariant:
  assumes ok: "store_ok w L" "user_inv (users w)" and n: "within n L"
    and run: "rtranclp (system_step call p) (w, []) s" and bound: "n + (requests (fst s) - requests w) + 1 < 10 ^ 14"
  shows "\<exists>L'. grown p n L w L' (fst s) \<and> (\<forall>t \<in> set (snd s). well_behaved p t (facts L'))"
  using run bound
proof (induction rule: rtranclp_induct)
  case base
  then show ?case using grown_refl [OF ok n] by (intro exI [of _ L]) simp
next
  case (step s s')
  have le: "requests (fst s) \<le> requests (fst s')" using step.hyps(2) by (rule system_requests)
  let ?n = "n + (requests (fst s) - requests w)"
  have "?n + 1 < 10 ^ 14" using step.prems le by linarith
  then obtain L' where L': "grown p n L w L' (fst s)" "\<forall>t \<in> set (snd s). well_behaved p t (facts L')"
    using step.IH by blast
  have s: "store_ok (fst s) L'" "user_inv (users (fst s))" "within ?n L'" using L'(1) unfolding grown_def by blast+
  have new: "well_behaved p t A" if "well_behaved p t {}" for t :: "unit proc" and A
    using well_behaved_mono [OF that] by simp
  from step.hyps(2) show ?case
  proof cases
    case (access i ts v t v')
    obtain L'' where g: "grown p ?n L' v L'' v'" "well_behaved p t (facts L'')"
      using access_step [of v L' ?n p "ts ! i" t v'] access s L'(2) \<open>?n + 1 < 10 ^ 14\<close> by auto
    have "facts L' \<subseteq> facts L''" using g(1) kept_facts by (auto simp: grown_def)
    then have "well_behaved p q (facts L'')" if "q \<in> set (ts[i := t])" for q
      using that L'(2) g(2) access(1) well_behaved_mono [of p q "facts L'"] set_update_subset_insert [of ts i t] by auto
    moreover have "grown p n L w L'' v'" using grown_trans [OF L'(1)] g(1) access(1) by simp
    ultimately show ?thesis using access(2) by auto
  next
    case (event v ts ev)
    then show ?thesis using L' new honours_handle by (intro exI [of _ L']) auto
  next
    case (scan v ts)
    then show ?thesis using L' honours_delivery_scan by (intro exI [of _ L']) auto
  next
    case (network v ts u)
    then show ?thesis using L' by (intro exI [of _ L']) (auto simp: grown_def store_ok_def)
  qed
qed

end

text \<open>
  C4: any number of handlers and delivery scans, interleaved in any way, on Redis commands that may be answered or
  lost, with connections going up and down.  At every moment Redis still represents a well-formed ledger and the session
  tables agree; every message of the beginning is still there, with the sender, recipient,
  content, client identifier and time it had; and every frame that was sent encodes an envelope that is honest by
  that ledger: an acknowledged message is stored, and a pushed one is stored with the sender, recipient and content
  that the push shows.
\<close>

theorem concurrent_durable:
  assumes "redis_server call" "store_ok w L" "user_inv (users w)" "within n L"
    and "rtranclp (system_step call p) (w, []) (w', ts)" "n + (requests w' - requests w) + 1 < 10 ^ 14"
  shows "\<exists>L' new. store_ok w' L' \<and> user_inv (users w') \<and> kept L L' \<and> outbox w' = outbox w @ new \<and>
    (\<forall>(c, bytes) \<in> set new. \<exists>e. bytes = Encode p e \<and> honest (facts L') e)"
proof -
  obtain L' where "grown p n L w L' w'" using redis_server.system_invariant [OF assms(1-5)] assms(6) by auto
  then show ?thesis unfolding grown_def honest_frame_def by blast
qed

text \<open>A delivery scan has read its index when a chat request comes in.\<close>

definition demo_event :: ServerEvent where
  "demo_event = chat_event 7 (CreateChatRequest 5 9 1 2 ''hi'' ''c1'')"

lemma demo_steps:
  "\<exists>w' t. rtranclp (system_step redis_call echo_platform) (demo_login 0 1000, []) (w', [t, handle echo_platform demo_event]) \<and>
    requests w' = 1"
proof -
  let ?step = "system_step redis_call echo_platform" and ?w = "demo_login 0 1000"
  obtain t1 w1 where 1: "proc_step redis_call (delivery_scan echo_platform) ?w = Some (t1, w1)" "requests w1 = 0"
    and "\<exists>t2 w2. proc_step redis_call t1 w1 = Some (t2, w2) \<and> requests w2 = 1"
    by (simp add: delivery_scan_def read_clock_def getTimeoutDeliveredMessages_def client_command_def redis_request_def Let_def
        split: prod.splits)
  then obtain t2 w2 where 2: "proc_step redis_call t1 w1 = Some (t2, w2)" "requests w2 = 1" by blast
  have "?step (?w, []) (?w, [delivery_scan echo_platform])" using scan [of redis_call echo_platform ?w "[]"] by simp
  moreover have "?step (?w, [delivery_scan echo_platform]) (w1, [t1])" using access [of 0 "[delivery_scan echo_platform]"] 1(1) by simp
  moreover have "?step (w1, [t1]) (w2, [t2])" using access [of 0 "[t1]"] 2(1) by simp
  moreover have "?step (w2, [t2]) (w2, [t2, handle echo_platform demo_event])"
    using event [of redis_call echo_platform w2 "[t2]" demo_event] by simp
  ultimately show ?thesis using 2(2) by (meson rtranclp.rtrancl_into_rtrancl rtranclp.rtrancl_refl)
qed

theorem concurrent_durable_witness:
  "\<exists>w' t L' new. rtranclp (system_step redis_call echo_platform) (demo_login 0 1000, []) (w', [t, handle echo_platform demo_event]) \<and>
    store_ok w' L' \<and> user_inv (users w') \<and> outbox w' = new \<and>
    (\<forall>(c, bytes) \<in> set new. \<exists>e. bytes = Encode echo_platform e \<and> honest (facts L') e)"
proof -
  let ?w = "demo_login 0 1000"
  obtain w' t where run: "rtranclp (system_step redis_call echo_platform) (?w, []) (w', [t, handle echo_platform demo_event])"
    "requests w' = 1" using demo_steps by blast
  have ok: "store_ok ?w (counted_ledger 0)" by (rule demo_login_ok) simp_all
  have inv: "user_inv (users ?w)" unfolding demo_login_def by (simp add: user_inv_history)
  have n: "within 0 (counted_ledger 0)" by (simp add: within_def counted_ledger_def)
  from concurrent_durable [OF reference.redis_server_axioms ok inv n run(1)] run show ?thesis by fastforce
qed

end
