(* ===== verification/Server_System.thy ===== *)
theory Server_System
  imports Concurrent Chat_Server
begin

text \<open>
  The whole server: the callbacks and queues of \<open>Chat_Server\<close>, the accesses of \<open>Concurrent\<close> and the loop of the delivery thread,
  put together the way the code does.  A worker that takes an event executes the dispatcher's \<^verbatim>\<open>handle\<close> of it, access by access, and
  goes back to its queue when the handler has returned.  Every run of the whole is a run of the callbacks and queues and, at the same time,
  a run of the interleaved handlers, so what was shown of each holds of both together.
\<close>

section \<open>State and steps\<close>

text \<open>\<open>programs s i\<close> is what worker \<open>i\<close> has still to do for the event it has in hand.\<close>

record WholeServer =
  site :: ServerRun
  shared :: world
  programs :: "nat \<Rightarrow> unit proc"
  scanner :: delivery_thread

abbreviation crew :: "ServerRun \<Rightarrow> (u64 \<times> ServerEvent) Worker list" where
  "crew g \<equiv> workers (pool (disp g))"

definition begin_server :: "ChatServer \<Rightarrow> world \<Rightarrow> WholeServer" where
  "begin_server s w = \<lparr>site = start_server s, shared = w, programs = (\<lambda>_. Return ()), scanner = LoopCheck\<rparr>"

text \<open>The server that \<^verbatim>\<open>main\<close> constructs and starts, on a store and session tables \<open>w\<close>.\<close>

definition main_service :: "world \<Rightarrow> WholeServer" where
  "main_service w = begin_server (new_ChatServer 1556 16 kTerminal) w"

definition set_worker :: "nat \<Rightarrow> (u64 \<times> ServerEvent) Worker \<Rightarrow> ServerRun \<Rightarrow> ServerRun" where
  "set_worker i v g = upd_dispatcher (\<lambda>d. d\<lparr>pool := (pool (disp g))\<lparr>workers := (crew g)[i := v]\<rparr>\<rparr>) g"

text \<open>
  \<open>outside\<close>: a callback, a call into the dispatcher, a notification, a step of \<^verbatim>\<open>stop\<close> or of a worker that waits, none of which
  touches an event in hand.
\<close>

inductive whole_step :: "command_table \<Rightarrow> platform \<Rightarrow> WholeServer \<Rightarrow> WholeServer \<Rightarrow> bool"
  for call :: command_table and p :: platform
where
  outside: "server_step p (site s) g \<Longrightarrow> map in_hand (crew g) = map in_hand (crew (site s)) \<Longrightarrow>
    whole_step call p s (s\<lparr>site := g\<rparr>)"
| take: "i < length (crew (site s)) \<Longrightarrow> in_hand (crew (site s) ! i) = [] \<Longrightarrow>
    worker_step (stopped (pool (disp (site s)))) (crew (site s) ! i) = Some v \<Longrightarrow> in_hand v = [t] \<Longrightarrow>
    whole_step call p s (s\<lparr>site := set_worker i v (site s), programs := (programs s)(i := handle p (snd t))\<rparr>)"
| access: "i < length (crew (site s)) \<Longrightarrow> in_hand (crew (site s) ! i) \<noteq> [] \<Longrightarrow>
    proc_step call (programs s i) (shared s) = Some (m, w) \<Longrightarrow>
    whole_step call p s (s\<lparr>shared := w, programs := (programs s)(i := m)\<rparr>)"
| finish: "i < length (crew (site s)) \<Longrightarrow> in_hand (crew (site s) ! i) \<noteq> [] \<Longrightarrow> programs s i = Return () \<Longrightarrow>
    worker_step (stopped (pool (disp (site s)))) (crew (site s) ! i) = Some v \<Longrightarrow>
    whole_step call p s (s\<lparr>site := set_worker i v (site s)\<rparr>)"
| scan: "deliveryLoop call p (disp_stopped (disp (site s))) (scanner s) (shared s) = Some (th, w) \<Longrightarrow>
    whole_step call p s (s\<lparr>scanner := th, shared := w\<rparr>)"
| network: "whole_step call p s (s\<lparr>shared := (shared s)\<lparr>up := u\<rparr>\<rparr>)"

inductive_cases whole_stepE: "whole_step call p s s'"

section \<open>The two projections\<close>

text \<open>A step of a worker is a step of the pool.\<close>

lemma server_worker:
  assumes "i < length (crew g)" "worker_step (stopped (pool (disp g))) (crew g ! i) = Some v"
  shows "server_step p g (set_worker i v g)"
  using server_step.pool [OF pool_step.worker [OF assms]] by (simp add: set_worker_def)

lemma whole_site: "whole_step call p s s' \<Longrightarrow> site s' = site s \<or> server_step p (site s) (site s')"
  by (elim whole_stepE) (auto intro: server_worker)

lemma crew_set_worker [simp]: "crew (set_worker i v g) = (crew g)[i := v]"
  by (simp add: set_worker_def)

text \<open>The trees that are being executed: a worker's while it has an event in hand, and the delivery thread's during a scan.\<close>

definition active :: "WholeServer \<Rightarrow> nat option \<rightharpoonup> unit proc" where
  "active s k = (case k of
     Some i \<Rightarrow> if i < length (crew (site s)) \<and> in_hand (crew (site s) ! i) \<noteq> [] then Some (programs s i) else None
   | None \<Rightarrow> (case scanner s of LoopScan m \<Rightarrow> Some m | _ \<Rightarrow> None))"

text \<open>The interleaving \<open>(v, ts)\<close> has each of them, in a place of its own.\<close>

definition follows :: "WholeServer \<Rightarrow> system \<Rightarrow> bool" where
  "follows s c \<longleftrightarrow> fst c = shared s \<and> (\<exists>pos. inj_on pos (dom (active s)) \<and>
     (\<forall>k m. active s k = Some m \<longrightarrow> pos k < length (snd c) \<and> snd c ! pos k = m))"

lemma follows_spawn:
  assumes "follows s (v, ts)" "shared s' = shared s" "active s' = (active s)(k \<mapsto> m)" "active s k = None"
  shows "follows s' (v, ts @ [m])"
proof -
  obtain pos where pos: "inj_on pos (dom (active s))"
    "\<And>k m. active s k = Some m \<Longrightarrow> pos k < length ts \<and> ts ! pos k = m" "v = shared s"
    using assms(1) by (auto simp: follows_def)
  let ?pos = "pos(k := length ts)"
  have "inj_on ?pos (dom (active s'))"
    using pos(1,2) assms(3,4) by (fastforce simp: inj_on_def dom_def)
  moreover have "?pos j < length (ts @ [m]) \<and> (ts @ [m]) ! ?pos j = n" if "active s' j = Some n" for j n
    using that pos(2) [of j n] assms(3) by (auto simp: nth_append split: if_splits)
  ultimately show ?thesis using pos(3) assms(2) by (auto simp: follows_def)
qed

lemma follows_access:
  assumes "follows s (v, ts)" "active s k = Some m" "proc_step call m (shared s) = Some (m', w)"
    "shared s' = w" "active s' = (active s)(k \<mapsto> m')"
  obtains ts' where "system_step call p (v, ts) (w, ts')" "follows s' (w, ts')"
proof -
  obtain pos where pos: "inj_on pos (dom (active s))"
    "\<And>k m. active s k = Some m \<Longrightarrow> pos k < length ts \<and> ts ! pos k = m" "v = shared s"
    using assms(1) by (auto simp: follows_def)
  have k: "pos k < length ts" "ts ! pos k = m" using pos(2) [OF assms(2)] by auto
  have dom: "dom (active s') = dom (active s)" using assms(2,5) by auto
  have "pos j < length (ts[pos k := m']) \<and> ts[pos k := m'] ! pos j = n" if "active s' j = Some n" for j n
  proof (cases "j = k")
    case False
    then have j: "active s j = Some n" using that assms(5) by simp
    then have "pos j \<noteq> pos k" using inj_onD [OF pos(1), of j k] False assms(2) by auto
    then show ?thesis using pos(2) [OF j] by simp
  qed (use that k assms(5) in simp)
  then have "follows s' (w, ts[pos k := m'])" using pos(1) dom assms(4) by (auto simp: follows_def)
  moreover have "system_step call p (v, ts) (w, ts[pos k := m'])"
    using system_step.access [OF k(1)] k(2) assms(3) pos(3) by simp
  ultimately show thesis using that by blast
qed

lemma follows_drop:
  assumes "follows s (v, ts)" "shared s' = shared s" "active s' \<subseteq>\<^sub>m active s"
  shows "follows s' (v, ts)"
proof -
  obtain pos where pos: "inj_on pos (dom (active s))"
    "\<And>k m. active s k = Some m \<Longrightarrow> pos k < length ts \<and> ts ! pos k = m" "v = shared s"
    using assms(1) by (auto simp: follows_def)
  have sub: "active s k = Some m" if "active s' k = Some m" for k m
    using that assms(3) by (metis domI map_le_def)
  then have "dom (active s') \<subseteq> dom (active s)" by auto
  then have "inj_on pos (dom (active s'))" by (rule inj_on_subset [OF pos(1)])
  then show ?thesis using pos(2,3) sub assms(2) by (auto simp: follows_def)
qed

lemma active_hands:
  assumes "map in_hand (crew g) = map in_hand (crew (site s))"
  shows "active (s\<lparr>site := g\<rparr>) = active s"
proof -
  have len: "length (crew g) = length (crew (site s))" using assms by (metis length_map)
  then have "in_hand (crew g ! i) = in_hand (crew (site s) ! i)" if "i < length (crew g)" for i
    using assms that by (metis nth_map)
  then show ?thesis using len by (auto simp: active_def fun_eq_iff split: option.split)
qed

text \<open>Every step of the whole is a step, or none, of the interleaved handlers.\<close>

lemma whole_follows:
  assumes step: "whole_step call p s s'" and f: "follows s (v, ts)"
  shows "\<exists>c. rtranclp (system_step call p) (v, ts) c \<and> follows s' c"
  using step
proof cases
  case (outside g)
  have "follows s' (v, ts)" by (rule follows_drop [OF f]) (use outside active_hands in \<open>simp_all add: map_le_def\<close>)
  then show ?thesis by blast
next
  case (take i u t)
  have "active s' = (active s)(Some i \<mapsto> handle p (snd t))" "active s (Some i) = None"
    using take by (auto simp: active_def fun_eq_iff nth_list_update split: option.split)
  from follows_spawn [OF f _ this] have "follows s' (v, ts @ [handle p (snd t)])" using take by simp
  then show ?thesis using system_step.event by blast
next
  case (access i m w)
  have "active s (Some i) = Some (programs s i)" using access by (simp add: active_def)
  moreover have "active s' = (active s)(Some i \<mapsto> m)"
    using access by (auto simp: active_def fun_eq_iff split: option.split)
  ultimately obtain ts' where "system_step call p (v, ts) (w, ts')" "follows s' (w, ts')"
    using follows_access [OF f _ access(4), of "Some i" s'] access(1) by auto
  then show ?thesis by blast
next
  case (finish i u)
  have "in_hand u = []"
    using finish(3,5) by (auto simp: worker_step_def in_hand_def split: WorkerThread.splits)
  then have "active s' \<subseteq>\<^sub>m active s"
    using finish by (auto simp: active_def map_le_def nth_list_update split: option.splits)
  then have "follows s' (v, ts)" using follows_drop [OF f] finish by simp
  then show ?thesis by blast
next
  case (network u)
  have "active s' = active s" using network by (auto simp: active_def fun_eq_iff split: option.split)
  then have "follows s' (v\<lparr>up := u\<rparr>, ts)" using f network by (simp add: follows_def)
  then show ?thesis using system_step.network by blast
next
  case (scan th w)
  show ?thesis
  proof (cases "scanner s")
    case LoopSleep
    then have "active s' = (active s)(None \<mapsto> delivery_scan p)" "active s None = None" "shared s' = shared s"
      using scan by (auto simp: active_def fun_eq_iff split: option.split)
    then have "follows s' (v, ts @ [delivery_scan p])" using follows_spawn [OF f] by blast
    then show ?thesis using system_step.scan by blast
  next
    case (LoopScan m)
    have act: "active s None = Some m" using LoopScan by (simp add: active_def)
    show ?thesis
    proof (cases "proc_step call m (shared s)")
      case None
      then have "active s' \<subseteq>\<^sub>m active s" "shared s' = shared s"
        using scan LoopScan by (auto simp: active_def map_le_def split: option.splits)
      then show ?thesis using follows_drop [OF f] by blast
    next
      case (Some r)
      obtain m' w' where r: "r = (m', w')" by (cases r)
      then have "active s' = (active s)(None \<mapsto> m')" "shared s' = w'"
        using scan LoopScan Some by (auto simp: active_def fun_eq_iff split: option.split)
      then obtain ts' where "system_step call p (v, ts) (w', ts')" "follows s' (w', ts')"
        using follows_access [OF f act] Some r by metis
      then show ?thesis by blast
    qed
  next
    case LoopCheck
    then have "active s' = active s" "shared s' = shared s"
      using scan by (auto simp: active_def fun_eq_iff split: option.split)
    then have "follows s' (v, ts)" using f by (simp add: follows_def)
    then show ?thesis by blast
  qed (use scan in simp)
qed


lemma whole_run:
  assumes "rtranclp (whole_step call p) (begin_server (new_ChatServer port_no threads out) w) s"
  shows "server_reachable p (site s)" "\<exists>c. rtranclp (system_step call p) (w, []) c \<and> follows s c"
proof -
  have "server_reachable p (site s) \<and> (\<exists>c. rtranclp (system_step call p) (w, []) c \<and> follows s c)"
    using assms
  proof (induction rule: rtranclp_induct)
    case base
    have "active (begin_server (new_ChatServer port_no threads out) w) = Map.empty"
      by (auto simp: begin_server_def active_def fun_eq_iff start_server_def new_ChatServer_def new_ServerEventDispatcher_def
          start_dispatcher_def start_def new_ShardedThreadPool_def in_hand_def split: option.split)
    then have "follows (begin_server (new_ChatServer port_no threads out) w) (w, [])"
      by (simp add: follows_def begin_server_def)
    then show ?case using server_reachable.init by (auto simp: begin_server_def)
  next
    case (step s s')
    then obtain c where c: "rtranclp (system_step call p) (w, []) c" "follows s c" by blast
    then obtain c' where "rtranclp (system_step call p) c c'" "follows s' c'"
      using whole_follows [OF step.hyps(2), of "fst c" "snd c"] by auto
    moreover have "server_reachable p (site s')"
      using whole_site [OF step.hyps(2)] step.IH server_reachable.step by auto
    ultimately show ?case using c(1) by (meson rtranclp_trans)
  qed
  then show "server_reachable p (site s)" "\<exists>c. rtranclp (system_step call p) (w, []) c \<and> follows s c" by blast+
qed

section \<open>What a worker is executing\<close>

text \<open>\<open>m'\<close> is what is left of \<open>m\<close> after some of its accesses.\<close>

definition rest_of :: "command_table \<Rightarrow> unit proc \<Rightarrow> unit proc \<Rightarrow> bool" where
  "rest_of call = rtranclp (\<lambda>m m'. \<exists>w w'. proc_step call m w = Some (m', w'))"

lemma rest_of_step: "rest_of call m m' \<Longrightarrow> proc_step call m' w = Some (m'', w') \<Longrightarrow> rest_of call m m''"
  unfolding rest_of_def by (rule rtranclp.rtrancl_into_rtrancl) blast+

definition hands_ok :: "command_table \<Rightarrow> platform \<Rightarrow> WholeServer \<Rightarrow> bool" where
  "hands_ok call p s \<longleftrightarrow> (\<forall>i < length (crew (site s)). \<forall>t. in_hand (crew (site s) ! i) = [t] \<longrightarrow>
     rest_of call (handle p (snd t)) (programs s i))"

lemma hands_ok_step:
  assumes "whole_step call p s s'" "hands_ok call p s"
  shows "hands_ok call p s'"
  using assms(1)
proof cases
  case (outside g)
  have len: "length (crew g) = length (crew (site s))" using outside(3) by (metis length_map)
  then have "in_hand (crew g ! i) = in_hand (crew (site s) ! i)" if "i < length (crew g)" for i
    using outside(3) that by (metis nth_map)
  then show ?thesis using assms(2) outside(1) len by (simp add: hands_ok_def)
next
  case (take i u t)
  then show ?thesis using assms(2) by (auto simp: hands_ok_def nth_list_update rest_of_def)
next
  case (access i m w)
  then show ?thesis using assms(2) rest_of_step [OF _ access(4)] by (auto simp: hands_ok_def)
next
  case (finish i u)
  have "in_hand u = []"
    using finish(3,5) by (auto simp: worker_step_def in_hand_def split: WorkerThread.splits)
  then show ?thesis using assms(2) finish(1,2) by (auto simp: hands_ok_def nth_list_update split: if_splits)
qed (use assms(2) in \<open>auto simp: hands_ok_def\<close>)

lemma whole_hands:
  assumes "rtranclp (whole_step call p) (begin_server (new_ChatServer port_no threads out) w) s"
  shows "hands_ok call p s"
  using assms
proof (induction rule: rtranclp_induct)
  case base
  show ?case
    by (simp add: hands_ok_def begin_server_def start_server_def new_ChatServer_def new_ServerEventDispatcher_def
        start_dispatcher_def start_def new_ShardedThreadPool_def in_hand_def)
qed (rule hands_ok_step)



section \<open>The property of the whole\<close>

text \<open>
  C3: the whole server, from its start with any well-formed store and session tables, under any interleaving of
  callbacks, queue operations, the accesses of eight workers and of the delivery thread, lost Redis commands and connections going up and down.
  At every moment: (1) while the server is not stopping, the events of a connection that its one worker has executed, is
  executing and has queued, and those still to be enqueued, are one event for each envelope of its byte stream, in order, and then its closing; (2) what a worker
  executes is what is left of the handler of the event it has in hand; (3) Redis represents a well-formed ledger that has kept every
  message, and every frame that was sent is honest by it: an acknowledged message is stored, and a pushed one is
  stored as the push shows it.
\<close>

theorem whole_server:
  assumes "redis_server call" "protobuf_ok p" "store_ok w L" "user_inv (users w)" "within n L"
    and run: "rtranclp (whole_step call p) (begin_server (new_ChatServer port_no threads out) w) s"
    and bound: "n + (requests (shared s) - requests w) + 1 < 10 ^ 14"
  shows "(\<forall>c bytes. \<not> disp_stopped (disp (site s)) \<longrightarrow> stream (site s) c = Some bytes \<longrightarrow>
      (\<exists>es. owed p bytes es \<and>
        map snd (filter (\<lambda>t. fst t = c) (worker_log (crew (site s) ! shard_of kBusinessWorkerCount c))) @
          map call_event (io (site s) c) =
        map call_event (map (EnqueueEnvelope c) es @ closing (site s) c))) \<and>
    (\<forall>i < length (crew (site s)). \<forall>t. in_hand (crew (site s) ! i) = [t] \<longrightarrow>
      i = shard_of kBusinessWorkerCount (fst t) \<and> rest_of call (handle p (snd t)) (programs s i)) \<and>
    (\<exists>L' new. store_ok (shared s) L' \<and> user_inv (users (shared s)) \<and> kept L L' \<and> outbox (shared s) = outbox w @ new \<and>
      (\<forall>(c, bytes) \<in> set new. honest_frame p (facts L') bytes))"
proof (intro conjI allI impI)
  have inv: "server_inv p (site s)" by (rule server_reachable_inv [OF whole_run(1) [OF run] assms(2)])
  then have pool: "pool_reachable kBusinessWorkerCount (pool (disp (site s)))" by (simp add: server_inv_def)
  have pos: "0 < kBusinessWorkerCount" by (simp add: kBusinessWorkerCount_def)
  {
    fix c bytes
    assume "\<not> disp_stopped (disp (site s))" "stream (site s) c = Some bytes"
    moreover have "conn_inv p (site s) c" using inv by (simp add: server_inv_def)
    moreover have "accepted_of (site s) c =
        map snd (filter (\<lambda>t. fst t = c) (worker_log (crew (site s) ! shard_of kBusinessWorkerCount c)))"
      using pool pos by (simp add: accepted_of_def worker_log_key)
    ultimately show "\<exists>es. owed p bytes es \<and>
        map snd (filter (\<lambda>t. fst t = c) (worker_log (crew (site s) ! shard_of kBusinessWorkerCount c))) @
          map call_event (io (site s) c) =
        map call_event (map (EnqueueEnvelope c) es @ closing (site s) c)"
      by (auto simp: conn_inv_def)
  }
  {
    fix i t
    assume i: "i < length (crew (site s))" and t: "in_hand (crew (site s) ! i) = [t]"
    have "t \<in> set (worker_log (crew (site s) ! i))" using t by (simp add: worker_log_def)
    then show "i = shard_of kBusinessWorkerCount (fst t)"
      using reachable_pool_inv [OF pool] i by (auto simp: pool_inv_def)
    show "rest_of call (handle p (snd t)) (programs s i)" using whole_hands [OF run] i t unfolding hands_ok_def by blast
  }
  obtain c where c: "rtranclp (system_step call p) (w, []) c" "fst c = shared s"
    using whole_run(2) [OF run] by (auto simp: follows_def)
  obtain L' where "grown p n L w L' (shared s)"
    using redis_server.system_invariant [OF assms(1,3-5) c(1)] bound c(2) by auto
  then show "\<exists>L' new. store_ok (shared s) L' \<and> user_inv (users (shared s)) \<and> kept L L' \<and> outbox (shared s) = outbox w @ new \<and>
      (\<forall>(c, bytes) \<in> set new. honest_frame p (facts L') bytes)"
    unfolding grown_def by blast
qed


text \<open>The delivery thread has begun a scan while a connection sends two frames.\<close>

lemma whole_callback: "server_step p (site s) g \<Longrightarrow> disp g = disp (site s) \<Longrightarrow> whole_step call p s (s\<lparr>site := g\<rparr>)"
  by (rule whole_step.outside) simp_all

lemma demo_whole:
  obtains s where "rtranclp (whole_step call p) (main_service w) s"
    "shared s = w" "\<not> disp_stopped (disp (site s))" "stream (site s) 7 = Some bytes" "scanner s = LoopSleep"
proof -
  let ?s0 = "main_service w" and ?step = "whole_step call p"
  let ?s1 = "?s0\<lparr>scanner := LoopSleep, shared := w\<rparr>"
  have 1: "?step ?s0 ?s1"
    by (rule whole_step.scan) (simp add: main_service_def begin_server_def start_server_def new_ChatServer_def start_dispatcher_def
        new_ServerEventDispatcher_def)
  obtain calls r where c: "onConnection True 7 (server (site ?s1)) = (calls, r)" by (meson surj_pair)
  let ?g2 = "(site ?s1)\<lparr>server := r, io := (io (site ?s1))(7 := calls), stream := (stream (site ?s1))(7 \<mapsto> [])\<rparr>"
  have g2: "server_step p (site ?s1) ?g2"
    by (rule server_step.connect [OF _ c]) (simp add: main_service_def begin_server_def start_server_def)
  obtain sh calls' r' where m: "onMessage p 7 bytes (server ?g2) = (sh, calls', r')" by (meson prod_cases3)
  let ?g3 = "?g2\<lparr>server := r', io := (io ?g2)(7 := calls'), stream := (stream ?g2)(7 \<mapsto> [] @ bytes)\<rparr>"
  have g3: "server_step p ?g2 ?g3"
    by (rule server_step.message [OF _ _ _ m]) (use c in \<open>auto simp: main_service_def begin_server_def start_server_def onConnection_def\<close>)
  have d: "dispatcher r = disp (site ?s1)" "dispatcher r' = dispatcher r"
    using c m by (auto simp: onConnection_def onMessage_def Let_def split: option.splits prod.splits if_splits)
  have 2: "?step ?s1 (?s1\<lparr>site := ?g2\<rparr>)" using d by (intro whole_callback [OF g2]) simp
  have 3: "?step (?s1\<lparr>site := ?g2\<rparr>) (?s1\<lparr>site := ?g2\<rparr>\<lparr>site := ?g3\<rparr>)"
    by (rule whole_callback) (use g3 d in simp_all)
  let ?s3 = "?s1\<lparr>site := ?g2\<rparr>\<lparr>site := ?g3\<rparr>"
  have run: "rtranclp ?step ?s0 ?s3" using 1 2 3 by (meson rtranclp.rtrancl_into_rtrancl rtranclp.rtrancl_refl)
  have up: "\<not> disp_stopped (disp (site ?s3))"
    using d by (simp add: main_service_def begin_server_def start_server_def new_ChatServer_def start_dispatcher_def new_ServerEventDispatcher_def)
  show thesis by (rule that [OF run _ up]) simp_all
qed

theorem whole_server_witness:
  "\<exists>s es L'. rtranclp (whole_step redis_call demo_platform) (main_service (demo_login 0 1000)) s \<and>
     scanner s = LoopSleep \<and> owed demo_platform (Encode demo_platform (demo_ack 2)) es \<and>
     map snd (filter (\<lambda>t. fst t = 7) (worker_log (crew (site s) ! shard_of kBusinessWorkerCount 7))) @ map call_event (io (site s) 7) =
     map call_event (map (EnqueueEnvelope 7) es @ closing (site s) 7) \<and> store_ok (shared s) L' \<and> kept (counted_ledger 0) L'"
proof -
  let ?w = "demo_login 0 1000"
  obtain s where s: "rtranclp (whole_step redis_call demo_platform) (main_service ?w) s"
    "shared s = ?w" "\<not> disp_stopped (disp (site s))" "stream (site s) 7 = Some (Encode demo_platform (demo_ack 2))"
    "scanner s = LoopSleep" by (rule demo_whole)
  have ok: "store_ok ?w (counted_ledger 0)" by (rule demo_login_ok) simp_all
  have inv: "user_inv (users ?w)" unfolding demo_login_def by (simp add: user_inv_history)
  have n: "within 0 (counted_ledger 0)" by (simp add: within_def counted_ledger_def)
  have bound: "0 + (requests (shared s) - requests ?w) + 1 < 10 ^ 14" using s(2) by simp
  note whole = whole_server [OF reference.redis_server_axioms demo_platform_ok ok inv n s(1) [unfolded main_service_def] bound]
  obtain es where es: "owed demo_platform (Encode demo_platform (demo_ack 2)) es"
    "map snd (filter (\<lambda>t. fst t = 7) (worker_log (crew (site s) ! shard_of kBusinessWorkerCount 7))) @ map call_event (io (site s) 7) =
     map call_event (map (EnqueueEnvelope 7) es @ closing (site s) 7)"
    using conjunct1 [OF whole] s(3,4) by blast
  obtain L' where "store_ok (shared s) L'" "kept (counted_ledger 0) L'"
    using conjunct2 [OF conjunct2 [OF whole]] by blast
  then show ?thesis using s(1,5) es by blast
qed

end
