(* ===== verification/Pool_Progress.thy ===== *)
theory Pool_Progress
  imports Thread_Pool
begin

text \<open>
  No wake-up of a task is lost: \<^verbatim>\<open>submit\<close> adds to a queue under the worker's mutex, so a worker that blocks has an
  empty queue, and when one is filled while it blocks, a notification is on its way.  Everything that was accepted can therefore still
  be executed, without the help of any further call.
\<close>

definition wake_inv :: "'a task ShardedThreadPool \<Rightarrow> bool" where
  "wake_inv p \<longleftrightarrow> (\<forall>i < length (workers p). tasks (workers p ! i) \<noteq> [] \<longrightarrow>
     thread (workers p ! i) \<noteq> Checked \<and> (thread (workers p ! i) = Waiting \<longrightarrow> i \<in> set (unnotified p)))"

lemma thread_wake [simp]: "thread (wake w) = (if thread w = Waiting then AtLock else thread w)"
  by (simp add: wake_def)

lemma wake_inv_submit:
  assumes "wake_inv p" "submit t p = Some (ok, p')"
  shows "wake_inv p'"
  using assms by (auto simp: wake_inv_def submit_def Let_def workers_upd_worker split: if_splits)

lemma wake_inv_worker:
  assumes "wake_inv p" "i < length (workers p)" "worker_step b (workers p ! i) = Some w"
  shows "wake_inv (p\<lparr>workers := (workers p)[i := w]\<rparr>)"
  using assms
  by (auto simp: wake_inv_def nth_list_update worker_step_def split: WorkerThread.splits list.splits if_splits)

lemma wake_inv_stop:
  assumes "wake_inv p" "stop_step p = Some p'"
  shows "wake_inv p'"
  using assms by (auto simp: wake_inv_def stop_step_def workers_upd_worker split: StopCall.splits if_splits)

lemma wake_inv_step: "pool_step p p' \<Longrightarrow> wake_inv p \<Longrightarrow> wake_inv p'"
proof (induction rule: pool_step.induct)
  case (start p)
  then show ?case by (simp add: wake_inv_def start_def)
next
  case (notify_one i p)
  then show ?case by (auto simp: wake_inv_def workers_upd_worker)
qed (rule wake_inv_submit wake_inv_worker wake_inv_stop; assumption)+

lemma reachable_wake_inv: "pool_reachable n p \<Longrightarrow> wake_inv p"
proof (induction rule: pool_reachable.induct)
  case init
  show ?case by (simp add: wake_inv_def new_ShardedThreadPool_def new_Worker_def)
next
  case (spurious p i)
  then show ?case by (auto simp: wake_inv_def workers_upd_worker)
qed (rule wake_inv_step)

section \<open>Draining a worker\<close>

text \<open>Steps that only carry out what was accepted: nobody submits, starts or stops.\<close>

definition quiet_step :: "'a task ShardedThreadPool \<Rightarrow> 'a task ShardedThreadPool \<Rightarrow> bool" where
  "quiet_step p p' \<longleftrightarrow> pool_step p p' \<and> accepted p' = accepted p \<and> stopped p' = stopped p \<and> stop_call p' = stop_call p"

lemma quiet_reachable: "rtranclp quiet_step p p' \<Longrightarrow> pool_reachable n p \<Longrightarrow> pool_reachable n p' \<and> accepted p' = accepted p"
  by (induction rule: rtranclp_induct) (auto simp: quiet_step_def intro: pool_reachable.step)

lemma quiet_worker:
  assumes "i < length (workers p)" "worker_step (stopped p) (workers p ! i) = Some w"
  shows "quiet_step p (p\<lparr>workers := (workers p)[i := w]\<rparr>)"
  using pool_step.worker [OF assms] by (simp add: quiet_step_def)

lemma quiet_notify:
  assumes "unnotified p = i # is"
  shows "quiet_step p ((upd_worker i wake p)\<lparr>unnotified := is\<rparr>)"
  using pool_step.notify_one [of i p] assms by (simp add: quiet_step_def)

definition asleep :: "'t Worker \<Rightarrow> bool" where
  "asleep w \<longleftrightarrow> thread w = Waiting \<and> tasks w \<noteq> []"

text \<open>The notifications on their way wake the worker up.\<close>

lemma woken:
  assumes "pool_reachable n p" "i < n"
  shows "\<exists>p'. rtranclp quiet_step p p' \<and> \<not> asleep (workers p' ! i)"
  using assms
proof (induction "unnotified p" arbitrary: p)
  case Nil
  have "length (workers p) = n" using reachable_pool_inv [OF Nil.prems(1)] by (simp add: pool_inv_def)
  then have "\<not> asleep (workers p ! i)"
    using reachable_wake_inv [OF Nil.prems(1)] Nil.hyps Nil.prems(2) by (auto simp: wake_inv_def asleep_def)
  then show ?case by blast
next
  case (Cons j js)
  let ?p = "(upd_worker j wake p)\<lparr>unnotified := js\<rparr>"
  have q: "quiet_step p ?p" using Cons.hyps(2) by (metis quiet_notify)
  then have "pool_reachable n ?p" using quiet_reachable Cons.prems(1) by blast
  then obtain p' where "rtranclp quiet_step ?p p'" "\<not> asleep (workers p' ! i)"
    using Cons.hyps(1) [of ?p] Cons.prems(2) by auto
  then show ?case using q by (meson converse_rtranclp_into_rtranclp)
qed

text \<open>A worker that is awake executes what it has.\<close>

definition left_to_do :: "'t Worker \<Rightarrow> nat" where
  "left_to_do w = 2 * length (tasks w) + length (in_hand w)"

lemma awake_works:
  assumes "pool_reachable n p" "i < n" "\<not> asleep (workers p ! i)" "left_to_do (workers p ! i) \<noteq> 0"
  obtains w where "worker_step (stopped p) (workers p ! i) = Some w" "\<not> asleep w" "left_to_do w < left_to_do (workers p ! i)"
proof (cases "thread (workers p ! i)")
  case AtLock
  then obtain t ts where "tasks (workers p ! i) = t # ts" using assms(4) by (cases "tasks (workers p ! i)") (auto simp: left_to_do_def in_hand_def)
  then show thesis using AtLock by (intro that [of "(workers p ! i)\<lparr>tasks := ts, thread := Running t\<rparr>"])
      (simp_all add: worker_step_def asleep_def left_to_do_def in_hand_def)
next
  case (Running t)
  then show thesis
    by (intro that [of "(workers p ! i)\<lparr>thread := AtLock, finished := finished (workers p ! i) @ [t]\<rparr>"])
      (simp_all add: worker_step_def asleep_def left_to_do_def in_hand_def)
next
  case Checked
  have "length (workers p) = n" using reachable_pool_inv [OF assms(1)] by (simp add: pool_inv_def)
  then show thesis using reachable_wake_inv [OF assms(1)] Checked assms(2,4) by (auto simp: wake_inv_def left_to_do_def in_hand_def)
next
  case Waiting
  then show thesis using assms(3,4) by (auto simp: asleep_def left_to_do_def in_hand_def)
qed (use reachable_pool_inv [OF assms(1)] assms(2,4) in \<open>auto simp: pool_inv_def halted_def left_to_do_def in_hand_def\<close>)

lemma drained:
  assumes "pool_reachable n p" "i < n" "\<not> asleep (workers p ! i)"
  shows "\<exists>p'. rtranclp quiet_step p p' \<and> left_to_do (workers p' ! i) = 0"
  using assms
proof (induction "left_to_do (workers p ! i)" arbitrary: p rule: less_induct)
  case less
  show ?case
  proof (cases "left_to_do (workers p ! i) = 0")
    case False
    obtain w where w: "worker_step (stopped p) (workers p ! i) = Some w" "\<not> asleep w" "left_to_do w < left_to_do (workers p ! i)"
      by (rule awake_works [OF less.prems False])
    have n: "length (workers p) = n" using reachable_pool_inv [OF less.prems(1)] by (simp add: pool_inv_def)
    let ?p = "p\<lparr>workers := (workers p)[i := w]\<rparr>"
    have q: "quiet_step p ?p" using quiet_worker w(1) n less.prems(2) by blast
    then have "pool_reachable n ?p" using quiet_reachable less.prems(1) by blast
    then obtain p' where "rtranclp quiet_step ?p p'" "left_to_do (workers p' ! i) = 0"
      using less.hyps [of ?p] w(2,3) n less.prems(2) by auto
    then show ?thesis using q by (meson converse_rtranclp_into_rtranclp)
  qed blast
qed

text \<open>
  C16: no accepted task can get stuck.  From every reachable state, whatever has happened before, the notifications that are
  on their way and the worker itself can finish all tasks that were accepted for the worker, in the order of
  their submission; no further submission or other call is needed to wake it.
\<close>

theorem pool_progress:
  assumes "pool_reachable n p" "i < n"
  shows "\<exists>p'. rtranclp quiet_step p p' \<and>
    finished (workers p' ! i) = filter (\<lambda>t. shard_of n (fst t) = i) (accepted p)"
proof -
  obtain p1 where p1: "rtranclp quiet_step p p1" "\<not> asleep (workers p1 ! i)" using woken [OF assms] by blast
  then have "pool_reachable n p1" using quiet_reachable assms(1) by blast
  then obtain p2 where p2: "rtranclp quiet_step p1 p2" "left_to_do (workers p2 ! i) = 0" using drained assms(2) p1(2) by blast
  have run: "rtranclp quiet_step p p2" using p1(1) p2(1) by (rule rtranclp_trans)
  then have "pool_inv n p2" "accepted p2 = accepted p" using quiet_reachable assms(1) reachable_pool_inv by blast+
  then have "worker_log (workers p2 ! i) = filter (\<lambda>t. shard_of n (fst t) = i) (accepted p)"
    using assms(2) by (simp add: pool_inv_def)
  then show ?thesis using run p2(2) by (auto simp: worker_log_def left_to_do_def)
qed

theorem pool_progress_witness:
  "\<exists>p' :: string task ShardedThreadPool. finished (workers p' ! 0) = [(7, ''a''), (7, ''b'')]"
  using pool_progress [OF run_two_tasks, of 0] by (auto simp: shard_of_def)

end
