(* ===== verification/Perf_Stats.thy ===== *)
theory Perf_Stats
  imports Prelude
begin

text \<open>
  \<^verbatim>\<open>server/src/PerfStats.cpp\<close>: the counters of the time spent per stage.  Any number of threads record at once; each
  access of an atomic is one step.  All accesses are relaxed, so a load may return any value that the
  atomic ever had, while an exchange acts on its latest one; and a weak exchange may fail for no reason.
  The log line is in \<open>Perf_Report\<close>.
\<close>

section \<open>State\<close>

datatype PerfStage = HandleChatTotal | HandleChatCreate | HandleChatDeliver | HandleChatSendAck | HandleAckTotal
  | HandleAckMarkAcked | RedisCreateLockWait | RedisCreateEval | RedisMarkDeliveredLockWait | RedisMarkDeliveredEval
  | RedisMarkAckedLockWait | RedisMarkAckedEval

definition StageCount :: nat where "StageCount = 12"

definition StageIndex :: "PerfStage \<Rightarrow> nat" where
  "StageIndex stage = (case stage of
     HandleChatTotal \<Rightarrow> 0 | HandleChatCreate \<Rightarrow> 1 | HandleChatDeliver \<Rightarrow> 2 | HandleChatSendAck \<Rightarrow> 3 | HandleAckTotal \<Rightarrow> 4
   | HandleAckMarkAcked \<Rightarrow> 5 | RedisCreateLockWait \<Rightarrow> 6 | RedisCreateEval \<Rightarrow> 7 | RedisMarkDeliveredLockWait \<Rightarrow> 8
   | RedisMarkDeliveredEval \<Rightarrow> 9 | RedisMarkAckedLockWait \<Rightarrow> 10 | RedisMarkAckedEval \<Rightarrow> 11)"

text \<open>\<open>max_writes\<close> is the modification order of \<^verbatim>\<open>max_us\<close>, whose last element is its value.\<close>

record StageCounter =
  stage_count :: u64
  total_us :: u64
  max_writes :: "u64 list"

definition zero_StageCounter :: StageCounter where
  "zero_StageCounter = \<lparr>stage_count = 0, total_us = 0, max_writes = [0]\<rparr>"

type_synonym counters = "StageCounter list"

definition g_counters :: counters where
  "g_counters = replicate StageCount zero_StageCounter"

record StageSnapshot =
  snap_count :: u64
  snap_total_us :: u64
  snap_max_us :: u64

text \<open>A snapshot that no recorder disturbs.\<close>

definition Snapshot :: "PerfStage \<Rightarrow> counters \<Rightarrow> StageSnapshot" where
  "Snapshot stage cs = (let counter = cs ! StageIndex stage in
     \<lparr>snap_count = stage_count counter, snap_total_us = total_us counter, snap_max_us = last (max_writes counter)\<rparr>)"

text \<open>The value of the environment variable, if it is set.\<close>

definition Enabled :: "string option \<Rightarrow> bool" where
  "Enabled value = (case value of None \<Rightarrow> True | Some s \<Rightarrow> s = [] \<or> hd s \<noteq> CHR ''0'')"

section \<open>Recording\<close>

text \<open>The time since \<open>start_ns\<close>, from two readings of the clock in nanoseconds.\<close>

definition PerfElapsedUs :: "int \<Rightarrow> int \<Rightarrow> u64" where
  "PerfElapsedUs start_ns now_ns = word_of_int ((now_ns - start_ns) div 1000)"

text \<open>Where a call of \<^verbatim>\<open>Record\<close> stands: before each of its accesses, and at its end.\<close>

datatype recorder =
    AddCount PerfStage u64
  | AddTotal PerfStage u64
  | LoadMax PerfStage u64
  | TryMax PerfStage u64 u64
  | Recorded PerfStage u64

definition Record_call :: "string option \<Rightarrow> PerfStage \<Rightarrow> u64 \<Rightarrow> recorder option" where
  "Record_call value stage elapsed_us = (if \<not> Enabled value then None else Some (AddCount stage elapsed_us))"

text \<open>The condition of the loop of \<^verbatim>\<open>RecordMax\<close>.\<close>

definition RecordMax :: "PerfStage \<Rightarrow> u64 \<Rightarrow> u64 \<Rightarrow> recorder" where
  "RecordMax stage elapsed_us old = (if elapsed_us > old then TryMax stage elapsed_us old else Recorded stage elapsed_us)"

definition at_stage :: "PerfStage \<Rightarrow> (StageCounter \<Rightarrow> StageCounter) \<Rightarrow> counters \<Rightarrow> counters" where
  "at_stage stage f cs = cs[StageIndex stage := f (cs ! StageIndex stage)]"

inductive record_step :: "counters \<times> recorder \<Rightarrow> counters \<times> recorder \<Rightarrow> bool" where
  add_count: "record_step (cs, AddCount stage us)
    (at_stage stage (\<lambda>c. c\<lparr>stage_count := stage_count c + 1\<rparr>) cs, AddTotal stage us)"
| add_total: "record_step (cs, AddTotal stage us)
    (at_stage stage (\<lambda>c. c\<lparr>total_us := total_us c + us\<rparr>) cs, LoadMax stage us)"
| load_max: "old \<in> set (max_writes (cs ! StageIndex stage)) \<Longrightarrow>
    record_step (cs, LoadMax stage us) (cs, RecordMax stage us old)"
| exchange: "last (max_writes (cs ! StageIndex stage)) = old \<Longrightarrow> record_step (cs, TryMax stage us old)
    (at_stage stage (\<lambda>c. c\<lparr>max_writes := max_writes c @ [us]\<rparr>) cs, Recorded stage us)"
| exchange_fails: "old' \<in> set (max_writes (cs ! StageIndex stage)) \<Longrightarrow>
    record_step (cs, TryMax stage us old) (cs, RecordMax stage us old')"

inductive perf_reachable :: "string option \<Rightarrow> counters \<Rightarrow> recorder list \<Rightarrow> bool" for env where
  perf_init: "perf_reachable env g_counters []"
| perf_call: "perf_reachable env cs rs \<Longrightarrow> Record_call env stage us = Some r \<Longrightarrow> perf_reachable env cs (rs @ [r])"
| perf_access: "perf_reachable env cs rs \<Longrightarrow> i < length rs \<Longrightarrow> record_step (cs, rs ! i) (cs', r) \<Longrightarrow>
    perf_reachable env cs' (rs[i := r])"

section \<open>The counters add up\<close>

lemma StageIndex_less [simp]: "StageIndex stage < StageCount"
  by (cases stage) (simp_all add: StageIndex_def StageCount_def)

lemma StageIndex_inject [simp]: "StageIndex s = StageIndex s' \<longleftrightarrow> s = s'"
  by (cases s; cases s') (simp_all add: StageIndex_def)

lemma at_stage_nth [simp]:
  assumes "length cs = StageCount"
  shows "at_stage s f cs ! StageIndex t = (if s = t then f (cs ! StageIndex t) else cs ! StageIndex t)"
  using assms by (simp add: at_stage_def nth_list_update)

lemma length_at_stage [simp]: "length (at_stage s f cs) = length cs"
  by (simp add: at_stage_def)

text \<open>What a recorder has added so far, to a number that is counted per stage.\<close>

fun stage_of :: "recorder \<Rightarrow> PerfStage" where
  "stage_of (AddCount s us) = s" | "stage_of (AddTotal s us) = s" | "stage_of (LoadMax s us) = s"
| "stage_of (TryMax s us old) = s" | "stage_of (Recorded s us) = s"

fun elapsed_of :: "recorder \<Rightarrow> u64" where
  "elapsed_of (AddCount s us) = us" | "elapsed_of (AddTotal s us) = us" | "elapsed_of (LoadMax s us) = us"
| "elapsed_of (TryMax s us old) = us" | "elapsed_of (Recorded s us) = us"

fun counted :: "recorder \<Rightarrow> u64" where
  "counted (AddCount s us) = 0" | "counted r = 1"

fun totalled :: "recorder \<Rightarrow> u64" where
  "totalled (AddCount s us) = 0" | "totalled (AddTotal s us) = 0" | "totalled r = elapsed_of r"

definition tally :: "(recorder \<Rightarrow> u64) \<Rightarrow> PerfStage \<Rightarrow> recorder list \<Rightarrow> u64" where
  "tally f s rs = sum_list (map f (filter (\<lambda>r. stage_of r = s) rs))"

lemma tally_append [simp]: "tally f s (rs @ rs') = tally f s rs + tally f s rs'"
  by (simp add: tally_def)

lemma tally_one [simp]: "tally f s [r] = (if stage_of r = s then f r else 0)"
  by (simp add: tally_def)

lemma tally_update:
  assumes "i < length rs" "stage_of r = stage_of (rs ! i)"
  shows "tally f s (rs[i := r]) = tally f s rs + (if stage_of r = s then f r - f (rs ! i) else 0)"
proof -
  have "tally f s (take i rs @ rs ! i # drop (Suc i) rs) = tally f s rs" using assms(1) by (simp add: id_take_nth_drop [symmetric])
  then show ?thesis using assms by (auto simp: upd_conv_take_nth_drop tally_def algebra_simps)
qed

definition stage_inv :: "counters \<Rightarrow> recorder list \<Rightarrow> PerfStage \<Rightarrow> bool" where
  "stage_inv cs rs s \<longleftrightarrow> (let c = cs ! StageIndex s; rs' = filter (\<lambda>r. stage_of r = s) rs in
     stage_count c = tally counted s rs \<and> total_us c = tally totalled s rs \<and>
     max_writes c \<noteq> [] \<and> sorted (max_writes c) \<and> set (max_writes c) \<subseteq> insert 0 (elapsed_of ` set rs') \<and>
     (\<forall>us. Recorded s us \<in> set rs \<longrightarrow> us \<le> last (max_writes c)) \<and>
     (\<forall>us old. TryMax s us old \<in> set rs \<longrightarrow> old < us))"


lemma stage_invD:
  assumes "stage_inv cs rs s"
  shows "stage_count (cs ! StageIndex s) = tally counted s rs" "total_us (cs ! StageIndex s) = tally totalled s rs"
    "max_writes (cs ! StageIndex s) \<noteq> []" "sorted (max_writes (cs ! StageIndex s))"
    "set (max_writes (cs ! StageIndex s)) \<subseteq> insert 0 (elapsed_of ` {r \<in> set rs. stage_of r = s})"
    "Recorded s us \<in> set rs \<Longrightarrow> us \<le> last (max_writes (cs ! StageIndex s))"
    "TryMax s us old \<in> set rs \<Longrightarrow> old < us"
  using assms by (auto simp: stage_inv_def Let_def)

lemma sorted_last: "sorted xs \<Longrightarrow> x \<in> set xs \<Longrightarrow> x \<le> last xs"
  by (induction xs) (auto split: if_splits)

lemma record_step_kept: "record_step (cs, r) (cs', r') \<Longrightarrow> stage_of r' = stage_of r \<and> elapsed_of r' = elapsed_of r \<and> length cs' = length cs"
  by (auto simp: RecordMax_def elim!: record_step.cases)

text \<open>The elapsed times of a stage's recorders do not change.\<close>

lemma elapsed_update:
  assumes "i < length rs" "stage_of r = stage_of (rs ! i)" "elapsed_of r = elapsed_of (rs ! i)"
  shows "elapsed_of ` {q \<in> set (rs[i := r]). stage_of q = s} = elapsed_of ` {q \<in> set rs. stage_of q = s}"
proof -
  have "map (\<lambda>q. (elapsed_of q, stage_of q)) (rs[i := r]) = map (\<lambda>q. (elapsed_of q, stage_of q)) rs"
    using assms by (simp add: map_update list_update_same_conv)
  then have eq: "(\<lambda>q. (elapsed_of q, stage_of q)) ` set (rs[i := r]) = (\<lambda>q. (elapsed_of q, stage_of q)) ` set rs"
    by (metis list.set_map)
  have "elapsed_of ` {q \<in> A. stage_of q = s} = fst ` {x \<in> (\<lambda>q. (elapsed_of q, stage_of q)) ` A. snd x = s}" for A
    by force
  then show ?thesis using eq by simp
qed

text \<open>A step of one recorder: the stage's maximum stays, or a greater value of the recorder's is written.\<close>

lemma stage_inv_update:
  assumes inv: "stage_inv cs rs s" and i: "i < length rs" and r: "stage_of r = stage_of (rs ! i)" "elapsed_of r = elapsed_of (rs ! i)"
    and c: "stage_count c = stage_count (cs ! StageIndex s) + (if stage_of r = s then counted r - counted (rs ! i) else 0)"
      "total_us c = total_us (cs ! StageIndex s) + (if stage_of r = s then totalled r - totalled (rs ! i) else 0)"
      "max_writes c = max_writes (cs ! StageIndex s) \<or> stage_of r = s \<and> last (max_writes (cs ! StageIndex s)) < elapsed_of r \<and>
        max_writes c = max_writes (cs ! StageIndex s) @ [elapsed_of r]"
    and fin: "\<And>us. r = Recorded s us \<Longrightarrow> us \<le> last (max_writes c)" and tries: "\<And>us old. r = TryMax s us old \<Longrightarrow> old < us"
    and cs': "cs' ! StageIndex s = c"
  shows "stage_inv cs' (rs[i := r]) s"
proof -
  note D = stage_invD [OF inv]
  have sub: "q = r \<or> q \<in> set rs" if "q \<in> set (rs[i := r])" for q using that set_update_subset_insert by fastforce
  have el: "elapsed_of ` {q \<in> set (rs[i := r]). stage_of q = s} = elapsed_of ` {q \<in> set rs. stage_of q = s}"
    by (rule elapsed_update [OF i r])
  have mem: "r \<in> set (rs[i := r])" using i by (rule set_update_memI)
  have le: "us \<le> last (max_writes c)" if "us \<le> last (max_writes (cs ! StageIndex s))" for us
    using that c(3) by auto
  have "sorted (max_writes c)" "max_writes c \<noteq> []"
    using c(3) D(3,4) by (auto simp: sorted_append intro: order_trans [OF sorted_last [OF D(4)] less_imp_le])
  moreover have "set (max_writes c) \<subseteq> insert 0 (elapsed_of ` {q \<in> set (rs[i := r]). stage_of q = s})"
    using c(3) D(5) mem unfolding el [symmetric] by auto
  moreover have "us \<le> last (max_writes c)" if "Recorded s us \<in> set (rs[i := r])" for us
    using sub [OF that] fin le D(6) by blast
  moreover have "old < us" if "TryMax s us old \<in> set (rs[i := r])" for us old
    using sub [OF that] tries D(7) by blast
  moreover have "stage_count c = tally counted s (rs[i := r])" "total_us c = tally totalled s (rs[i := r])"
    using c(1,2) D(1,2) tally_update [OF i r(1)] by simp_all
  ultimately show ?thesis by (simp add: stage_inv_def cs')
qed

lemma stage_inv_access:
  assumes inv: "stage_inv cs rs s" and len: "length cs = StageCount" and i: "i < length rs" and step: "record_step (cs, rs ! i) (cs', r)"
  shows "stage_inv cs' (rs[i := r]) s"
proof -
  have kept: "stage_of r = stage_of (rs ! i)" "elapsed_of r = elapsed_of (rs ! i)" using record_step_kept [OF step] by simp_all
  have top: "us \<le> last (max_writes (cs ! StageIndex s))" if "old \<in> set (max_writes (cs ! StageIndex s))" "us \<le> old" for us old
    using sorted_last [OF stage_invD(4) [OF inv] that(1)] that(2) by simp
  have tries: "old < us" if "rs ! i = TryMax s us old" for us old
    using stage_invD(7) [OF inv] nth_mem [OF i] that by simp
  show ?thesis
    by (rule stage_inv_update [OF inv i kept _ _ _ _ _ refl])
      (use step len top tries in \<open>cases; fastforce simp: RecordMax_def not_less split: if_splits\<close>)+
qed

lemma perf_inv: "perf_reachable env cs rs \<Longrightarrow> length cs = StageCount \<and> (\<forall>s. stage_inv cs rs s)"
proof (induction rule: perf_reachable.induct)
  case perf_init
  then show ?case by (simp add: g_counters_def zero_StageCounter_def stage_inv_def tally_def)
next
  case (perf_call cs rs stage us r)
  then have "r = AddCount stage us" by (auto simp: Record_call_def split: if_splits)
  then show ?case using perf_call.IH by (auto simp: stage_inv_def Let_def)
next
  case (perf_access cs rs i cs' r)
  then show ?case using stage_inv_access [OF _ _ perf_access.hyps(2,3)] record_step_kept [OF perf_access.hyps(3)] by simp
qed


definition finished :: "recorder \<Rightarrow> bool" where
  "finished r = (case r of Recorded _ _ \<Rightarrow> True | _ \<Rightarrow> False)"

definition recorded_times :: "PerfStage \<Rightarrow> recorder list \<Rightarrow> u64 list" where
  "recorded_times s rs = map elapsed_of (filter (\<lambda>r. stage_of r = s) rs)"

lemma finished_recorded: "finished r \<Longrightarrow> r = Recorded (stage_of r) (elapsed_of r)"
  by (cases r) (simp_all add: finished_def)

lemma tally_finished:
  assumes "\<forall>r \<in> set rs. finished r"
  shows "tally counted s rs = word_of_nat (length (recorded_times s rs))" "tally totalled s rs = sum_list (recorded_times s rs)"
  using assms by (induction rs) (auto simp: tally_def recorded_times_def finished_def split: recorder.splits)

text \<open>Once all calls have returned, a snapshot has the number, sum and maximum of the recordings.\<close>

lemma perf_snapshot:
  assumes "perf_reachable env cs rs" "\<forall>r \<in> set rs. finished r"
  shows "Snapshot stage cs = \<lparr>snap_count = word_of_nat (length (recorded_times stage rs)),
    snap_total_us = sum_list (recorded_times stage rs), snap_max_us = Max (insert 0 (set (recorded_times stage rs)))\<rparr>"
proof -
  let ?c = "cs ! StageIndex stage" and ?T = "insert 0 (set (recorded_times stage rs))"
  have inv: "stage_inv cs rs stage" using perf_inv [OF assms(1)] by simp
  note D = stage_invD [OF inv]
  have T: "set (recorded_times stage rs) = elapsed_of ` {r \<in> set rs. stage_of r = stage}" by (simp add: recorded_times_def)
  have "last (max_writes ?c) \<in> ?T" using last_in_set [OF D(3)] D(5) T by blast
  moreover have "us \<le> last (max_writes ?c)" if us: "us \<in> ?T" for us
  proof (cases "us = 0")
    case False
    then obtain r where r: "r \<in> set rs" "stage_of r = stage" "elapsed_of r = us" using us T by auto
    then have "r = Recorded stage us" using assms(2) finished_recorded by blast
    then show ?thesis using D(6) r(1) by blast
  qed simp
  ultimately have "last (max_writes ?c) = Max ?T" by (intro Max_eqI [symmetric]) simp_all
  then show ?thesis using D(1,2) tally_finished [OF assms(2)] by (simp add: Snapshot_def Let_def)
qed

text \<open>Two recordings of a stage: the second reads an old maximum and its first exchange fails.\<close>

definition demo_counters :: "StageCounter \<Rightarrow> counters" where
  "demo_counters c = at_stage HandleAckTotal (\<lambda>_. c) g_counters"

lemma demo_counters_at [simp]:
  "at_stage HandleAckTotal f (demo_counters c) = demo_counters (f c)" "demo_counters c ! StageIndex HandleAckTotal = c"
proof -
  have g: "length g_counters = StageCount" by (simp add: g_counters_def)
  then show "demo_counters c ! StageIndex HandleAckTotal = c" by (simp add: demo_counters_def)
  then show "at_stage HandleAckTotal f (demo_counters c) = demo_counters (f c)"
    by (simp add: demo_counters_def at_stage_def [of _ f]) (simp add: at_stage_def)
qed

lemma demo_recording:
  "perf_reachable None (demo_counters \<lparr>stage_count = 2, total_us = 12, max_writes = [0, 5, 7]\<rparr>)
    [Recorded HandleAckTotal 5, Recorded HandleAckTotal 7]"
proof -
  let ?s = HandleAckTotal
  have start: "g_counters = demo_counters zero_StageCounter"
    by (rule sym) (simp add: demo_counters_def at_stage_def list_update_same_conv g_counters_def)
  have "perf_reachable None g_counters [AddCount ?s 5, AddCount ?s 7]"
    using perf_call [OF perf_call [OF perf_init]] by (simp add: Record_call_def Enabled_def)
  then have "perf_reachable None (demo_counters \<lparr>stage_count = 0, total_us = 0, max_writes = [0]\<rparr>) [AddCount ?s 5, AddCount ?s 7]"
    by (simp add: start zero_StageCounter_def)
  from perf_access [OF this, of 0, simplified, OF add_count]
  have "perf_reachable None (demo_counters \<lparr>stage_count = 1, total_us = 0, max_writes = [0]\<rparr>) [AddTotal ?s 5, AddCount ?s 7]" by simp
  from perf_access [OF this, of 1, simplified, OF add_count]
  have "perf_reachable None (demo_counters \<lparr>stage_count = 2, total_us = 0, max_writes = [0]\<rparr>) [AddTotal ?s 5, AddTotal ?s 7]" by simp
  from perf_access [OF this, of 0, simplified, OF add_total]
  have "perf_reachable None (demo_counters \<lparr>stage_count = 2, total_us = 5, max_writes = [0]\<rparr>) [LoadMax ?s 5, AddTotal ?s 7]" by simp
  from perf_access [OF this, of 1, simplified, OF add_total]
  have "perf_reachable None (demo_counters \<lparr>stage_count = 2, total_us = 12, max_writes = [0]\<rparr>) [LoadMax ?s 5, LoadMax ?s 7]" by simp
  from perf_access [OF this, of 0, simplified, OF load_max [of 0]]
  have "perf_reachable None (demo_counters \<lparr>stage_count = 2, total_us = 12, max_writes = [0]\<rparr>) [TryMax ?s 5 0, LoadMax ?s 7]"
    by (simp add: RecordMax_def)
  from perf_access [OF this, of 0, simplified, OF exchange]
  have "perf_reachable None (demo_counters \<lparr>stage_count = 2, total_us = 12, max_writes = [0, 5]\<rparr>) [Recorded ?s 5, LoadMax ?s 7]" by simp
  from perf_access [OF this, of 1, simplified, OF load_max [of 0]]
  have "perf_reachable None (demo_counters \<lparr>stage_count = 2, total_us = 12, max_writes = [0, 5]\<rparr>) [Recorded ?s 5, TryMax ?s 7 0]"
    by (simp add: RecordMax_def)
  from perf_access [OF this, of 1, simplified, OF exchange_fails [of 5]]
  have "perf_reachable None (demo_counters \<lparr>stage_count = 2, total_us = 12, max_writes = [0, 5]\<rparr>) [Recorded ?s 5, TryMax ?s 7 5]"
    by (simp add: RecordMax_def)
  from perf_access [OF this, of 1, simplified, OF exchange] show ?thesis by simp
qed

end
