(* ===== verification/Doubles.thy ===== *)
theory Doubles
  imports Prelude Complex_Main
begin

text \<open>
  The doubles that the program computes and prints are non-negative, and zero or of a size between \<open>2\<^bsup>-70\<^esup>\<close> and \<open>2\<^bsup>80\<^esup>\<close>, far from
  overflow and from the subnormal numbers.  A double is the rational number it stands for; an operation is the exact one, rounded to the nearest
  number of 53 binary digits, ties to even.  Printing rounds to decimal digits in the same way, as the C library does.
\<close>

section \<open>Rounding\<close>

text \<open>The nearest whole number, the even one of two.\<close>

definition nearest :: "rat \<Rightarrow> int" where
  "nearest x = (let q = \<lfloor>x\<rfloor>; r = x - of_int q in if r < 1 / 2 \<or> r = 1 / 2 \<and> even q then q else q + 1)"

fun digits_in :: "nat \<Rightarrow> nat \<Rightarrow> nat" where
  "digits_in b n = (if n = 0 \<or> b < 2 then 0 else Suc (digits_in b (n div b)))"

declare digits_in.simps [simp del]

text \<open>The place of the leading digit of a positive number in base \<open>b\<close>.\<close>

definition exponent :: "nat \<Rightarrow> rat \<Rightarrow> int" where
  "exponent b x = (case quotient_of x of (n, d) \<Rightarrow>
     let e = int (digits_in b (nat n)) - int (digits_in b (nat d)) in
     if of_nat b powi e \<le> x then e else e - 1)"

text \<open>The first \<open>k\<close> digits of a positive number, rounded, as a whole number.\<close>

definition significand :: "nat \<Rightarrow> nat \<Rightarrow> rat \<Rightarrow> int" where
  "significand b k x = nearest (x / of_nat b powi (exponent b x - int k + 1))"

definition round_digits :: "nat \<Rightarrow> nat \<Rightarrow> rat \<Rightarrow> rat" where
  "round_digits b k x = of_int (significand b k x) * of_nat b powi (exponent b x - int k + 1)"

definition double :: "rat \<Rightarrow> rat" where
  "double x = (if x = 0 then 0 else round_digits 2 53 x)"

section \<open>Printing\<close>

text \<open>\<^verbatim>\<open>std::fixed << std::setprecision(1)\<close>.\<close>

definition tenths :: "rat \<Rightarrow> nat" where
  "tenths x = nat (nearest (10 * x))"

definition fixed1 :: "rat \<Rightarrow> string" where
  "fixed1 x = dec (tenths x div 10) @ ''.'' @ dec (tenths x mod 10)"

text \<open>The default format: six significant digits, without trailing zeros, in scientific notation outside \<open>10\<^bsup>-4\<^esup>\<close> to \<open>10\<^bsup>6\<^esup>\<close>.\<close>

definition strip_zeros :: "string \<Rightarrow> string" where
  "strip_zeros s = rev (dropWhile (\<lambda>c. c = CHR ''0'') (rev s))"

definition padded :: "nat \<Rightarrow> nat \<Rightarrow> string" where
  "padded k n = replicate (k - length (dec n)) CHR ''0'' @ dec n"

definition with_fraction :: "string \<Rightarrow> string \<Rightarrow> string" where
  "with_fraction whole fraction = whole @ (if strip_zeros fraction = [] then [] else ''.'' @ strip_zeros fraction)"

definition print_double :: "rat \<Rightarrow> string" where
  "print_double x = (if x = 0 then ''0'' else
     let e = exponent 10 x; q = nat (significand 10 6 x);
         (q', e') = (if q = 10 ^ 6 then (10 ^ 5, e + 1) else (q, e)) in
     if - 4 \<le> e' \<and> e' < 6 then
       let f = nat (5 - e') in with_fraction (dec (q' div 10 ^ f)) (padded f (q' mod 10 ^ f))
     else with_fraction (take 1 (dec q')) (drop 1 (dec q')) @ (if e' < 0 then ''e-'' else ''e+'') @ padded 2 (nat \<bar>e'\<bar>))"


section \<open>How far rounding goes\<close>

lemma nearest_error: "\<bar>of_int (nearest x) - x\<bar> \<le> 1 / 2"
proof -
  have "of_int \<lfloor>x\<rfloor> \<le> x" "x < of_int \<lfloor>x\<rfloor> + 1" by linarith+
  then show ?thesis by (auto simp: nearest_def Let_def abs_le_iff)
qed

lemma nearest_of_int [simp]: "nearest (of_int n) = n"
  by (simp add: nearest_def)

text \<open>A number within less than a half of a whole one is rounded to it.\<close>

lemma nearest_unique: "\<bar>x - of_int n\<bar> < 1 / 2 \<Longrightarrow> nearest x = n"
proof -
  assume "\<bar>x - of_int n\<bar> < 1 / 2"
  then have "\<bar>of_int (nearest x) - (of_int n :: rat)\<bar> < 1" using nearest_error [of x] by linarith
  then have "\<bar>nearest x - n\<bar> < 1" by (metis of_int_abs of_int_diff of_int_less_1_iff)
  then show ?thesis by simp
qed

lemma nearest_le: "x < of_int n + 1 / 2 \<Longrightarrow> nearest x \<le> n"
proof -
  assume "x < of_int n + 1 / 2"
  then have "of_int (nearest x) < (of_int n + 1 :: rat)" using nearest_error [of x] by linarith
  then have "of_int (nearest x) < (of_int (n + 1) :: rat)" by simp
  then have "nearest x < n + 1" by (simp only: of_int_less_iff)
  then show ?thesis by simp
qed

lemma nearest_nonneg: "0 \<le> x \<Longrightarrow> 0 \<le> nearest x"
proof -
  assume "0 \<le> x"
  then have "- 1 < (of_int (nearest x) :: rat)" using nearest_error [of x] by linarith
  then have "of_int (- 1) < (of_int (nearest x) :: rat)" by simp
  then have "- 1 < nearest x" by (simp only: of_int_less_iff)
  then show ?thesis by simp
qed

lemma tenths_error: "0 \<le> x \<Longrightarrow> \<bar>of_nat (tenths x) / 10 - x\<bar> \<le> 1 / 20"
proof -
  assume "0 \<le> x"
  then have "of_nat (tenths x) = (of_int (nearest (10 * x)) :: rat)" by (simp add: tenths_def nearest_nonneg)
  then show ?thesis using nearest_error [of "10 * x"] by (auto simp: abs_le_iff field_simps)
qed

lemma tenths_le: "x < of_nat n / 10 + 1 / 20 \<Longrightarrow> tenths x \<le> n"
proof -
  assume "x < of_nat n / 10 + 1 / 20"
  then have "nearest (10 * x) \<le> int n" by (intro nearest_le) (simp add: field_simps)
  then show ?thesis by (simp add: tenths_def)
qed

lemma digits_in_bounds:
  assumes "2 \<le> b" "0 < n"
  shows "b ^ digits_in b n \<le> b * n \<and> n < b ^ digits_in b n"
  using assms
proof (induction n rule: less_induct)
  case (less n)
  show ?case
  proof (cases "n < b")
    case True
    then have "digits_in b n = 1" using less.prems by (simp add: digits_in.simps [of b n] digits_in.simps [of b 0])
    then show ?thesis using less.prems True by simp
  next
    case False
    then have d: "digits_in b n = Suc (digits_in b (n div b))" "0 < n div b" "n div b < n"
      using less.prems by (simp_all add: digits_in.simps [of b n] div_greater_zero_iff)
    have IH: "b ^ digits_in b (n div b) \<le> b * (n div b)" "n div b < b ^ digits_in b (n div b)"
      using less.IH [OF d(3)] less.prems d(2) by blast+
    have "b * (n div b) \<le> n" by simp
    then have "b ^ digits_in b (n div b) \<le> n" using IH(1) by linarith
    moreover have "n < b * (n div b + 1)"
      using less.prems by (metis add.commute div_mult_mod_eq mod_less_divisor mult.commute mult_Suc_right nat_add_left_cancel_less plus_1_eq_Suc pos2 less_le_trans)
    moreover have "b * (n div b + 1) \<le> b * b ^ digits_in b (n div b)" by (intro mult_le_mono2) (use IH(2) in simp)
    ultimately show ?thesis using d(1) by auto
  qed
qed


lemma exponent_bounds:
  assumes b: "2 \<le> b" and x: "0 < x"
  shows "of_nat b powi exponent b x \<le> x" "x < of_nat b powi (exponent b x + 1)"
proof -
  let ?B = "of_nat b :: rat"
  obtain n d where q: "quotient_of x = (n, d)" by (cases "quotient_of x")
  have d: "0 < d" using quotient_of_denom_pos [OF q] .
  have x_eq: "x = of_int n / of_int d" using quotient_of_div [OF q] .
  then have n: "0 < n" using x d by (simp add: zero_less_divide_iff)
  let ?ln = "digits_in b (nat n)" and ?ld = "digits_in b (nat d)"
  have B: "0 < ?B" using b by simp
  have bounds: "?B ^ ?ln \<le> ?B * of_int n" "of_int n < ?B ^ ?ln" "?B ^ ?ld \<le> ?B * of_int d" "of_int d < ?B ^ ?ld"
    if nd: "0 < n" "0 < d"
  proof -
    have n': "b ^ ?ln \<le> b * nat n" "nat n < b ^ ?ln" "b ^ ?ld \<le> b * nat d" "nat d < b ^ ?ld"
      using digits_in_bounds [OF b] nd by simp_all
    have "(of_nat (b ^ ?ln) :: rat) \<le> of_nat (b * nat n)" "of_nat (nat n) < (of_nat (b ^ ?ln) :: rat)"
      "(of_nat (b ^ ?ld) :: rat) \<le> of_nat (b * nat d)" "of_nat (nat d) < (of_nat (b ^ ?ld) :: rat)"
      by (simp_all only: of_nat_le_iff of_nat_less_iff n')
    then show "?B ^ ?ln \<le> ?B * of_int n" "of_int n < ?B ^ ?ln" "?B ^ ?ld \<le> ?B * of_int d" "of_int d < ?B ^ ?ld"
      using nd by simp_all
  qed
  let ?e = "int ?ln - int ?ld"
  have e: "?B powi ?e = ?B ^ ?ln / ?B ^ ?ld" using B by (simp add: power_int_diff)
  have low: "?B powi (?e - 1) \<le> x"
  proof -
    have "?B powi (?e - 1) = ?B ^ ?ln / (?B * ?B ^ ?ld)" using B e by (simp add: power_int_diff [of ?B ?e 1])
    also have "\<dots> \<le> of_int n / ?B ^ ?ld" using bounds(1) n d B by (simp add: field_simps)
    also have "\<dots> \<le> x" unfolding x_eq using bounds(4) n d B by (intro divide_left_mono) simp_all
    finally show ?thesis .
  qed
  have high: "x < ?B powi (?e + 1)"
  proof -
    have "x < ?B ^ ?ln / of_int d" unfolding x_eq using bounds(2) n d by (simp add: divide_strict_right_mono)
    also have "\<dots> \<le> ?B ^ ?ln / (?B ^ ?ld / ?B)"
      using bounds(3) n d B by (intro divide_left_mono) (simp_all add: field_simps)
    also have "\<dots> = ?B powi (?e + 1)" using B e by (simp add: power_int_add)
    finally show ?thesis .
  qed
  show "?B powi exponent b x \<le> x" "x < ?B powi (exponent b x + 1)"
    using low high by (simp_all add: exponent_def q Let_def)
qed

text \<open>Rounding to \<open>k\<close> digits moves a number by at most half a unit of its last place.\<close>

lemma round_digits_error:
  assumes "2 \<le> b" "0 < x"
  shows "\<bar>round_digits b k x - x\<bar> \<le> x * (of_nat b / (2 * of_nat b ^ k))"
proof -
  let ?B = "of_nat b :: rat" and ?e = "exponent b x"
  let ?u = "?B powi (?e - int k + 1)"
  have B: "0 < ?B" using assms(1) by simp
  then have u: "0 < ?u" by (rule zero_less_power_int)
  have "\<bar>round_digits b k x - x\<bar> = \<bar>(of_int (nearest (x / ?u)) - x / ?u) * ?u\<bar>"
    unfolding round_digits_def significand_def left_diff_distrib using u assms(1) by simp
  also have "\<dots> = \<bar>of_int (nearest (x / ?u)) - x / ?u\<bar> * ?u" using u by (simp add: abs_mult)
  also have "\<dots> \<le> 1 / 2 * ?u" using nearest_error [of "x / ?u"] u by (intro mult_right_mono) simp_all
  also have "?u = ?B powi ?e * (?B / ?B ^ k)" using B by (simp add: power_int_add power_int_diff)
  also have "1 / 2 * (?B powi ?e * (?B / ?B ^ k)) = ?B powi ?e * (?B / (2 * ?B ^ k))" by simp
  also have "\<dots> \<le> x * (?B / (2 * ?B ^ k))"
    using exponent_bounds(1) [OF assms] B by (intro mult_right_mono) simp_all
  finally show ?thesis .
qed

lemma double_error: "0 \<le> x \<Longrightarrow> \<bar>double x - x\<bar> \<le> x / 2 ^ 53"
  using round_digits_error [of 2 x 53] by (simp add: double_def)

lemma double_bounds:
  assumes "0 \<le> x"
  shows "x * (1 - 1 / 2 ^ 53) \<le> double x" "double x \<le> x * (1 + 1 / 2 ^ 53)"
proof -
  have "double x - x \<le> x / 2 ^ 53" "x - double x \<le> x / 2 ^ 53" using double_error [OF assms] by (simp_all only: abs_le_iff minus_diff_eq)
  then show "x * (1 - 1 / 2 ^ 53) \<le> double x" "double x \<le> x * (1 + 1 / 2 ^ 53)"
    unfolding right_diff_distrib distrib_left by simp_all
qed


lemma double_nonneg: "0 \<le> x \<Longrightarrow> 0 \<le> double x"
proof -
  assume x: "0 \<le> x"
  then have "0 \<le> x * (1 - 1 / 2 ^ 53)" by (intro mult_nonneg_nonneg) simp_all
  also have "\<dots> \<le> double x" by (rule double_bounds(1) [OF x])
  finally show ?thesis .
qed

text \<open>A quotient of two rounded numbers, rounded.\<close>

lemma double_quotient:
  assumes "0 \<le> a" "0 < c"
  shows "\<bar>double (double a / double c) - a / c\<bar> \<le> a / c / 2 ^ 51"
proof -
  have a: "a * (1 - 1 / 2 ^ 53) \<le> double a" "double a \<le> a * (1 + 1 / 2 ^ 53)" using double_bounds [OF assms(1)] .
  have c: "c * (1 - 1 / 2 ^ 53) \<le> double c" "double c \<le> c * (1 + 1 / 2 ^ 53)" using double_bounds [of c] assms(2) by simp_all
  have "0 < c * (1 - 1 / 2 ^ 53)" using assms(2) by simp
  then have c0: "0 < double c" using c(1) by simp
  let ?q = "double a / double c"
  have q0: "0 \<le> ?q" using double_nonneg [OF assms(1)] c0 by simp
  have "?q \<le> (a * (1 + 1 / 2 ^ 53)) / (c * (1 - 1 / 2 ^ 53))"
    by (rule frac_le) (use a c assms in simp_all)
  then have up: "?q \<le> a / c * ((1 + 1 / 2 ^ 53) / (1 - 1 / 2 ^ 53))" by (simp only: times_divide_times_eq)
  have "(a * (1 - 1 / 2 ^ 53)) / (c * (1 + 1 / 2 ^ 53)) \<le> ?q"
    by (rule frac_le) (use a c c0 assms double_nonneg in simp_all)
  then have low: "a / c * ((1 - 1 / 2 ^ 53) / (1 + 1 / 2 ^ 53)) \<le> ?q" by (simp only: times_divide_times_eq)
  have "double ?q \<le> a / c * ((1 + 1 / 2 ^ 53) / (1 - 1 / 2 ^ 53)) * (1 + 1 / 2 ^ 53)"
    by (rule order_trans [OF double_bounds(2) [OF q0]], rule mult_right_mono [OF up]) simp
  also have "\<dots> = a / c * ((1 + 1 / 2 ^ 53) / (1 - 1 / 2 ^ 53) * (1 + 1 / 2 ^ 53))" by (simp only: mult.assoc)
  also have "\<dots> \<le> a / c * (1 + 1 / 2 ^ 51)" using assms by (intro mult_left_mono) simp_all
  finally have upper: "double ?q \<le> a / c * (1 + 1 / 2 ^ 51)" .
  have "a / c * (1 - 1 / 2 ^ 51) \<le> a / c * ((1 - 1 / 2 ^ 53) / (1 + 1 / 2 ^ 53) * (1 - 1 / 2 ^ 53))"
    using assms by (intro mult_left_mono) simp_all
  also have "\<dots> = a / c * ((1 - 1 / 2 ^ 53) / (1 + 1 / 2 ^ 53)) * (1 - 1 / 2 ^ 53)" by (simp only: mult.assoc)
  also have "\<dots> \<le> double ?q"
    by (rule order_trans [OF mult_right_mono [OF low] double_bounds(1) [OF q0]]) simp
  finally have lower: "a / c * (1 - 1 / 2 ^ 51) \<le> double ?q" .
  show ?thesis using upper lower unfolding abs_le_iff right_diff_distrib distrib_left by simp
qed


section \<open>Decimal digits\<close>

lemma digit_char_0: "digit_char 0 = CHR ''0''"
  by code_simp

lemma dec_shift: "0 < n \<Longrightarrow> dec (n * 10 ^ j) = dec n @ replicate j CHR ''0''"
proof (induction j)
  case (Suc j)
  have "10 \<le> n * 10 ^ Suc j" using Suc.prems by simp
  moreover have "n * 10 ^ Suc j div 10 = n * 10 ^ j" "n * 10 ^ Suc j mod 10 = 0" by simp_all
  ultimately have "dec (n * 10 ^ Suc j) = dec (n * 10 ^ j) @ [digit_char 0]" by (metis dec_large)
  then show ?case using Suc by (simp add: digit_char_0 replicate_append_same)
qed simp

lemma padded_shift: "padded (k + j) (n * 10 ^ j) = padded k n @ replicate j CHR ''0''" if "k \<noteq> 0"
proof (cases "n = 0")
  case True
  have "k + j - 1 = (k - 1) + j" using that by simp
  then show ?thesis using True by (simp add: padded_def dec_small digit_char_0 replicate_add replicate_append_same)
next
  case False
  then show ?thesis by (simp add: padded_def dec_shift)
qed

lemma strip_zeros_append [simp]: "strip_zeros (s @ replicate j CHR ''0'') = strip_zeros s"
  by (simp add: strip_zeros_def dropWhile_append)


text \<open>
  A number that is close to a whole number of thousandths, less than a thousand, is printed as that number: however the rounding falls, the six digits
  are those of the thousandths, followed by zeros.
\<close>

lemma print_digits:
  assumes "q' = n * 10 ^ j" "e' = 2 - int j" "j \<le> 6"
    and "(if nat (significand 10 6 x) = 10 ^ 6 then (10 ^ 5, exponent 10 x + 1) else (nat (significand 10 6 x), exponent 10 x)) = (q', e')"
    and "x \<noteq> 0"
  shows "print_double x = with_fraction (dec (n div 1000)) (padded 3 (n mod 1000))"
proof -
  have f: "nat (5 - e') = 3 + j" "- 4 \<le> e'" "e' < 6" using assms(2,3) by simp_all
  have "q' div 10 ^ (3 + j) = n div 1000" "q' mod 10 ^ (3 + j) = (n mod 1000) * 10 ^ j"
    unfolding assms(1) power_add by (simp_all add: mult_mod_left)
  moreover have "print_double x = with_fraction (dec (q' div 10 ^ nat (5 - e'))) (padded (nat (5 - e')) (q' mod 10 ^ nat (5 - e')))"
    unfolding print_double_def Let_def assms(4) using assms(5) f(2,3) by simp
  ultimately show ?thesis using padded_shift [of 3 j "n mod 1000"] by (simp add: f(1) with_fraction_def)
qed

lemma print_thousandths:
  assumes n: "0 < n" "n < 10 ^ 6" and x: "\<bar>x - of_nat n / 1000\<bar> \<le> of_nat n / 1000 / 2 ^ 50"
  shows "print_double x = with_fraction (dec (n div 1000)) (padded 3 (n mod 1000))"
proof -
  let ?n = "of_nat n :: rat" and ?e = "exponent 10 x"
  have "of_nat 1 \<le> ?n" "?n \<le> of_nat 999999" unfolding of_nat_le_iff using n by simp_all
  then have n': "1 \<le> ?n" "?n \<le> 999999" by simp_all
  have x0: "?n / 1000 * (1 - 1 / 2 ^ 50) \<le> x" "x \<le> ?n / 1000 * (1 + 1 / 2 ^ 50)"
    using x unfolding abs_le_iff right_diff_distrib distrib_left by simp_all
  have big: "1 / 10000 < x" using x0(1) n'(1) by (simp add: field_simps)
  have small: "x < 1000" using x0(2) n'(2) by (simp add: field_simps)
  have e: "10 powi ?e \<le> x" "x < 10 powi (?e + 1)" using exponent_bounds [of 10 x] big by simp_all
  have e2: "?e \<le> 2"
  proof (rule ccontr)
    assume "\<not> ?e \<le> 2"
    then have "(10 :: rat) powi 3 \<le> 10 powi ?e" by (intro power_int_increasing) simp_all
    then show False using e(1) small by simp
  qed
  have e4: "- 4 \<le> ?e"
  proof (rule ccontr)
    assume "\<not> - 4 \<le> ?e"
    then have "(10 :: rat) powi (?e + 1) \<le> 10 powi - 4" by (intro power_int_increasing) simp_all
    then show False using e(2) big by (simp add: power_int_minus)
  qed
  define j where "j = nat (2 - ?e)"
  have j: "int j = 2 - ?e" "j \<le> 6" using e2 e4 by (simp_all add: j_def)
  let ?u = "(10 :: rat) powi (?e - 5)"
  have u: "?u = 1 / 1000 / 10 ^ j"
  proof -
    have "?u = 10 powi (- 3 - int j)" using j(1) by simp
    also have "\<dots> = 1 / 1000 / 10 ^ j" by (simp add: power_int_diff power_int_minus)
    finally show ?thesis .
  qed
  have scaled: "\<bar>x / ?u - of_nat (n * 10 ^ j)\<bar> \<le> of_nat (n * 10 ^ j) / 2 ^ 50"
  proof -
    have "x / ?u - of_nat (n * 10 ^ j) = (x - ?n / 1000) * (1000 * 10 ^ j)" unfolding u by (simp add: field_simps)
    then have "\<bar>x / ?u - of_nat (n * 10 ^ j)\<bar> = \<bar>x - ?n / 1000\<bar> * (1000 * 10 ^ j)" by (simp add: abs_mult)
    also have "\<dots> \<le> ?n / 1000 / 2 ^ 50 * (1000 * 10 ^ j)" by (intro mult_right_mono x) simp
    finally show ?thesis by simp
  qed
  have "x / ?u < 10 ^ 6"
  proof -
    have "(10 :: rat) powi (?e + 1) = ?u * 10 ^ 6" by (simp add: power_int_diff power_int_add)
    then have "x < ?u * 10 ^ 6" using e(2) by simp
    moreover have "0 < ?u" unfolding u by simp
    ultimately show ?thesis by (simp only: pos_divide_less_eq mult.commute)
  qed
  then have "of_nat (n * 10 ^ j) - of_nat (n * 10 ^ j) / 2 ^ 50 < (10 ^ 6 :: rat)" using scaled by linarith
  then have "(of_nat (n * 10 ^ j) :: rat) / 2 ^ 50 < 1 / 2" by (simp add: field_simps)
  then have "nearest (x / ?u) = int (n * 10 ^ j)" using scaled by (intro nearest_unique) simp
  then have q: "nat (significand 10 6 x) = n * 10 ^ j" by (simp add: significand_def flip: of_nat_power of_nat_mult)
  show ?thesis
  proof (cases "n * 10 ^ j = 10 ^ 6")
    case True
    then obtain i where i: "j = Suc i" using n(2) by (cases j) simp_all
    show ?thesis
      by (rule print_digits [of "10 ^ 5" n i "?e + 1"]) (use True i j q big in simp_all)
  next
    case False
    show ?thesis by (rule print_digits [of "n * 10 ^ j" n j ?e]) (use False j q big in simp_all)
  qed
qed

end
