(* ===== verification/Perf_Report.thy ===== *)
theory Perf_Report
  imports Perf_Stats Doubles
begin

text \<open>
  \<^verbatim>\<open>server/src/PerfStats.cpp\<close>: the line that \<^verbatim>\<open>MaybeLog\<close> writes, with its averages and percentages in double arithmetic.
\<close>

section \<open>Averages and percentages\<close>

text \<open>\<^verbatim>\<open>static_cast<double>\<close> of an unsigned integer.\<close>

definition double_of :: "u64 \<Rightarrow> rat" where
  "double_of n = double (of_nat (unat n))"

definition AvgUs :: "StageSnapshot \<Rightarrow> rat" where
  "AvgUs snapshot = (if snap_count snapshot = 0 then 0
     else double (double_of (snap_total_us snapshot) / double_of (snap_count snapshot)))"

definition PercentOf :: "StageSnapshot \<Rightarrow> StageSnapshot \<Rightarrow> rat" where
  "PercentOf child parent = (if snap_total_us parent = 0 then 0
     else double (double (double_of (snap_total_us child) * 100) / double_of (snap_total_us parent)))"

section \<open>The line\<close>

definition kLogIntervalMs :: u64 where "kLogIntervalMs = 1000"

definition perf_line :: "(PerfStage \<Rightarrow> StageSnapshot) \<Rightarrow> string" where
  "perf_line snapshot =
    (let chat = snapshot HandleChatTotal; chat_create = snapshot HandleChatCreate; chat_deliver = snapshot HandleChatDeliver;
         chat_send_ack = snapshot HandleChatSendAck; ack = snapshot HandleAckTotal; ack_mark = snapshot HandleAckMarkAcked;
         redis_create_lock = snapshot RedisCreateLockWait; redis_create_eval = snapshot RedisCreateEval;
         redis_delivered_lock = snapshot RedisMarkDeliveredLockWait; redis_delivered_eval = snapshot RedisMarkDeliveredEval;
         redis_acked_lock = snapshot RedisMarkAckedLockWait; redis_acked_eval = snapshot RedisMarkAckedEval
     in ''perf_stats''
        @ '' chat_count='' @ to_string (snap_count chat)
        @ '' chat_avg_us='' @ fixed1 (AvgUs chat)
        @ '' chat_max_us='' @ to_string (snap_max_us chat)
        @ '' create_avg_us='' @ fixed1 (AvgUs chat_create)
        @ '' create_pct='' @ fixed1 (PercentOf chat_create chat)
        @ '' deliver_avg_us='' @ fixed1 (AvgUs chat_deliver)
        @ '' deliver_pct='' @ fixed1 (PercentOf chat_deliver chat)
        @ '' send_ack_avg_us='' @ fixed1 (AvgUs chat_send_ack)
        @ '' send_ack_pct='' @ fixed1 (PercentOf chat_send_ack chat)
        @ '' ack_count='' @ to_string (snap_count ack)
        @ '' ack_avg_us='' @ fixed1 (AvgUs ack)
        @ '' ack_max_us='' @ to_string (snap_max_us ack)
        @ '' mark_acked_avg_us='' @ fixed1 (AvgUs ack_mark)
        @ '' mark_acked_pct='' @ fixed1 (PercentOf ack_mark ack)
        @ '' redis_create_lock_avg_us='' @ fixed1 (AvgUs redis_create_lock)
        @ '' redis_create_eval_avg_us='' @ fixed1 (AvgUs redis_create_eval)
        @ '' redis_delivered_lock_avg_us='' @ fixed1 (AvgUs redis_delivered_lock)
        @ '' redis_delivered_eval_avg_us='' @ fixed1 (AvgUs redis_delivered_eval)
        @ '' redis_acked_lock_avg_us='' @ fixed1 (AvgUs redis_acked_lock)
        @ '' redis_acked_eval_avg_us='' @ fixed1 (AvgUs redis_acked_eval))"

text \<open>
  \<open>now_ms\<close> and \<open>last_ms\<close> are what the call read; \<open>g_last_log_ms\<close> is the atomic at its exchange.  The result is the line, if one
  is written, and the atomic afterwards.
\<close>

definition MaybeLog :: "string option \<Rightarrow> u64 \<Rightarrow> u64 \<Rightarrow> counters \<Rightarrow> u64 \<Rightarrow> string option \<times> u64" where
  "MaybeLog value now_ms last_ms cs g_last_log_ms =
    (if \<not> Enabled value then (None, g_last_log_ms)
     else if now_ms - last_ms < kLogIntervalMs then (None, g_last_log_ms)
     else if g_last_log_ms \<noteq> last_ms then (None, g_last_log_ms)
     else let snapshot = (\<lambda>stage. Snapshot stage cs) in
       if snap_count (snapshot HandleChatTotal) = 0 \<and> snap_count (snapshot HandleAckTotal) = 0 then (None, now_ms)
       else (Some (perf_line snapshot), now_ms))"

text \<open>A call that read the clock before the last line was written finds an enormous difference and writes another line.\<close>

lemma log_wraps:
  assumes "Enabled value" "now_ms < last_ms" "unat (last_ms - now_ms) \<le> 2 ^ 63" "snap_count (Snapshot HandleAckTotal cs) \<noteq> 0"
  shows "MaybeLog value now_ms last_ms cs last_ms = (Some (perf_line (\<lambda>stage. Snapshot stage cs)), now_ms)"
proof -
  have "\<not> now_ms - last_ms < kLogIntervalMs"
    using wrapped_difference [OF assms(2,3)] by (simp add: word_less_nat_alt kLogIntervalMs_def)
  then show ?thesis using assms(1,4) by (simp add: MaybeLog_def)
qed

section \<open>What the line tells\<close>

declare of_nat_unat [simp del]

lemma positive_count: "w \<noteq> 0 \<Longrightarrow> (0 :: rat) < of_nat (unat (w :: u64))"
  by (simp add: unat_gt_0)

lemma AvgUs_error:
  assumes "snap_count s \<noteq> 0" "mean = (of_nat (unat (snap_total_us s)) :: rat) / of_nat (unat (snap_count s))"
  shows "\<bar>AvgUs s - mean\<bar> \<le> mean / 2 ^ 51" "0 \<le> AvgUs s"
proof -
  have "(0 :: rat) < of_nat (unat (snap_count s))" using assms(1) by (rule positive_count)
  from double_quotient [OF _ this, of "of_nat (unat (snap_total_us s))"]
  show e: "\<bar>AvgUs s - mean\<bar> \<le> mean / 2 ^ 51" using assms by (simp add: AvgUs_def double_of_def)
  have "0 \<le> mean" using assms(2) by simp
  moreover have "mean / 2 ^ 51 \<le> mean" using \<open>0 \<le> mean\<close> by simp
  ultimately show "0 \<le> AvgUs s" using e by linarith
qed

lemma average_printed:
  assumes "snap_count s \<noteq> 0" "mean = (of_nat (unat (snap_total_us s)) :: rat) / of_nat (unat (snap_count s))"
  shows "\<bar>of_nat (tenths (AvgUs s)) / 10 - mean\<bar> \<le> 1 / 20 + mean / 2 ^ 51"
  using AvgUs_error [OF assms] tenths_error [of "AvgUs s"] by linarith

lemma average_below:
  assumes "snap_count s \<noteq> 0" "unat (snap_total_us s) \<le> unat (snap_count s) * m" "m < 2 ^ 46"
  shows "tenths (AvgUs s) \<le> 10 * m"
proof -
  let ?mean = "of_nat (unat (snap_total_us s)) / of_nat (unat (snap_count s)) :: rat"
  have "(of_nat (unat (snap_total_us s)) :: rat) \<le> of_nat (unat (snap_count s) * m)" using assms(2) by (simp only: of_nat_le_iff)
  moreover have pos: "(0 :: rat) < of_nat (unat (snap_count s))" using assms(1) by (rule positive_count)
  ultimately have mean: "?mean \<le> of_nat m" by (simp add: pos_divide_le_eq [OF pos] mult.commute)
  have "(of_nat m :: rat) < of_nat (2 ^ 46)" using assms(3) by (simp only: of_nat_less_iff)
  then have "?mean / 2 ^ 51 < 1 / 20" using mean by (simp add: field_simps)
  then have "AvgUs s < of_nat m + 1 / 20" using AvgUs_error(1) [OF assms(1) refl] mean by linarith
  then show ?thesis by (intro tenths_le) simp
qed

text \<open>A part that took no longer than the whole is shown with at most 100.0 percent.\<close>

lemma percent_printed:
  assumes "snap_total_us child \<le> snap_total_us parent"
  shows "tenths (PercentOf child parent) \<le> 1000"
proof (cases "snap_total_us parent = 0")
  case False
  let ?c = "of_nat (unat (snap_total_us child)) :: rat" and ?d = "of_nat (unat (snap_total_us parent)) :: rat"
  have d0: "0 < ?d" using False by (rule positive_count)
  have c: "0 \<le> ?c" "?c \<le> ?d" using assms by (simp_all add: word_le_nat_alt)
  have dd: "?d * (1 - 1 / 2 ^ 53) \<le> double ?d" using double_bounds(1) [of ?d] d0 by simp
  have "double (double ?c * 100) \<le> double ?c * 100 * (1 + 1 / 2 ^ 53)"
    by (rule double_bounds(2)) (use double_nonneg [OF c(1)] in simp)
  also have "\<dots> \<le> ?c * (1 + 1 / 2 ^ 53) * 100 * (1 + 1 / 2 ^ 53)"
    by (intro mult_right_mono double_bounds(2) c(1)) simp_all
  also have "\<dots> \<le> ?d * (1 + 1 / 2 ^ 53) * 100 * (1 + 1 / 2 ^ 53)" by (intro mult_right_mono c(2)) simp_all
  finally have num: "double (double ?c * 100) \<le> ?d * (1 + 1 / 2 ^ 53) * 100 * (1 + 1 / 2 ^ 53)" .
  have p0: "0 \<le> double (double ?c * 100)" using double_nonneg c(1) by simp
  have q: "double (double ?c * 100) / double ?d \<le> (?d * (1 + 1 / 2 ^ 53) * 100 * (1 + 1 / 2 ^ 53)) / (?d * (1 - 1 / 2 ^ 53))"
    by (rule frac_le) (use num dd d0 in simp_all)
  also have "\<dots> \<le> 1000001 / 10000" using d0 by (simp add: field_simps)
  finally have "double (double (double ?c * 100) / double ?d) \<le> 1000001 / 10000 * (1 + 1 / 2 ^ 53)"
    using double_bounds(2) [of "double (double ?c * 100) / double ?d"] p0 d0 dd
    by (intro order_trans [OF double_bounds(2)] mult_right_mono) (simp_all add: double_nonneg)
  then have "PercentOf child parent < of_nat 1000 / 10 + 1 / 20" using False by (simp add: PercentOf_def double_of_def)
  then show ?thesis by (rule tenths_le)
qed (simp add: PercentOf_def tenths_def nearest_def)

lemma sum_times:
  assumes "sum_list (map unat ts) < 2 ^ 64"
  shows "unat (sum_list (ts :: u64 list)) = sum_list (map unat ts)"
  using assms by (induction ts) (simp_all add: unat_word_ariths)

lemma sum_times_le: "\<forall>t \<in> set ts. t \<le> (m :: u64) \<Longrightarrow> sum_list (map unat ts) \<le> length ts * unat m"
  by (induction ts) (auto simp: word_le_nat_alt)

text \<open>
  C33: once all calls of \<^verbatim>\<open>Record\<close> have returned, the snapshot of a stage has the number of its recordings and the
  sum of their times, both modulo 2 to the 64, and their maximum, however the calls were interleaved, whatever stale
  values the relaxed loads returned, and however often the weak exchange failed.  If the stage was recorded and nothing wrapped, the average that the log line
  prints, computed in doubles and rounded to one decimal, is the mean of the times up to half a tenth and a part in 2 to the 51, and never more than the
  maximum that it prints.
\<close>

theorem perf_totals:
  assumes "perf_reachable env cs rs" "\<forall>r \<in> set rs. finished r" and ts: "ts = recorded_times stage rs"
    and s: "s = Snapshot stage cs" and mean: "mean = (of_nat (sum_list (map unat ts)) :: rat) / of_nat (length ts)"
  shows "s = \<lparr>snap_count = word_of_nat (length ts), snap_total_us = sum_list ts, snap_max_us = Max (insert 0 (set ts))\<rparr> \<and>
    (ts \<noteq> [] \<and> length ts < 2 ^ 64 \<and> sum_list (map unat ts) < 2 ^ 64 \<longrightarrow>
      \<bar>of_nat (tenths (AvgUs s)) / 10 - mean\<bar> \<le> 1 / 20 + mean / 2 ^ 51 \<and>
      (unat (snap_max_us s) < 2 ^ 46 \<longrightarrow> tenths (AvgUs s) \<le> 10 * unat (snap_max_us s)))"
proof (intro conjI impI)
  show snap: "s = \<lparr>snap_count = word_of_nat (length ts), snap_total_us = sum_list ts, snap_max_us = Max (insert 0 (set ts))\<rparr>"
    using perf_snapshot [OF assms(1,2)] ts s by simp
  assume small: "ts \<noteq> [] \<and> length ts < 2 ^ 64 \<and> sum_list (map unat ts) < 2 ^ 64"
  have n: "unat (snap_count s) = length ts" "unat (snap_total_us s) = sum_list (map unat ts)"
    using small sum_times by (simp_all add: snap unat_of_nat_u64)
  then have c: "snap_count s \<noteq> 0" using small by auto
  show "\<bar>of_nat (tenths (AvgUs s)) / 10 - mean\<bar> \<le> 1 / 20 + mean / 2 ^ 51"
    by (rule average_printed [OF c]) (simp only: n mean)
  assume m: "unat (snap_max_us s) < 2 ^ 46"
  have "\<forall>t \<in> set ts. t \<le> snap_max_us s" by (simp add: snap)
  then show "tenths (AvgUs s) \<le> 10 * unat (snap_max_us s)"
    by (intro average_below [OF c _ m]) (simp only: n sum_times_le)
qed

theorem perf_totals_witness:
  "\<exists>cs. Snapshot HandleAckTotal cs = \<lparr>snap_count = 2, snap_total_us = 12, snap_max_us = 7\<rparr> \<and>
    \<bar>of_nat (tenths (AvgUs (Snapshot HandleAckTotal cs))) / 10 - (6 :: rat)\<bar> \<le> 1 / 20 + 6 / 2 ^ 51 \<and>
    tenths (AvgUs (Snapshot HandleAckTotal cs)) \<le> 70"
proof -
  let ?cs = "demo_counters \<lparr>stage_count = 2, total_us = 12, max_writes = [0, 5, 7]\<rparr>"
  have "\<forall>r \<in> set [Recorded HandleAckTotal 5, Recorded HandleAckTotal 7]. finished r" by (simp add: finished_def)
  note whole = perf_totals [OF demo_recording this refl refl refl, of HandleAckTotal]
  have snap: "Snapshot HandleAckTotal ?cs = \<lparr>snap_count = 2, snap_total_us = 12, snap_max_us = 7\<rparr>"
    using conjunct1 [OF whole] by (simp add: recorded_times_def)
  have "\<bar>of_nat (tenths (AvgUs (Snapshot HandleAckTotal ?cs))) / 10 - (6 :: rat)\<bar> \<le> 1 / 20 + 6 / 2 ^ 51"
    "tenths (AvgUs (Snapshot HandleAckTotal ?cs)) \<le> 70"
    using conjunct2 [OF whole] by (simp_all add: recorded_times_def snap)
  with snap show ?thesis by blast
qed

end
