(* ===== verification/Stress_Client.thy ===== *)
theory Stress_Client
  imports Chat_Client Doubles
begin

text \<open>
  \<^verbatim>\<open>client/main_client.cpp\<close>: the stress test, which starts a ring of clients, lets each send to the next, waits, and judges by
  the clients' counters.  Clients are those of \<open>Chat_Client\<close>; what they do while the test runs is given by
  \<open>StressEnv\<close>.  Signed arithmetic that leaves its range is undefined, and has the value \<open>None\<close> here.
\<close>

section \<open>Arguments and totals\<close>

definition ParsePositiveInt :: "string option \<Rightarrow> int \<Rightarrow> int" where
  "ParsePositiveInt value fallback = (case value of
     None \<Rightarrow> fallback
   | Some s \<Rightarrow> let parsed = atoi s in if parsed > 0 then parsed else fallback)"

text \<open>The result of a signed operation.\<close>

definition int_result :: "int \<Rightarrow> int option" where
  "int_result x = (if - (2 ^ 31) \<le> x \<and> x < 2 ^ 31 then Some x else None)"

primrec count_loop :: "MessageType \<Rightarrow> Envelope list \<Rightarrow> int \<Rightarrow> int option" where
  "count_loop t [] n = Some n"
| "count_loop t (e # es) n =
    (if env_type e = t then Option.bind (int_result (n + 1)) (count_loop t es) else count_loop t es n)"

definition CountByType :: "Envelope list \<Rightarrow> MessageType \<Rightarrow> int option" where
  "CountByType messages t = count_loop t messages 0"

primrec total_loop :: "(Client \<Rightarrow> int) \<Rightarrow> Client list \<Rightarrow> int \<Rightarrow> int option" where
  "total_loop f [] n = Some n"
| "total_loop f (c # cs) n = Option.bind (int_result (n + f c)) (total_loop f cs)"

definition TotalClientAcks :: "Client list \<Rightarrow> int option" where
  "TotalClientAcks clients = total_loop getAckCount clients 0"

definition TotalClientLoginResponses :: "Client list \<Rightarrow> int option" where
  "TotalClientLoginResponses clients = total_loop getLoginResponseCount clients 0"

definition TotalClientChatPushes :: "Client list \<Rightarrow> int option" where
  "TotalClientChatPushes clients = total_loop getChatPushCount clients 0"

definition ClientUid :: "int \<Rightarrow> u64 option" where
  "ClientUid index = map_option word_of_int (int_result (1000 + index))"

section \<open>Stopping\<close>

definition kCloseGroupSize :: nat where "kCloseGroupSize = 10"

text \<open>The ranges that the workers get.\<close>

function close_groups :: "nat \<Rightarrow> nat \<Rightarrow> (nat \<times> nat) list" where
  "close_groups client_total start =
    (if start < client_total then
       let stop = (if start + kCloseGroupSize > client_total then client_total else start + kCloseGroupSize) in
       (start, stop) # close_groups client_total (start + kCloseGroupSize)
     else [])"
  by pat_completeness auto
termination
  by (relation "measure (\<lambda>(client_total, start). client_total - start)") (auto simp: kCloseGroupSize_def)

declare close_groups.simps [simp del]

definition stop_at :: "nat \<Rightarrow> Client list \<Rightarrow> Client list" where
  "stop_at i clients = clients[i := stopClient (clients ! i)]"

text \<open>
  The clients after the workers are joined, with the order in which their calls of \<^verbatim>\<open>stopClient\<close> came: each worker makes
  its calls in the order of its range, the workers run side by side.
\<close>

fun interleaves :: "nat list \<Rightarrow> nat list list \<Rightarrow> bool" where
  "interleaves [] calls \<longleftrightarrow> (\<forall>xs \<in> set calls. xs = [])"
| "interleaves (i # order) calls \<longleftrightarrow>
    (\<exists>k < length calls. calls ! k \<noteq> [] \<and> hd (calls ! k) = i \<and> interleaves order (calls[k := tl (calls ! k)]))"

definition close_calls :: "nat \<Rightarrow> nat list list" where
  "close_calls client_total = map (\<lambda>(start, stop). [start..<stop]) (close_groups client_total 0)"

definition StopClientsConcurrently :: "nat list \<Rightarrow> Client list \<Rightarrow> Client list option" where
  "StopClientsConcurrently order clients =
    (if interleaves order (close_calls (length clients)) then Some (fold stop_at order clients) else None)"


lemma close_groups_upt: "concat (map (\<lambda>(start, stop). [start..<stop]) (close_groups n b)) = [b..<n]"
proof (induction n b rule: close_groups.induct)
  case (1 n b)
  have "[b..<b + 10] @ [b + 10..<n] = [b..<n]" if "b + 10 \<le> n"
    using that upt_add_eq_append [of b "b + 10" "n - (b + 10)"] by simp
  then show ?case
    using 1 by (subst close_groups.simps) (simp add: Let_def kCloseGroupSize_def del: upt_Suc)
qed

lemma close_groups_length: "length (close_groups n b) = (n - b + 9) div 10"
proof (induction n b rule: close_groups.induct)
  case (1 n b)
  show ?case
  proof (cases "b < n")
    case True
    have "length (close_groups n b) = Suc ((n - (b + 10) + 9) div 10)"
      using 1 True by (subst close_groups.simps) (simp add: Let_def kCloseGroupSize_def)
    then show ?thesis using True by (cases "b + 10 \<le> n") (simp_all add: le_div_geq [of 10])
  qed (simp add: close_groups.simps)
qed

lemma interleaves_mset: "interleaves order calls \<Longrightarrow> mset order = mset (concat calls)"
proof (induction order arbitrary: calls)
  case Nil
  then have "concat calls = []" by simp
  then show ?case by simp
next
  case (Cons i order)
  then obtain k where k: "k < length calls" "calls ! k \<noteq> []" "hd (calls ! k) = i" "interleaves order (calls[k := tl (calls ! k)])"
    by auto
  have "concat calls = concat (take k calls) @ (calls ! k) @ concat (drop (Suc k) calls)"
    by (metis k(1) concat.simps(2) concat_append id_take_nth_drop)
  moreover have "concat (calls[k := tl (calls ! k)]) = concat (take k calls) @ tl (calls ! k) @ concat (drop (Suc k) calls)"
    using k(1) by (simp add: upd_conv_take_nth_drop)
  moreover have "calls ! k = i # tl (calls ! k)" using k(2,3) by (metis list.collapse)
  ultimately show ?case using Cons.IH [OF k(4)] by (metis mset_append mset.simps(2) union_mset_add_mset_left union_mset_add_mset_right)
qed

lemma fold_stop_at:
  assumes "distinct order" "set order \<subseteq> {..<length clients}" "i < length clients"
  shows "fold stop_at order clients ! i = (if i \<in> set order then stopClient (clients ! i) else clients ! i)"
  using assms by (induction order arbitrary: clients) (auto simp: stop_at_def nth_list_update)

lemma length_fold_stop_at [simp]: "length (fold stop_at order clients) = length clients"
  by (induction order arbitrary: clients) (simp_all add: stop_at_def)

text \<open>Whatever the interleaving, every client is stopped, exactly once.\<close>

lemma stop_all:
  assumes "StopClientsConcurrently order clients = Some clients'"
  shows "clients' = map stopClient clients" "mset order = mset [0..<length clients]"
proof -
  have "mset order = mset (concat (close_calls (length clients)))"
    using assms interleaves_mset by (auto simp: StopClientsConcurrently_def split: if_splits)
  then show m: "mset order = mset [0..<length clients]" by (simp add: close_calls_def close_groups_upt)
  have "distinct order" using m by (metis distinct_upt mset_eq_imp_distinct_iff)
  moreover have "set order = {..<length clients}" using mset_eq_setD [OF m] by (simp add: atLeast0LessThan)
  ultimately have "fold stop_at order clients = map stopClient clients"
    using fold_stop_at [of order clients] by (intro nth_equalityI) simp_all
  then show "clients' = map stopClient clients" using assms by (simp add: StopClientsConcurrently_def split: if_splits)
qed


section \<open>The test\<close>

text \<open>
  What the test meets: which clients start, which calls of \<^verbatim>\<open>sendMessage\<close> succeed (by client and message), when the
  sends begin and end, when the wait begins, at each round of it the time and the clients, and the time and the clients after it.  Times are in
  nanoseconds and never go back.
\<close>

record StressEnv =
  start_ok :: "nat \<Rightarrow> bool"
  send_result :: "nat \<Rightarrow> nat \<Rightarrow> bool"
  started_at :: int
  send_finished_at :: int
  wait_started_at :: int
  poll_clock :: "nat \<Rightarrow> int"
  poll_clients :: "nat \<Rightarrow> Client list"
  finished_at :: int
  final_clients :: "Client list"

text \<open>The loop that starts the clients: the first that fails, if one does.\<close>

function start_clients :: "StressEnv \<Rightarrow> nat \<Rightarrow> nat \<Rightarrow> nat option option" where
  "start_clients env client_count i =
    (if i < client_count then
       (case ClientUid (int i) of
          None \<Rightarrow> None
        | Some uid \<Rightarrow> if \<not> start_ok env i then Some (Some i) else start_clients env client_count (Suc i))
     else Some None)"
  by pat_completeness auto
termination
  by (relation "measure (\<lambda>(env, client_count, i). client_count - i)") auto

declare start_clients.simps [simp del]

definition stress_text :: "u64 \<Rightarrow> u64 \<Rightarrow> nat \<Rightarrow> string" where
  "stress_text sender_uid receiver_uid n = ''stress message sender='' @ to_string sender_uid
     @ '' receiver='' @ to_string receiver_uid @ '' index='' @ dec n"

text \<open>What the worker of client \<open>i\<close> sends: receivers and texts.\<close>

definition worker_messages :: "int \<Rightarrow> nat \<Rightarrow> int \<Rightarrow> (u64 \<times> string) list option" where
  "worker_messages client_count messages_per_client i =
    Option.bind (ClientUid i) (\<lambda>sender_uid.
    Option.bind (ClientUid ((i + 1) mod client_count)) (\<lambda>receiver_uid.
    Some (map (\<lambda>n. (receiver_uid, stress_text sender_uid receiver_uid n)) [0..<messages_per_client])))"

text \<open>\<^verbatim>\<open>send_ok\<close> and \<^verbatim>\<open>send_failed\<close> once the workers are joined.\<close>

definition sends_with :: "bool \<Rightarrow> StressEnv \<Rightarrow> nat \<Rightarrow> nat \<Rightarrow> nat" where
  "sends_with ok env client_count messages_per_client =
    sum_list (map (\<lambda>i. length (filter (\<lambda>n. send_result env i n = ok) [0..<messages_per_client])) [0..<client_count])"

record WaitResult =
  client_acks :: int
  client_pushes :: int
  ack_completed_at :: "int option"
  push_completed_at :: "int option"
  last_poll :: nat

definition waited_seconds :: "StressEnv \<Rightarrow> nat \<Rightarrow> int" where
  "waited_seconds env k = cast_int ((poll_clock env k - wait_started_at env) div 10 ^ 9)"

text \<open>A completion time is kept from the first round that reaches the total, and absent before.\<close>

definition completed :: "int option \<Rightarrow> int \<Rightarrow> int \<Rightarrow> int \<Rightarrow> int option" where
  "completed done_at reached total_messages now =
    (if done_at = None \<and> reached \<ge> total_messages then Some now else done_at)"

partial_function (option) wait_loop ::
    "StressEnv \<Rightarrow> int \<Rightarrow> int \<Rightarrow> nat \<Rightarrow> int option \<Rightarrow> int option \<Rightarrow> WaitResult option" where
  "wait_loop env total_messages wait_timeout_seconds k ack_at push_at =
    Option.bind (TotalClientAcks (poll_clients env k)) (\<lambda>acks.
    Option.bind (TotalClientChatPushes (poll_clients env k)) (\<lambda>pushes.
    let now = poll_clock env k;
        ack_at' = completed ack_at acks total_messages now;
        push_at' = completed push_at pushes total_messages now in
    if waited_seconds env k \<ge> wait_timeout_seconds then
      Some \<lparr>client_acks = acks, client_pushes = pushes, ack_completed_at = ack_at', push_completed_at = push_at', last_poll = k\<rparr>
    else wait_loop env total_messages wait_timeout_seconds (Suc k) ack_at' push_at'))"

section \<open>The report\<close>

text \<open>\<^verbatim>\<open>duration_cast<milliseconds>(to - from).count() / 1000.0\<close>.\<close>

definition elapsed_seconds :: "int \<Rightarrow> int \<Rightarrow> rat" where
  "elapsed_seconds from_ns to_ns = double (double (of_int ((to_ns - from_ns) div 10 ^ 6)) / 1000)"

definition stress_config :: "nat \<Rightarrow> nat \<Rightarrow> int \<Rightarrow> bool \<Rightarrow> int \<Rightarrow> string" where
  "stress_config client_count messages_per_client total_messages verbose' wait_timeout_seconds =
    ''stress config: clients='' @ dec client_count @ '', messages_per_client='' @ dec messages_per_client
    @ '', total_messages='' @ int_text total_messages @ '', route=ring'' @ '', verbose='' @ (if verbose' then ''true'' else ''false'')
    @ '', wait_timeout_seconds='' @ int_text wait_timeout_seconds @ newline"

definition throughput :: "string \<Rightarrow> int \<Rightarrow> rat \<Rightarrow> string" where
  "throughput title n seconds =
    (if seconds > 0 then title @ print_double (double (of_int n / seconds)) @ '' msg/s'' @ newline else [])"

definition stress_summary :: "StressEnv \<Rightarrow> WaitResult \<Rightarrow> int \<Rightarrow> int \<Rightarrow> int \<Rightarrow> string" where
  "stress_summary env w send_ok send_failed client_login_resps =
    (let at_end = (\<lambda>t. case t of None \<Rightarrow> finished_at env | Some t \<Rightarrow> t);
         send_elapsed_seconds = elapsed_seconds (started_at env) (send_finished_at env);
         ack_elapsed_seconds = elapsed_seconds (started_at env) (at_end (ack_completed_at w));
         push_elapsed_seconds = elapsed_seconds (started_at env) (at_end (push_completed_at w));
         total_elapsed_seconds = elapsed_seconds (started_at env) (finished_at env)
     in newline @ ''Stress summary'' @ newline
        @ ''  send_elapsed_seconds:  '' @ print_double send_elapsed_seconds @ newline
        @ ''  ack_elapsed_seconds:   '' @ print_double ack_elapsed_seconds @ newline
        @ ''  push_elapsed_seconds:  '' @ print_double push_elapsed_seconds @ newline
        @ ''  total_elapsed_seconds: '' @ print_double total_elapsed_seconds @ newline
        @ ''  send_ok:               '' @ int_text send_ok @ newline
        @ ''  send_failed:           '' @ int_text send_failed @ newline
        @ ''  client_login_resps:    '' @ int_text client_login_resps @ newline
        @ ''  client_chat_pushes:    '' @ int_text (client_pushes w) @ newline
        @ ''  client_acks:           '' @ int_text (client_acks w) @ newline
        @ throughput ''  client_write_throughput: '' send_ok send_elapsed_seconds
        @ throughput ''  server_ack_throughput:   '' (client_acks w) ack_elapsed_seconds
        @ throughput ''  client_push_throughput:  '' (client_pushes w) push_elapsed_seconds)"

section \<open>The run\<close>

text \<open>
  The exit code, the clients that were stopped (worker after worker), what each client was told to send, the result
  of the wait if it came to that, and what was printed to the standard output.
\<close>

record StressOutcome =
  exit_code :: int
  stopped_clients :: "nat list"
  sent_messages :: "(u64 \<times> string) list option list"
  waited :: "WaitResult option"
  printed :: string

definition RunStressTest :: "StressEnv \<Rightarrow> nat \<Rightarrow> nat \<Rightarrow> bool \<Rightarrow> int \<Rightarrow> StressOutcome option" where
  "RunStressTest env client_count messages_per_client verbose' wait_timeout_seconds =
    Option.bind (int_result (int client_count * int messages_per_client)) (\<lambda>total_messages.
    let config = stress_config client_count messages_per_client total_messages verbose' wait_timeout_seconds in
    case start_clients env client_count 0 of
      None \<Rightarrow> None
    | Some (Some i) \<Rightarrow>
        Some \<lparr>exit_code = 1, stopped_clients = i # concat (close_calls i), sent_messages = [], waited = None, printed = config\<rparr>
    | Some None \<Rightarrow>
        let send_ok = sends_with True env client_count messages_per_client;
            send_failed = sends_with False env client_count messages_per_client in
        Option.bind (wait_loop env total_messages wait_timeout_seconds 0 None None) (\<lambda>w.
        Option.bind (TotalClientLoginResponses (final_clients env)) (\<lambda>client_login_resps.
        Some \<lparr>exit_code = (if send_failed = 0 \<and>
                  client_acks w \<ge> total_messages \<and> client_pushes w \<ge> total_messages then 0 else 1),
           stopped_clients = concat (close_calls client_count),
           sent_messages = map (\<lambda>i. worker_messages (int client_count) messages_per_client (int i)) [0..<client_count],
           waited = Some w,
           printed = config @ stress_summary env w (int send_ok) (int send_failed) client_login_resps\<rparr>)))"

text \<open>\<^verbatim>\<open>main\<close>: the client and message counts, verbosity and the timeout from the command line.\<close>

definition main_config :: "string list \<Rightarrow> int \<times> int \<times> bool \<times> int" where
  "main_config argv = (let argc = length argv in
    (if argc > 1 then ParsePositiveInt (Some (argv ! 1)) 8 else 8,
     if argc > 2 then ParsePositiveInt (Some (argv ! 2)) 100 else 100,
     argc > 3 \<and> c_str (argv ! 3) = ''verbose'',
     if argc > 4 then ParsePositiveInt (Some (argv ! 4)) 30 else 30))"

definition main_client :: "StressEnv \<Rightarrow> string list \<Rightarrow> StressOutcome option" where
  "main_client env argv = (case main_config argv of (client_count, messages_per_client, verbose', wait_timeout_seconds) \<Rightarrow>
     RunStressTest env (nat client_count) (nat messages_per_client) verbose' wait_timeout_seconds)"


text \<open>Whole milliseconds, less than a thousand seconds of them, are printed exactly.\<close>

lemma elapsed_printed:
  assumes "(to_ns - from_ns) div 10 ^ 6 = int ms" "0 < ms" "ms < 10 ^ 6"
  shows "print_double (elapsed_seconds from_ns to_ns) = with_fraction (dec (ms div 1000)) (padded 3 (ms mod 1000))"
proof (rule print_thousandths [OF assms(2,3)])
  let ?d = "double (of_nat ms)"
  have s: "elapsed_seconds from_ns to_ns = double (?d / 1000)" using assms(1) by (simp add: elapsed_seconds_def)
  have d: "\<bar>?d - of_nat ms\<bar> \<le> of_nat ms / 2 ^ 53" "0 \<le> ?d" by (rule double_error double_nonneg; simp)+
  have "\<bar>double (?d / 1000) - ?d / 1000\<bar> \<le> ?d / 1000 / 2 ^ 53" by (rule double_error) (use d(2) in simp)
  moreover have p: "(2 :: rat) ^ 53 = 9007199254740992" "(2 :: rat) ^ 50 = 1125899906842624" by simp_all
  ultimately show "\<bar>elapsed_seconds from_ns to_ns - of_nat ms / 1000\<bar> \<le> of_nat ms / 1000 / 2 ^ 50"
    using d unfolding s p by linarith
qed

section \<open>The verdict\<close>

lemma ClientUid_Some: "i < n \<Longrightarrow> n + 1000 \<le> 2 ^ 31 \<Longrightarrow> ClientUid (int i) = Some (word_of_nat (1000 + i))"
  by (simp add: ClientUid_def int_result_def)

text \<open>The route is a ring: each client sends all its messages to one other, and no two send to the same.\<close>

lemma worker_messages_ring:
  assumes "i < n" "n + 1000 \<le> 2 ^ 31"
  shows "worker_messages (int n) m (int i) = Some (map (\<lambda>k. (word_of_nat (1000 + Suc i mod n),
    stress_text (word_of_nat (1000 + i)) (word_of_nat (1000 + Suc i mod n)) k)) [0..<m])"
proof -
  have "(int i + 1) mod int n = int (Suc i mod n)" by (simp add: zmod_int add.commute)
  moreover have "ClientUid (int (Suc i mod n)) = Some (word_of_nat (1000 + Suc i mod n))"
    by (rule ClientUid_Some [of _ n]) (use assms in simp_all)
  ultimately show ?thesis using ClientUid_Some [OF assms] by (simp add: worker_messages_def)
qed

lemma ring_bij: "bij_betw (\<lambda>i. Suc i mod n) {..<n} {..<n}"
proof -
  have "inj_on (\<lambda>i. Suc i mod n) {..<n}" by (auto simp: inj_on_def mod_Suc split: if_splits)
  moreover have "(\<lambda>i. Suc i mod n) ` {..<n} \<subseteq> {..<n}" by auto
  ultimately show ?thesis by (simp add: bij_betw_def endo_inj_surj)
qed

lemma start_clients_ok:
  assumes "\<forall>i < n. start_ok env i" "n + 1000 \<le> 2 ^ 31"
  shows "start_clients env n i = Some None"
  using assms
proof (induction env n i rule: start_clients.induct)
  case (1 env n i)
  then show ?case by (subst start_clients.simps) (simp add: ClientUid_Some [of i n])
qed

lemma start_clients_fails:
  assumes "start_clients env n i = Some (Some j)"
  shows "i \<le> j \<and> j < n \<and> \<not> start_ok env j \<and> (\<forall>k. i \<le> k \<longrightarrow> k < j \<longrightarrow> start_ok env k)"
  using assms
proof (induction env n i rule: start_clients.induct)
  case (1 env n i)
  show ?case
  proof (cases "i < n \<and> start_ok env i")
    case True
    with 1 have "Suc i \<le> j \<and> j < n \<and> \<not> start_ok env j \<and> (\<forall>k. Suc i \<le> k \<longrightarrow> k < j \<longrightarrow> start_ok env k)"
      by (auto simp: start_clients.simps [of env n i] split: option.splits)
    then show ?thesis using True by (metis Suc_leI Suc_leD le_neq_implies_less)
  next
    case False
    then show ?thesis using "1.prems" by (auto simp: start_clients.simps [of env n i] split: option.splits if_splits)
  qed
qed

text \<open>Rounds are at least the 100 ms apart that the loop sleeps, and less than thirty years.\<close>

definition steady :: "StressEnv \<Rightarrow> bool" where
  "steady env \<longleftrightarrow> wait_started_at env \<le> poll_clock env 0 \<and> poll_clock env 0 \<le> wait_started_at env + 10 ^ 18 \<and>
     (\<forall>k. poll_clock env k + 10 ^ 8 \<le> poll_clock env (Suc k) \<and> poll_clock env (Suc k) \<le> poll_clock env k + 10 ^ 18)"

lemma steady_progress: "steady env \<Longrightarrow> wait_started_at env + int k * 10 ^ 8 \<le> poll_clock env k"
proof (induction k)
  case (Suc k)
  then have "poll_clock env k + 10 ^ 8 \<le> poll_clock env (Suc k)" by (simp add: steady_def)
  then show ?case using Suc by (simp add: algebra_simps)
qed (simp add: steady_def)



text \<open>There is a last round, and it comes in time.\<close>

lemma last_round:
  assumes s: "steady env" and t: "0 \<le> timeout" "timeout \<le> 10 ^ 9"
  obtains k where "k \<le> 10 * nat timeout" "timeout \<le> waited_seconds env k" "\<forall>j < k. waited_seconds env j < timeout"
proof -
  let ?w = "\<lambda>k. (poll_clock env k - wait_started_at env) div 10 ^ 9"
  have "timeout * 10 ^ 9 \<le> poll_clock env (10 * nat timeout) - wait_started_at env"
    using steady_progress [OF s, of "10 * nat timeout"] t(1) by simp
  from zdiv_mono1 [OF this, of "10 ^ 9"] have "timeout \<le> ?w (10 * nat timeout)" by simp
  then have "\<exists>k. timeout \<le> ?w k" by blast
  then obtain k where k: "timeout \<le> ?w k" "\<forall>j < k. ?w j < timeout"
    using exists_least_iff [of "\<lambda>k. timeout \<le> ?w k"] by (auto simp: not_le)
  have bound: "k \<le> 10 * nat timeout"
    using \<open>timeout \<le> ?w (10 * nat timeout)\<close> k(2) by (meson leD leI)
  have small: "0 \<le> ?w j" for j using steady_progress [OF s, of j] by simp
  have "?w k \<le> timeout + 10 ^ 9"
  proof (cases k)
    case 0
    then have "poll_clock env k - wait_started_at env \<le> 10 ^ 18" using s by (simp add: steady_def)
    from zdiv_mono1 [OF this, of "10 ^ 9"] t(1) show ?thesis by simp
  next
    case (Suc j)
    then have "?w j < timeout" "poll_clock env k \<le> poll_clock env j + 10 ^ 18" using k(2) s by (simp_all add: steady_def)
    then have "poll_clock env k - wait_started_at env \<le> poll_clock env j - wait_started_at env + 10 ^ 9 * 10 ^ 9" by simp
    from zdiv_mono1 [OF this, of "10 ^ 9"] have "?w k \<le> ?w j + 10 ^ 9" by simp
    then show ?thesis using \<open>?w j < timeout\<close> by linarith
  qed
  then have top: "?w k < 2 ^ 31" using t(2) by simp
  have cast: "waited_seconds env j = ?w j" if "?w j < 2 ^ 31" for j
    unfolding waited_seconds_def by (rule cast_int_small [OF order_trans [OF _ small] that]) simp
  have "waited_seconds env j < timeout" if j: "j < k" for j
  proof -
    have "?w j < timeout" using k(2) j by blast
    moreover from this have "?w j < 2 ^ 31" using t(2) by simp
    ultimately show ?thesis using cast by simp
  qed
  then show thesis using that [OF bound] k(1) cast [OF top] by simp
qed


lemma wait_loop_result:
  assumes "\<forall>j < k. waited_seconds env j < timeout" "timeout \<le> waited_seconds env k" "i \<le> k"
    and "\<And>j. TotalClientAcks (poll_clients env j) = Some (acks j)" "\<And>j. TotalClientChatPushes (poll_clients env j) = Some (pushes j)"
  shows "\<exists>w. wait_loop env total_messages timeout i ack_at push_at = Some w \<and> last_poll w = k \<and> client_acks w = acks k \<and>
    client_pushes w = pushes k"
  using assms(3)
proof (induction "k - i" arbitrary: i ack_at push_at)
  case 0
  then have "i = k" by simp
  then show ?case using assms(2,4,5) by (subst wait_loop.simps) (simp add: Let_def)
next
  case (Suc d)
  then have "waited_seconds env i < timeout" "Suc i \<le> k" "d = k - Suc i" using assms(1) by simp_all
  then show ?case using Suc.hyps(1) assms(4,5) by (subst wait_loop.simps) (simp add: Let_def)
qed

lemma no_failed_sends: "sends_with False env n m = 0 \<longleftrightarrow> (\<forall>i < n. \<forall>j < m. send_result env i j)"
  by (auto simp: sends_with_def sum_list_eq_0_iff filter_empty_conv)

text \<open>
  C34: the stress test ends: when all clients start and each round of its wait takes at least the 100 ms that it
  sleeps, the wait has a last round, at most ten times the timeout in seconds after the first.  The exit code is 0 exactly
  when no send failed and in that last round the clients' counters reach the number of messages; and every client is
  stopped.  The counts must fit: the number of messages, the uids and the totals are in the range of an int.
\<close>

theorem stress_exit:
  assumes "int client_count * int messages_per_client < 2 ^ 31" "client_count + 1000 \<le> 2 ^ 31" "\<forall>i < client_count. start_ok env i"
    and "steady env" "0 < timeout" "timeout \<le> 10 ^ 9"
    and "\<And>k. TotalClientAcks (poll_clients env k) = Some (acks k)" "\<And>k. TotalClientChatPushes (poll_clients env k) = Some (pushes k)"
    and "TotalClientLoginResponses (final_clients env) = Some logins"
  shows "\<exists>out k. RunStressTest env client_count messages_per_client verbose' timeout = Some out \<and> k \<le> 10 * nat timeout \<and>
    timeout \<le> waited_seconds env k \<and> (\<forall>j < k. waited_seconds env j < timeout) \<and>
    (exit_code out = 0 \<longleftrightarrow> (\<forall>i < client_count. \<forall>n < messages_per_client. send_result env i n) \<and>
       acks k \<ge> int (client_count * messages_per_client) \<and> pushes k \<ge> int (client_count * messages_per_client)) \<and>
    stopped_clients out = [0..<client_count]"
proof -
  obtain k where k: "k \<le> 10 * nat timeout" "timeout \<le> waited_seconds env k" "\<forall>j < k. waited_seconds env j < timeout"
    using last_round [OF assms(4)] assms(5,6) by (metis less_imp_le)
  let ?total = "int client_count * int messages_per_client"
  have "0 \<le> ?total" by simp
  then have "- (2 ^ 31) \<le> ?total" by (rule order_trans [rotated]) simp
  then have "int_result ?total = Some ?total" using assms(1) by (simp add: int_result_def)
  moreover obtain w where "wait_loop env ?total timeout 0 None None = Some w" "client_acks w = acks k" "client_pushes w = pushes k"
    using wait_loop_result [OF k(3,2) _ assms(7,8), of 0] by blast
  ultimately have "RunStressTest env client_count messages_per_client verbose' timeout = Some
      \<lparr>exit_code = (if sends_with False env client_count messages_per_client = 0 \<and> acks k \<ge> ?total \<and> pushes k \<ge> ?total
         then 0 else 1),
       stopped_clients = [0..<client_count],
       sent_messages = map (\<lambda>i. worker_messages (int client_count) messages_per_client (int i)) [0..<client_count],
       waited = Some w,
       printed = stress_config client_count messages_per_client ?total verbose' timeout @
         stress_summary env w (int (sends_with True env client_count messages_per_client))
           (int (sends_with False env client_count messages_per_client)) logins\<rparr>"
    using start_clients_ok [OF assms(3,2)] assms(9) by (simp add: RunStressTest_def close_calls_def close_groups_upt Let_def)
  then show ?thesis using k by (intro exI conjI) (auto simp: no_failed_sends split: if_splits)
qed

text \<open>One client that sends one message to itself and gets its push and its acknowledgement; the rounds are a second apart.\<close>

definition demo_stress :: StressEnv where
  "demo_stress = \<lparr>start_ok = (\<lambda>_. True), send_result = (\<lambda>_ _. True), started_at = 0, send_finished_at = 0, wait_started_at = 0, poll_clock = (\<lambda>k. int k * 10 ^ 9),
     poll_clients = (\<lambda>_. [(new_Client (\<lambda>_. 0) (\<lambda>_ n. int n))\<lparr>ack_count := 1, chat_push_count := 1\<rparr>]),
     finished_at = 3 * 10 ^ 9, final_clients = []\<rparr>"

theorem stress_exit_witness: "\<exists>out. RunStressTest demo_stress 1 1 False 2 = Some out \<and> exit_code out = 0 \<and> stopped_clients out = [0]"
proof -
  have "steady demo_stress" by (simp add: steady_def demo_stress_def algebra_simps)
  moreover have "TotalClientAcks (poll_clients demo_stress k) = Some 1" "TotalClientChatPushes (poll_clients demo_stress k) = Some 1" for k
    by (simp_all add: demo_stress_def TotalClientAcks_def TotalClientChatPushes_def getAckCount_def getChatPushCount_def int_result_def)
  moreover have "\<forall>i < 1. start_ok demo_stress i" "\<forall>i n. send_result demo_stress i n" by (simp_all add: demo_stress_def)
  moreover have "TotalClientLoginResponses (final_clients demo_stress) = Some 0"
    by (simp add: demo_stress_def TotalClientLoginResponses_def)
  ultimately show ?thesis using stress_exit [of 1 1 demo_stress 2 "\<lambda>_. 1" "\<lambda>_. 1" 0 False] by auto
qed

end
