(* ===== verification/Codec_Test.thy ===== *)
theory Codec_Test
  imports Codec
begin

text \<open>
  \<^verbatim>\<open>tests/codec_test.cpp\<close>: the checks of the codec's test program, and that all of them hold, whatever the byte order and the serialiser.
\<close>

definition MakeEnvelope :: "u64 \<Rightarrow> string \<Rightarrow> Envelope" where
  "MakeEnvelope seq text' = \<lparr>env_type = CHAT_REQ, env_seq = seq, env_timestamp_ms = 123456,
     env_payload = kChatReq \<lparr>req_from_uid = 1, req_to_uid = 2, req_content = text', req_client_msg_id = ''client-message-1''\<rparr>\<rparr>"

abbreviation decode_default :: "platform \<Rightarrow> string \<Rightarrow> DecodeResult" where
  "decode_default p data \<equiv> DecodeAll p data kDefaultMaxFrameLength"

text \<open>\<^verbatim>\<open>chat_req().content()\<close>, which is empty when the envelope carries something else.\<close>

definition chat_content :: "Envelope \<Rightarrow> string" where
  "chat_content e = (case env_payload e of kChatReq r \<Rightarrow> req_content r | _ \<Rightarrow> [])"

definition TestSingleFrame :: "platform \<Rightarrow> bool" where
  "TestSingleFrame p = (let frame = Encode p (MakeEnvelope 7 ''hello''); result = decode_default p frame in
     frame \<noteq> [] \<and> decode_status result = kOk \<and> consumed_bytes result = length frame \<and> length (envelopes result) = 1 \<and>
     env_seq (envelopes result ! 0) = 7 \<and> chat_content (envelopes result ! 0) = ''hello'')"

definition TestPartialFrame :: "platform \<Rightarrow> bool" where
  "TestPartialFrame p = (let frame = Encode p (MakeEnvelope 8 ''partial''); result = decode_default p (take (length frame - 1) frame) in
     decode_status result = kNeedMoreData \<and> consumed_bytes result = 0 \<and> envelopes result = [])"

definition TestMultipleFrames :: "platform \<Rightarrow> bool" where
  "TestMultipleFrames p = (let data = Encode p (MakeEnvelope 9 ''first'') @ Encode p (MakeEnvelope 10 ''second''); result = decode_default p data in
     decode_status result = kOk \<and> consumed_bytes result = length data \<and> length (envelopes result) = 2 \<and>
     env_seq (envelopes result ! 0) = 9 \<and> env_seq (envelopes result ! 1) = 10)"

definition TestCompleteAndPartialFrames :: "platform \<Rightarrow> bool" where
  "TestCompleteAndPartialFrames p = (let first = Encode p (MakeEnvelope 11 ''complete''); second = Encode p (MakeEnvelope 12 ''partial'');
       result = decode_default p (first @ take (length second - 1) second) in
     decode_status result = kNeedMoreData \<and> consumed_bytes result = length first \<and>
     length (envelopes result) = 1 \<and> env_seq (envelopes result ! 0) = 11)"

definition TestInvalidLength :: "platform \<Rightarrow> bool" where
  "TestInvalidLength p = (let result = decode_default p (mem_bytes (host_order p) (htonl (host_order p) 0)) in
     decode_status result = kInvalidLength \<and> consumed_bytes result = 0)"

text \<open>The exit code.\<close>

definition codec_test_main :: "platform \<Rightarrow> int" where
  "codec_test_main p = (if \<not> TestSingleFrame p \<or> \<not> TestPartialFrame p \<or> \<not> TestMultipleFrames p \<or>
     \<not> TestCompleteAndPartialFrames p \<or> \<not> TestInvalidLength p then 1 else 0)"

section \<open>The checks hold\<close>

definition test_envelopes :: "Envelope list" where
  "test_envelopes = [MakeEnvelope 7 ''hello'', MakeEnvelope 8 ''partial'', MakeEnvelope 9 ''first'', MakeEnvelope 10 ''second'',
     MakeEnvelope 11 ''complete'', MakeEnvelope 12 ''partial'']"

lemma sendable_frame: "sendable p m e \<Longrightarrow> 5 \<le> length (Encode p e)"
  by (erule sendableE) (simp add: Encode_wire_frame Suc_leI)

lemma decode_cut:
  assumes "sendable p m e"
  shows "DecodeAll p (take (length (Encode p e) - 1) (Encode p e)) m =
    \<lparr>decode_status = kNeedMoreData, envelopes = [], consumed_bytes = 0\<rparr>"
  by (rule decode_partial [OF assms]) (use sendable_frame [OF assms] in linarith)+

lemma codec_tests_pass:
  assumes p: "protobuf_ok p" and s: "\<forall>e \<in> set test_envelopes. sendable p kDefaultMaxFrameLength e"
  shows "codec_test_main p = 0"
proof -
  have s: "sendable p kDefaultMaxFrameLength (MakeEnvelope 7 ''hello'')" "sendable p kDefaultMaxFrameLength (MakeEnvelope 8 ''partial'')"
    "sendable p kDefaultMaxFrameLength (MakeEnvelope 9 ''first'')" "sendable p kDefaultMaxFrameLength (MakeEnvelope 10 ''second'')"
    "sendable p kDefaultMaxFrameLength (MakeEnvelope 11 ''complete'')" "sendable p kDefaultMaxFrameLength (MakeEnvelope 12 ''partial'')"
    using s by (simp_all add: test_envelopes_def)
  note frames = DecodeAll_frames [OF p, where m = kDefaultMaxFrameLength]
  have "TestSingleFrame p"
    using frames [of "[MakeEnvelope 7 ''hello'']" "[]"] sendable_frame [OF s(1)] s(1)
    by (auto simp: TestSingleFrame_def Let_def MakeEnvelope_def chat_content_def)
  moreover have "TestPartialFrame p" using decode_cut [OF s(2)] by (simp add: TestPartialFrame_def Let_def)
  moreover have "TestMultipleFrames p"
    using frames [of "[MakeEnvelope 9 ''first'', MakeEnvelope 10 ''second'']" "[]"] s(3,4)
    by (simp add: TestMultipleFrames_def Let_def) (simp add: MakeEnvelope_def)
  moreover have "TestCompleteAndPartialFrames p"
    using frames [of "[MakeEnvelope 11 ''complete'']"] s(5) decode_cut [OF s(6)]
    by (simp add: TestCompleteAndPartialFrames_def Let_def) (simp add: MakeEnvelope_def)
  moreover have "TestInvalidLength p"
    using header_length_wire_frame [of "[]" p "[]"] length_greater_0_conv [of "le_bytes 4 0"] by (simp add: TestInvalidLength_def DecodeAll_unfold header_bytes wire_frame_def)
  ultimately show ?thesis by (simp add: codec_test_main_def)
qed

end
