(* ===== verification/Spec2Isabelle.thy ===== *)
theory Spec2Isabelle
  imports End_To_End Server_System Pool_Progress Perf_Report Stress_Client Codec_Test
begin

text \<open>
  \<^bold>\<open>ReliableMessageDelivery: a verified model\<close>

  The program is a chat server in C++ with a client.  A client logs in over TCP and sends chat requests, each with a client
  message identifier of its own.  The server stores a request in Redis, pushes it to the recipient when that user is
  online, keeps it for the next login otherwise, and acknowledges it to the sender.  The recipient's client
  acknowledges the push; a message that stays unacknowledged is pushed again by a delivery thread, at most three
  times.  The sender's client repeats a request that is not acknowledged, at most five times; the identifier keeps repeats from
  becoming new messages.  All paths below are under \<^verbatim>\<open>src/\<close>.

  \<^bold>\<open>Parts, theories and correspondence\<close>

  \<^item> \<open>Prelude\<close>: machine words, decimal printing, \<^verbatim>\<open>strtoull\<close>, \<^verbatim>\<open>strtol\<close>, \<^verbatim>\<open>atoi\<close> and the lemmas all components share.
    \<open>Doubles\<close>: rounding to 53 binary digits and printing, for the two reports.
  \<^item> \<open>Protocol\<close>: \<^verbatim>\<open>common/protocol/Message.proto\<close>, \<^verbatim>\<open>EnvelopeFactory.h\<close>, \<^verbatim>\<open>EnvelopeInspector.h\<close>.  Messages are records, the
    payload is a datatype with the generated names of its cases, each factory function is a definition whose first
    arguments are the clock readings it makes.
  \<^item> \<open>Codec\<close>: \<^verbatim>\<open>common/protocol/Codec.h\<close>.  \<open>Encode\<close> and \<open>DecodeAll\<close> work on bytes (strings) with a 32-bit length word in
    network order.  \<open>Framing\<close>: the receive buffers of both ends (\<^verbatim>\<open>ChatServer::onMessage\<close>, \<^verbatim>\<open>Client::receiverLoop\<close>).
    \<open>Codec_Test\<close>: \<^verbatim>\<open>tests/codec_test.cpp\<close>, whose checks all hold.
  \<^item> \<open>User_State\<close>: \<^verbatim>\<open>server/src/UserStateService.cpp\<close>.  The record \<open>UserStateService\<close> has the two tables; each
    public function is one function on it, since each holds the mutex throughout.
  \<^item> \<open>Thread_Pool\<close>: \<^verbatim>\<open>server/include/ShardedThreadPool.h\<close>, as a state machine: \<open>submit\<close>, \<open>worker_step\<close>, \<open>stop_step\<close> are the
    critical sections and \<open>pool_step\<close> interleaves them; notifications are steps of their own, delivered in any order, and a
    blocked worker may also wake up unnotified.  \<open>Pool_Progress\<close>: no wake-up of a task is lost.
  \<^item> \<open>Redis\<close>: the Redis commands and the Lua runtime that the store uses.  \<open>Redis_Client\<close>: \<^verbatim>\<open>server/src/RedisClient.cpp\<close>, the pool of
    leased connections, with \<open>client_step\<close> for its threads: entering, blocking on the condition variable
    \<^verbatim>\<open>available_cv_\<close>, leasing, executing, releasing and notifying, spurious wake-ups, and the destructor.
  \<^item> \<open>Effects\<close>: handlers as trees of accesses to the shared state (\<open>proc\<close>), with \<open>run\<close> for a handler by itself and
    \<open>proc_step\<close> for one access.
  \<^item> \<open>Message_Store\<close>: \<^verbatim>\<open>server/src/MessageStore.cpp\<close>, its keys, its six Lua scripts command by command, its parsing of replies and
    every operation.  \<open>Ledger\<close>: the abstract specification of the store and the proof that the scripts implement it;
    \<open>Store_Spec\<close>: the operations against the ledger, for answered, reply-less and lost commands; \<open>Store_Theorems\<close>: the
    properties of the store.
  \<^item> \<open>Dispatcher\<close>: \<^verbatim>\<open>server/src/ServerEventDispatcher.cpp\<close>, every handler, the delivery loop, starting, stopping and queueing.  \<open>Delivery\<close>,
    \<open>Redelivery\<close>, \<open>Login\<close>: what the handlers do, one at a time.  \<open>Concurrent\<close>: many handlers and scans interleaved.
  \<^item> \<open>Chat_Server\<close>: \<^verbatim>\<open>server/src/ChatServer.cpp\<close>, the connection table, both callbacks, and \<open>server_step\<close>, which
    puts the callbacks of all connections, the dispatcher and the pool together; \<^verbatim>\<open>enqueue\<close> is two steps, its check of
    \<^verbatim>\<open>stopped_\<close> and the submission.  \<open>Server_System\<close>: the whole server; its record
    \<open>WholeServer\<close> joins the state of \<open>Chat_Server\<close>, the shared state of \<open>Effects\<close>, what each worker has still to execute and the delivery
    thread, and \<open>whole_step\<close> is a step of any of them.  \<open>main_service\<close> is the start of \<^verbatim>\<open>server/main_service.cpp\<close>.
  \<^item> \<open>Chat_Client\<close>: \<^verbatim>\<open>client/src/Client.cpp\<close>, each critical section an operation; \<open>Client_Theorems\<close>: what they do;
    \<open>Client_Threads\<close>: senders, receiver and retry thread interleaved (\<open>client_thread_step\<close>), with the receiver's handlers
    section by section (\<open>run_section\<close>; lemma \<open>sections_handle\<close>: together they are \<open>handleEnvelope\<close>).
  \<^item> \<open>End_To_End\<close>: client, wire, server, store, wire and client composed.
  \<^item> \<open>Perf_Stats\<close>: \<^verbatim>\<open>server/src/PerfStats.cpp\<close>, counters on relaxed atomics; \<open>Perf_Report\<close>: the line it logs.
    \<open>Stress_Client\<close>: \<^verbatim>\<open>client/main_client.cpp\<close>, the stress test with its report.

  \<^bold>\<open>Interfaces\<close>

  \<^item> \<open>redis_server\<close> (in \<open>Redis\<close>) states the documented behaviour of the thirteen Redis commands as laws of a command table;
    everything about the store is proved for each table that obeys them, and \<open>redis_call\<close> is one.
  \<^item> \<open>session_table\<close> (in \<open>User_State\<close>) is what the dispatcher relies on of the session service; its
    interpretation \<open>users\<close> is on the service's functions.
  \<^item> \<open>stream_decoder\<close> (in \<open>Framing\<close>) is what both ends rely on when they decode a stream in pieces.  \<open>protobuf\<close> is the premise on the
    generated code (\<open>protobuf_ok\<close>: parsing inverts serialising and looks at the given bytes only), and makes the codec a
    \<open>stream_decoder\<close>.

  \<^bold>\<open>What is shown\<close>

  \<^item> The whole server (C3): every run of \<open>whole_step\<close> is a run of the callbacks and queues and a run of the interleaved handlers
    (lemma \<open>whole_run\<close>), so the order of each connection and the durability of each message hold together.
  \<^item> The way of a message: it goes from sender to recipient and the acknowledgements come back (C1).  It is created once however
    often it is requested (C2).  With any interleaving of handlers and scans no stored message is lost or altered,
    and nothing is acknowledged or pushed that is not stored (C4, resting on the typing of handlers C18).  A chat
    request gets one acknowledgement, and a positive one only if the message is stored, whatever happens to Redis
    (C5, C6, C28).
  \<^item> Order: the envelopes of a connection are handled in the order of the stream, each exactly once while the stream holds no
    protocol error (C7; C37 is about the error), since tasks of one key are executed in the order of their submission (C15, C23),
    and each of them can always be executed without further help (C16).
  \<^item> The store refines the ledger (C9, C10); only the recipient can acknowledge (C13).
  \<^item> Delivery: a scan settles every overdue message (C11); a login replays what is pending, by creation time and then by the
    text of the identifiers (C17), or the history (C30); acknowledgements are handled (C29).
  \<^item> Sessions: the two tables agree (C14), a login takes over (C31), a late close harms nobody (\<open>users.conn_of_remove\<close>).
  \<^item> Wire: encoding and decoding are inverse (C12), decoding does not depend on how the stream is cut (C19, C25) and never
    reads more than whole frames (C20).
  \<^item> Redis connections are neither lost nor shared, and no wake-up of a waiting thread is lost (C21); a command is executed at
    most once (C22).
  \<^item> Client: a push is queued and its acknowledgement written to the socket (C24), identifiers are unique (C26), a request is sent at most six times (C8),
    when it is due (C27), and whole (C32).
  \<^item> Counters add up and the printed averages are right up to rounding (C33); the stress test ends with the right verdict
    (C34).
  \<^item> Defects, each proved of the model: stopping the pool can hang (C35); final states are overwritten (C36); a read that
    ends in an error loses the requests before it (C37); a negative acknowledgement takes its request off the retry table
    (C38); messages of one millisecond are listed in the order of the text of their identifiers (C39); the encoder does not
    respect the decoder's limit (C40); a request can be repeated early (lemma \<open>early_retry\<close>); the Redis client's destructor can
    return while a thread has still to notify the condition variable (lemma \<open>notify_after_destruction\<close>).

  Beside the properties, \<open>delivery_join\<close> shows that the delivery thread returns once it is told to stop, \<open>lease_moved_once\<close> that moving
  leases neither loses nor doubles a slot, \<open>stop_all\<close> that the stress test stops each client once, \<open>ring_bij\<close> that
  its route is a ring, \<open>elapsed_printed\<close> that it prints times to the millisecond, \<open>percent_printed\<close> that no share above 100.0 percent is
  logged of a part that took no longer than the whole, \<open>log_wraps\<close> that the log interval can be cut short, and \<open>codec_tests_pass\<close> that the codec's
  test program succeeds.

  \<^bold>\<open>Bounds\<close>

  Message identifiers pass through Lua numbers, which print exactly below ten to the fourteen, and scores are doubles,
  exact up to two to the 53: the store theorems assume \<open>next_id L + 1 < 10 ^ 14\<close> and clock readings in milliseconds up to
  \<open>2 ^ 53\<close>.  Retry counters are read as 32-bit and incremented as 64-bit integers; \<open>ledger_ok\<close> keeps them below \<open>2 ^ 62\<close>.
  In C3 and C4 the number of Redis commands of the run bounds both counters.  The client's sequence numbers are
  64-bit; \<open>in_range\<close> says that fewer than \<open>2 ^ 64\<close> were taken.  No theorem depends on fuel: loops are
  structural or have a measure, and the one loop that may run forever, the stress test's wait, is a partial function whose result is
  proved to exist (C34).

  \<^bold>\<open>Not modelled\<close>

  Protobuf, hiredis, muduo and Redis are not part of the sources and are parameters.  Log lines (but for that of \<^verbatim>\<open>PerfStats\<close>), the client's
  console output, socket set-up, log files and sleeping have no effect on the modelled state.  Doubles are
  non-negative and of normal size; those of the program are.  In \<open>whole_step\<close> the delivery thread is not joined: the end of \<^verbatim>\<open>stop\<close> is \<open>end_stop\<close> with
  \<open>delivery_join\<close>.  \<^verbatim>\<open>web_gateway\<close> is TypeScript, outside the C++ program.  What is left of the C++ files are declarations, comments,
  log lines and calls into muduo.  Time is a sequence of
  clock readings: no theorem speaks of how long a wait on a condition variable takes.

  Some steps join accesses that the program makes one after the other: in \<open>client_thread_step\<close>, \<^verbatim>\<open>sendMessage\<close> up to its
  sequence number, its number and clock readings with the entry in the table, and a retry's check of \<^verbatim>\<open>stop\<close> with its send; in \<open>Perf_Stats\<close>, the
  three loads of \<open>Snapshot\<close>.  In \<open>server_step\<close> a connection's address is not used again.  In the stress test what
  \<^verbatim>\<open>sendMessage\<close> returned is a parameter of \<open>RunStressTest\<close>; C34 is about the runs in which all clients start.
\<close>

end
